(* ===== verification/Mr_Prelude.thy ===== *)
theory Mr_Prelude
  imports Main "HOL-Library.Word"
begin

text \<open>
  Shared vocabulary of the development: the machine types of \<^verbatim>\<open>mrudp/Base.h\<close>, the byte layout of
  packed little-endian integers, and the ordered associative container (\<^verbatim>\<open>std::map\<close>) that
  several components keep their state in.
\<close>

section \<open>Machine types\<close>

type_synonym u8 = "8 word"
type_synonym u16 = "16 word"
type_synonym u32 = "32 word"
type_synonym u64 = "64 word"
type_synonym bytes = "u8 list"

text \<open>
  Clock readings are nanoseconds of \<^verbatim>\<open>std::chrono::steady_clock\<close>; a \<^verbatim>\<open>Duration\<close> is a number of
  milliseconds (\<^verbatim>\<open>std::chrono::milliseconds\<close>).
\<close>

type_synonym timepoint = int
type_synonym duration = int

definition millis :: "duration \<Rightarrow> int" where
  "millis d = d * 1000000"

named_theorems wf_intros \<open>well-formedness preservation\<close>
named_theorems layout_simps \<open>byte layout of packed structures\<close>

section \<open>Little-endian integers\<close>

fun le_of_nat :: "nat \<Rightarrow> nat \<Rightarrow> bytes" where
  "le_of_nat 0 x = []"
| "le_of_nat (Suc k) x = of_nat (x mod 256) # le_of_nat k (x div 256)"

fun nat_of_le :: "bytes \<Rightarrow> nat" where
  "nat_of_le [] = 0"
| "nat_of_le (b # bs) = unat b + 256 * nat_of_le bs"

lemma length_le_of_nat [simp, layout_simps]: "length (le_of_nat k x) = k"
  by (induction k arbitrary: x) auto

lemma unat_of_nat_byte [simp]: "unat (of_nat (x mod 256) :: u8) = x mod 256"
  by (simp add: unat_of_nat)

lemma nat_of_le_of_nat: "nat_of_le (le_of_nat k x) = x mod 256 ^ k"
proof (induction k arbitrary: x)
  case (Suc k)
  have "x mod 256 ^ Suc k = x mod 256 + 256 * (x div 256 mod 256 ^ k)"
    by (simp add: mod_mult2_eq)
  with Suc show ?case by simp
qed simp

lemma nat_of_le_less: "nat_of_le bs < 256 ^ length bs"
proof (induction bs)
  case (Cons b bs)
  have "unat b < 256" using unsigned_less [of b, where 'a = nat] by simp
  with Cons.IH have "unat b + 256 * nat_of_le bs < 256 * 256 ^ length bs" by linarith
  then show ?case by simp
qed simp

lemma le_of_nat_of_le: "length bs = k \<Longrightarrow> le_of_nat k (nat_of_le bs) = bs"
proof (induction bs arbitrary: k)
  case (Cons b bs)
  have "unat b < 256" using unsigned_less [of b, where 'a = nat] by simp
  moreover from Cons.prems obtain j where "k = Suc j" "length bs = j" by auto
  ultimately show ?case using Cons.IH [of j] by simp
qed simp

definition enc_word :: "nat \<Rightarrow> 'a::len word \<Rightarrow> bytes" where
  "enc_word k w = le_of_nat k (unat w)"

definition dec_word :: "bytes \<Rightarrow> 'a::len word" where
  "dec_word bs = of_nat (nat_of_le bs)"

lemma length_enc_word [simp, layout_simps]: "length (enc_word k w) = k"
  by (simp add: enc_word_def)

lemma dec_enc_word:
  assumes "LENGTH('a) = 8 * k"
  shows "dec_word (enc_word k (w :: 'a::len word)) = w"
proof -
  have "(256::nat) ^ k = 2 ^ LENGTH('a)" by (simp add: assms power_mult)
  moreover have "unat w < 2 ^ LENGTH('a)" by (rule unsigned_less)
  ultimately show ?thesis
    by (simp add: dec_word_def enc_word_def nat_of_le_of_nat)
qed

lemma dec_enc_u16 [simp, layout_simps]: "dec_word (enc_word 2 (w :: u16)) = w"
  by (rule dec_enc_word) simp

lemma dec_enc_u32 [simp, layout_simps]: "dec_word (enc_word 4 (w :: u32)) = w"
  by (rule dec_enc_word) simp

lemma dec_enc_u64 [simp, layout_simps]: "dec_word (enc_word 8 (w :: u64)) = w"
  by (rule dec_enc_word) simp

lemma enc_dec_word:
  assumes "length bs = k" and "LENGTH('a) = 8 * k"
  shows "enc_word k (dec_word bs :: 'a::len word) = bs"
proof -
  have "(256::nat) ^ k = 2 ^ LENGTH('a)" by (simp add: assms power_mult)
  then have "nat_of_le bs < 2 ^ LENGTH('a)"
    using nat_of_le_less [of bs] assms(1) by simp
  then have "unat (of_nat (nat_of_le bs) :: 'a word) = nat_of_le bs"
    by (simp add: unat_of_nat)
  then show ?thesis using assms(1)
    by (simp add: dec_word_def enc_word_def le_of_nat_of_le)
qed

section \<open>Lists\<close>

lemma take_append_exact [layout_simps]: "length xs = n \<Longrightarrow> take n (xs @ ys) = xs"
  by simp

lemma drop_append_exact [layout_simps]: "length xs = n \<Longrightarrow> drop n (xs @ ys) = ys"
  by simp

lemma last_part_append [simp]:
  "drop (length (xs @ ys) - length ys) (xs @ ys) = ys"
  "take (length (xs @ ys) - length ys) (xs @ ys) = xs"
  by simp_all

lemma concat_map_butlast_last:
  "xs \<noteq> [] \<Longrightarrow> concat (map f xs) = concat (map f (butlast xs)) @ f (last xs)"
  by (induction xs) auto

section \<open>Ordered maps\<close>

text \<open>
  \<^verbatim>\<open>OrderedMap<K, V>\<close> is \<^verbatim>\<open>std::map\<close>. The interface the components rely on: look-up,
  insertion that keeps an existing entry (\<^verbatim>\<open>emplace\<close>, \<^verbatim>\<open>try_emplace\<close>), update of an entry,
  erasure, and access to the entry with the least key (\<^verbatim>\<open>begin()\<close>).
\<close>

locale ordered_map =
  fixes empty :: "'m"
    and find :: "'m \<Rightarrow> 'k::linorder \<Rightarrow> 'v option"
    and emplace :: "'k \<Rightarrow> 'v \<Rightarrow> 'm \<Rightarrow> 'm"
    and assign :: "'k \<Rightarrow> 'v \<Rightarrow> 'm \<Rightarrow> 'm"
    and erase :: "'k \<Rightarrow> 'm \<Rightarrow> 'm"
    and begin_key :: "'m \<Rightarrow> 'k option"
    and size_of :: "'m \<Rightarrow> nat"
    and invar :: "'m \<Rightarrow> bool"
  assumes find_empty: "find empty k = None"
    and find_emplace: "invar m \<Longrightarrow>
      find (emplace k v m) k' = (if k' = k then Some (case find m k of None \<Rightarrow> v | Some w \<Rightarrow> w) else find m k')"
    and find_assign: "invar m \<Longrightarrow> find (assign k v m) k' = (if k' = k then Some v else find m k')"
    and find_erase: "invar m \<Longrightarrow> find (erase k m) k' = (if k' = k then None else find m k')"
    and begin_None: "invar m \<Longrightarrow> begin_key m = None \<longleftrightarrow> dom (find m) = {}"
    and begin_Some: "invar m \<Longrightarrow> begin_key m = Some k \<Longrightarrow>
      k \<in> dom (find m) \<and> (\<forall>k' \<in> dom (find m). k \<le> k')"
    and size_card: "invar m \<Longrightarrow> size_of m = card (dom (find m))"
    and finite_find: "invar m \<Longrightarrow> finite (dom (find m))"
    and invar_empty: "invar empty"
    and invar_emplace: "invar m \<Longrightarrow> invar (emplace k v m)"
    and invar_assign: "invar m \<Longrightarrow> invar (assign k v m)"
    and invar_erase: "invar m \<Longrightarrow> invar (erase k m)"
begin

lemma dom_erase: "invar m \<Longrightarrow> dom (find (erase k m)) = dom (find m) - {k}"
  by (auto simp: find_erase split: if_splits)

lemma dom_emplace: "invar m \<Longrightarrow> dom (find (emplace k v m)) = insert k (dom (find m))"
  by (auto simp: find_emplace split: if_splits)

lemma dom_assign: "invar m \<Longrightarrow> dom (find (assign k v m)) = insert k (dom (find m))"
  by (auto simp: find_assign split: if_splits)

lemma size_erase: "invar m \<Longrightarrow> k \<in> dom (find m) \<Longrightarrow> Suc (size_of (erase k m)) = size_of m"
  using card_Suc_Diff1 [OF finite_find, of m k] by (simp only: size_card invar_erase dom_erase)

lemma size_erase_absent: "invar m \<Longrightarrow> k \<notin> dom (find m) \<Longrightarrow> size_of (erase k m) = size_of m"
  by (simp add: size_card invar_erase dom_erase)

lemma size_emplace: "invar m \<Longrightarrow> k \<notin> dom (find m) \<Longrightarrow> size_of (emplace k v m) = Suc (size_of m)"
  by (simp add: size_card invar_emplace dom_emplace finite_find)

lemma size_emplace_le: "invar m \<Longrightarrow> size_of (emplace k v m) \<le> Suc (size_of m)"
  by (simp add: size_card invar_emplace dom_emplace finite_find card_insert_if)

lemma size_assign: "invar m \<Longrightarrow> k \<in> dom (find m) \<Longrightarrow> size_of (assign k v m) = size_of m"
  by (simp add: size_card invar_assign dom_assign insert_absorb)

lemma size_zero: "invar m \<Longrightarrow> size_of m = 0 \<longleftrightarrow> begin_key m = None"
  using finite_find [of m] by (simp add: size_card begin_None)

lemmas om_doms = dom_erase dom_emplace dom_assign
lemmas om_invs = invar_empty invar_emplace invar_assign invar_erase
lemmas om_finds = find_empty find_emplace find_assign find_erase

end

text \<open>The container itself: entries in increasing order of their keys.\<close>

type_synonym ('k, 'v) om = "('k \<times> 'v) list"

definition om_find :: "('k, 'v) om \<Rightarrow> 'k \<Rightarrow> 'v option" where
  "om_find m k = map_of m k"

fun om_emplace :: "'k::linorder \<Rightarrow> 'v \<Rightarrow> ('k, 'v) om \<Rightarrow> ('k, 'v) om" where
  "om_emplace k v [] = [(k, v)]"
| "om_emplace k v ((k', v') # m) =
     (if k < k' then (k, v) # (k', v') # m
      else if k = k' then (k', v') # m
      else (k', v') # om_emplace k v m)"

fun om_assign :: "'k::linorder \<Rightarrow> 'v \<Rightarrow> ('k, 'v) om \<Rightarrow> ('k, 'v) om" where
  "om_assign k v [] = [(k, v)]"
| "om_assign k v ((k', v') # m) =
     (if k < k' then (k, v) # (k', v') # m
      else if k = k' then (k, v) # m
      else (k', v') # om_assign k v m)"

fun om_erase :: "'k \<Rightarrow> ('k, 'v) om \<Rightarrow> ('k, 'v) om" where
  "om_erase k [] = []"
| "om_erase k ((k', v') # m) = (if k = k' then m else (k', v') # om_erase k m)"

definition om_begin :: "('k, 'v) om \<Rightarrow> 'k option" where
  "om_begin m = (case m of [] \<Rightarrow> None | (k, v) # _ \<Rightarrow> Some k)"

definition om_inv :: "('k::linorder, 'v) om \<Rightarrow> bool" where
  "om_inv m \<longleftrightarrow> sorted_wrt (<) (map fst m)"

lemma om_find_Nil [simp]: "om_find [] = Map.empty"
  by (rule ext) (simp add: om_find_def)

lemma dom_om_find: "dom (om_find m) = fst ` set m"
  unfolding om_find_def [abs_def] by (simp add: dom_map_of_conv_image_fst)

lemma set_om_emplace: "fst ` set (om_emplace k v m) = insert k (fst ` set m)"
  by (induction k v m rule: om_emplace.induct) auto

lemma set_om_assign: "fst ` set (om_assign k v m) = insert k (fst ` set m)"
  by (induction k v m rule: om_assign.induct) auto

lemma set_om_erase: "x \<in> set (om_erase k m) \<Longrightarrow> x \<in> set m"
  by (induction k m rule: om_erase.induct) (auto split: if_splits)

lemma om_inv_Nil: "om_inv []"
  by (simp add: om_inv_def)

lemma om_inv_Cons: "om_inv ((k, v) # m) \<longleftrightarrow> (\<forall>k' \<in> fst ` set m. k < k') \<and> om_inv m"
  by (auto simp: om_inv_def)

lemma om_inv_emplace: "om_inv m \<Longrightarrow> om_inv (om_emplace k v m)"
  by (induction k v m rule: om_emplace.induct) (auto simp: om_inv_Nil om_inv_Cons set_om_emplace)

lemma om_inv_assign: "om_inv m \<Longrightarrow> om_inv (om_assign k v m)"
  by (induction k v m rule: om_assign.induct) (auto simp: om_inv_Nil om_inv_Cons set_om_assign)

lemma om_inv_erase: "om_inv m \<Longrightarrow> om_inv (om_erase k m)"
  by (induction k m rule: om_erase.induct) (auto simp: om_inv_Cons dest: set_om_erase)

lemma map_of_below: "\<forall>k' \<in> fst ` set m. k < k' \<Longrightarrow> map_of m (k::'k::linorder) = None"
  by (auto simp: map_of_eq_None_iff)

lemma om_find_emplace:
  assumes "om_inv m"
  shows "om_find (om_emplace k v m) k' =
     (if k' = k then Some (case om_find m k of None \<Rightarrow> v | Some w \<Rightarrow> w) else om_find m k')"
  using assms
proof (induction k v m rule: om_emplace.induct)
  case (2 k v k1 v1 m)
  have "map_of m k = None" if "k < k1"
    using that "2.prems" by (intro map_of_below) (auto simp: om_inv_Cons)
  with 2 show ?case by (auto simp: om_find_def om_inv_Cons)
qed (simp add: om_find_def)

lemma om_find_assign:
  "om_inv m \<Longrightarrow> om_find (om_assign k v m) k' = (if k' = k then Some v else om_find m k')"
  by (induction k v m rule: om_assign.induct) (auto simp: om_find_def om_inv_Cons)

lemma om_find_erase:
  assumes "om_inv m"
  shows "om_find (om_erase k m) k' = (if k' = k then None else om_find m k')"
  using assms
proof (induction k m rule: om_erase.induct)
  case (2 k k1 v1 m)
  have "map_of m k1 = None"
    using "2.prems" by (intro map_of_below) (auto simp: om_inv_Cons)
  with 2 show ?case by (auto simp: om_find_def om_inv_Cons)
qed (simp add: om_find_def)

lemma om_size: "om_inv m \<Longrightarrow> length m = card (dom (om_find m))"
  unfolding dom_om_find om_inv_def strict_sorted_iff
  by (metis distinct_card length_map list.set_map)

lemma om_begin_least:
  assumes "om_inv m" and "om_begin m = Some k"
  shows "k \<in> dom (om_find m) \<and> (\<forall>k' \<in> dom (om_find m). k \<le> k')"
proof -
  from assms(2) obtain v m' where "m = (k, v) # m'"
    by (cases m) (auto simp: om_begin_def)
  with assms(1) show ?thesis by (force simp: dom_om_find om_inv_Cons)
qed

interpretation om: ordered_map "[]" om_find om_emplace om_assign om_erase om_begin length om_inv
proof unfold_locales
  fix m :: "('k::linorder, 'v) om"
  show "om_begin m = None \<longleftrightarrow> dom (om_find m) = {}"
    by (cases m) (auto simp: om_begin_def dom_om_find)
  show "finite (dom (om_find m))" by (simp add: dom_om_find)
  show "om_find [] k = (None :: 'v option)" for k :: 'k by (simp add: om_find_def)
qed (simp_all add: om_find_emplace om_find_assign om_find_erase om_inv_emplace om_inv_assign
      om_inv_erase om_inv_Nil om_size om_begin_least)

end
