(* ===== verification/Packet.thy ===== *)
theory Packet
  imports Mr_Prelude
begin

text \<open>
  Packets and frames: \<^verbatim>\<open>mrudp/Packet.h\<close>, \<^verbatim>\<open>mrudp/Packet.inl\<close> and \<^verbatim>\<open>mrudp/Packet.cpp\<close>.

  A packet is a header and a payload. The C++ payload is an array of \<^verbatim>\<open>MAX_PACKET_SIZE\<close> bytes
  with a fill count \<^verbatim>\<open>dataSize\<close>; the model keeps the filled prefix, so \<^verbatim>\<open>dataSize\<close> is the length
  of \<open>pk_data\<close>. A payload longer than \<^verbatim>\<open>MAX_PACKET_SIZE\<close> is what a write past the end of the array
  produces: \<open>wf_packet\<close> says that this has not happened.
\<close>

section \<open>Type identifiers\<close>

text \<open>\<^verbatim>\<open>enum TypeID : uint8_t\<close>; a received header may hold any byte.\<close>

type_synonym TypeID = u8

definition NONE :: TypeID where [simp]: "NONE = 0"
definition H0 :: TypeID where [simp]: "H0 = 65"
definition H1 :: TypeID where [simp]: "H1 = 66"
definition H2 :: TypeID where [simp]: "H2 = 67"
definition H3 :: TypeID where [simp]: "H3 = 68"
definition HANDSHAKE_COMPLETE :: TypeID where [simp]: "HANDSHAKE_COMPLETE = 69"
definition ACK :: TypeID where [simp]: "ACK = 75"
definition DATA_RELIABLE :: TypeID where [simp]: "DATA_RELIABLE = 82"
definition DATA_UNRELIABLE :: TypeID where [simp]: "DATA_UNRELIABLE = 85"
definition PROBE :: TypeID where [simp]: "PROBE = 80"
definition CLOSE_READ :: TypeID where [simp]: "CLOSE_READ = 73"
definition AUTHENTICATE_CHALLENGE :: TypeID where [simp]: "AUTHENTICATE_CHALLENGE = 77"
definition AUTHENTICATE_RESPONSE :: TypeID where [simp]: "AUTHENTICATE_RESPONSE = 87"
definition ENCRYPTED_VIA_PUBLIC_KEY :: TypeID where [simp]: "ENCRYPTED_VIA_PUBLIC_KEY = 90"
definition ENCRYPTED_VIA_AES :: TypeID where [simp]: "ENCRYPTED_VIA_AES = 89"

definition isHandshake :: "TypeID \<Rightarrow> bool" where
  "isHandshake typeID \<longleftrightarrow> typeID \<ge> H0 \<and> typeID < HANDSHAKE_COMPLETE"

definition isAck :: "TypeID \<Rightarrow> bool" where
  "isAck typeID \<longleftrightarrow> typeID = ACK \<or> typeID = H1 \<or> typeID = H3 \<or> typeID = AUTHENTICATE_RESPONSE"

text \<open>\<^verbatim>\<open>enum FrameTypeID : uint8_t\<close>.\<close>

type_synonym FrameTypeID = u8

definition ACK_FRAME :: FrameTypeID where [simp]: "ACK_FRAME = 65"
definition DATA :: FrameTypeID where [simp]: "DATA = 84"
definition CLOSE_WRITE :: FrameTypeID where [simp]: "CLOSE_WRITE = 87"
definition DATA_COMPRESSED :: FrameTypeID where [simp]: "DATA_COMPRESSED = 90"

type_synonym PacketID = u16
type_synonym FrameID = u16
type_synonym ShortConnectionID = u16
type_synonym LongConnectionID = bytes

section \<open>Sizes\<close>

definition MAX_PACKET_SIZE :: nat where [simp]: "MAX_PACKET_SIZE = 1500"
definition MAX_ROUTE_SIZE :: nat where [simp]: "MAX_ROUTE_SIZE = 0"
definition MAX_PACKET_POST_CRYPTO_SIZE :: nat where
  [simp]: "MAX_PACKET_POST_CRYPTO_SIZE = MAX_PACKET_SIZE - MAX_ROUTE_SIZE"
definition MAX_CRYPTO_SIZE :: nat where [simp]: "MAX_CRYPTO_SIZE = 64"
definition MAX_PACKET_POST_FRAME_SIZE :: nat where
  [simp]: "MAX_PACKET_POST_FRAME_SIZE = MAX_PACKET_POST_CRYPTO_SIZE - MAX_CRYPTO_SIZE"

text \<open>\<^verbatim>\<open>sizeof(FrameHeader)\<close>: two bytes of identifier, one of type, two of size, packed.\<close>

definition MAX_FRAME_HEADER_SIZE :: nat where [simp]: "MAX_FRAME_HEADER_SIZE = 5"
definition MAX_PACKET_DATA_SIZE :: nat where
  [simp]: "MAX_PACKET_DATA_SIZE = MAX_PACKET_POST_FRAME_SIZE - MAX_FRAME_HEADER_SIZE"

section \<open>Packets\<close>

record Header =
  h_version :: u8
  h_connection :: ShortConnectionID
  h_type :: TypeID
  h_id :: PacketID

record Packet =
  pk_header :: Header
  pk_data :: bytes

text \<open>\<^verbatim>\<open>strong<Packet>()\<close>: a value-initialised packet.\<close>

definition new_packet :: Packet where
  "new_packet =
     \<lparr>pk_header = \<lparr>h_version = 1, h_connection = 0, h_type = NONE, h_id = 0\<rparr>, pk_data = []\<rparr>"

definition pk_type :: "Packet \<Rightarrow> TypeID" where
  "pk_type p = h_type (pk_header p)"

definition pk_id :: "Packet \<Rightarrow> PacketID" where
  "pk_id p = h_id (pk_header p)"

definition set_type :: "TypeID \<Rightarrow> Packet \<Rightarrow> Packet" where
  "set_type t p = p\<lparr>pk_header := (pk_header p)\<lparr>h_type := t\<rparr>\<rparr>"

definition set_id :: "PacketID \<Rightarrow> Packet \<Rightarrow> Packet" where
  "set_id i p = p\<lparr>pk_header := (pk_header p)\<lparr>h_id := i\<rparr>\<rparr>"

definition set_connection :: "ShortConnectionID \<Rightarrow> Packet \<Rightarrow> Packet" where
  "set_connection i p = p\<lparr>pk_header := (pk_header p)\<lparr>h_connection := i\<rparr>\<rparr>"

definition dataSize :: "Packet \<Rightarrow> nat" where
  "dataSize p = length (pk_data p)"

definition wf_packet :: "Packet \<Rightarrow> bool" where
  "wf_packet p \<longleftrightarrow> length (pk_data p) \<le> MAX_PACKET_SIZE"

lemmas pk_sel_defs = pk_type_def pk_id_def set_type_def set_id_def set_connection_def dataSize_def

lemma pk_setters [simp]:
  "pk_type (set_type t p) = t" "pk_id (set_type t p) = pk_id p" "pk_data (set_type t p) = pk_data p"
  "pk_type (set_id i p) = pk_type p" "pk_id (set_id i p) = i" "pk_data (set_id i p) = pk_data p"
  "pk_type (set_connection n p) = pk_type p" "pk_id (set_connection n p) = pk_id p"
  "pk_data (set_connection n p) = pk_data p"
  "dataSize (set_type t p) = dataSize p" "dataSize (set_id i p) = dataSize p"
  "dataSize (set_connection n p) = dataSize p"
  "pk_data new_packet = []" "dataSize new_packet = 0" "pk_type new_packet = 0"
  by (simp_all add: pk_sel_defs new_packet_def)

lemma wf_setters [simp, wf_intros]:
  "wf_packet (set_type t p) = wf_packet p" "wf_packet (set_id i p) = wf_packet p"
  "wf_packet (set_connection n p) = wf_packet p" "wf_packet new_packet"
  by (simp_all add: wf_packet_def)

text \<open>
  \<^verbatim>\<open>operator==\<close> on packets compares \<^verbatim>\<open>dataSize\<close> and then the header and the filled part of the
  payload byte by byte.
\<close>

definition enc_header :: "Header \<Rightarrow> bytes" where
  "enc_header h = [h_version h] @ enc_word 2 (h_connection h) @ [h_type h] @ enc_word 2 (h_id h)"

definition packet_eq :: "Packet \<Rightarrow> Packet \<Rightarrow> bool" where
  "packet_eq lhs rhs \<longleftrightarrow> dataSize lhs = dataSize rhs \<and>
     enc_header (pk_header lhs) @ pk_data lhs = enc_header (pk_header rhs) @ pk_data rhs"

section \<open>Comparing identifiers across the wrap-around\<close>

definition id_greater_than :: "'a::len word \<Rightarrow> 'a word \<Rightarrow> bool" where
  "id_greater_than lhs rhs =
     (let top_bit = push_bit (LENGTH('a) - 1) 1;
          lhs_gtr_rhs = lhs > rhs;
          diff = (if lhs_gtr_rhs then lhs - rhs else rhs - lhs)
      in if diff > top_bit then \<not> lhs_gtr_rhs else lhs_gtr_rhs)"

section \<open>The payload as a stack of bytes\<close>

text \<open>
  \<^verbatim>\<open>popData(Packet &, u8 *, size_t)\<close>: the bytes leave from the end; \<open>None\<close> is the result
  \<^verbatim>\<open>false\<close>, which leaves the packet as it is.
\<close>

definition popData :: "Packet \<Rightarrow> nat \<Rightarrow> (bytes \<times> Packet) option" where
  "popData p sz =
     (if dataSize p < sz then None
      else let n = dataSize p - sz
           in Some (drop n (pk_data p), p\<lparr>pk_data := take n (pk_data p)\<rparr>))"

definition peekData :: "Packet \<Rightarrow> nat \<Rightarrow> bytes option" where
  "peekData p sz =
     (if dataSize p < sz then None else Some (drop (dataSize p - sz) (pk_data p)))"

text \<open>
  \<^verbatim>\<open>popData(Packet &, Vector<u8> &)\<close>: the size, then that many bytes. When the second step
  fails the size has already been taken off.
\<close>

definition popVector :: "Packet \<Rightarrow> bytes option \<times> Packet" where
  "popVector p =
     (case popData p 2 of
        None \<Rightarrow> (None, p)
      | Some (sz, p1) \<Rightarrow>
          (case popData p1 (unat (dec_word sz :: u16)) of
             None \<Rightarrow> (None, p1)
           | Some (bs, p2) \<Rightarrow> (Some bs, p2)))"

text \<open>
  \<^verbatim>\<open>pushData(Packet &, const u8 *, size_t)\<close>. The guard is evaluated in \<^verbatim>\<open>size_t\<close>, where
  \<^verbatim>\<open>MAX_PACKET_SIZE - size\<close> wraps around; past the guard the bytes are copied behind the filled
  part, whether they fit into the array or not.
\<close>

definition pushData :: "Packet \<Rightarrow> bytes \<Rightarrow> bool \<times> Packet" where
  "pushData p bs =
     (if (of_nat (dataSize p) :: u64) > of_nat MAX_PACKET_SIZE - of_nat (length bs) then (False, p)
      else (True, p\<lparr>pk_data := pk_data p @ bs\<rparr>))"

text \<open>The template \<^verbatim>\<open>pushData(Packet &, const T &)\<close> drops the result of the copy.\<close>

definition pushT :: "Packet \<Rightarrow> bytes \<Rightarrow> bool \<times> Packet" where
  "pushT p bs = (True, snd (pushData p bs))"

definition pushSizedData :: "Packet \<Rightarrow> bytes \<Rightarrow> bool \<times> Packet" where
  "pushSizedData p bs =
     (let (ok, p1) = pushData p bs
      in if ok then pushT p1 (enc_word 2 (of_nat (length bs) :: u16)) else (False, p1))"

definition popSizedData :: "Packet \<Rightarrow> bytes option \<times> Packet" where
  "popSizedData p =
     (case popData p 2 of
        None \<Rightarrow> (None, p)
      | Some (sz, p1) \<Rightarrow>
          (case popData p1 (unat (dec_word sz :: u16)) of
             None \<Rightarrow> (None, p1)
           | Some (bs, p2) \<Rightarrow> (Some bs, p2)))"

definition pushSizeVector :: "bytes \<Rightarrow> nat" where
  "pushSizeVector bs = length bs + 2"

section \<open>Frames\<close>

record FrameHeader =
  fh_id :: FrameID
  fh_type :: FrameTypeID
  fh_dataSize :: u16

definition enc_frame_header :: "FrameHeader \<Rightarrow> bytes" where
  "enc_frame_header h = enc_word 2 (fh_id h) @ [fh_type h] @ enc_word 2 (fh_dataSize h)"

definition dec_frame_header :: "bytes \<Rightarrow> FrameHeader" where
  "dec_frame_header bs =
     \<lparr>fh_id = dec_word (take 2 bs), fh_type = hd (drop 2 bs),
      fh_dataSize = dec_word (take 2 (drop 3 bs))\<rparr>"

text \<open>\<^verbatim>\<open>ReceiveQueue::Frame\<close>: a frame header and its bytes.\<close>

record Frame =
  f_id :: FrameID
  f_type :: FrameTypeID
  f_data :: bytes

definition pushFrame :: "Packet \<Rightarrow> FrameHeader \<Rightarrow> bytes \<Rightarrow> bool \<times> Packet" where
  "pushFrame p h bs =
     (let (ok, p1) = pushT p (enc_frame_header h)
      in if ok then pushData p1 (take (unat (fh_dataSize h)) bs) else (False, p1))"

definition popFrame :: "Packet \<Rightarrow> (FrameHeader \<times> bytes) option \<times> Packet" where
  "popFrame p =
     (case popData p MAX_FRAME_HEADER_SIZE of
        None \<Rightarrow> (None, p)
      | Some (hb, p1) \<Rightarrow>
          (let h = dec_frame_header hb
           in case popData p1 (unat (fh_dataSize h)) of
                None \<Rightarrow> (None, p1)
              | Some (bs, p2) \<Rightarrow> (Some (h, bs), p2)))"

section \<open>Arithmetic of the guard\<close>

lemma u64_less_of_nat:
  "m < 2 ^ 64 \<Longrightarrow> n < 2 ^ 64 \<Longrightarrow> (of_nat m :: u64) < of_nat n \<longleftrightarrow> m < n"
  by (simp add: word_less_nat_alt unat_of_nat)

lemma pushData_guard_small:
  assumes "length bs \<le> MAX_PACKET_SIZE" and "dataSize p < 2 ^ 64"
  shows "(of_nat (dataSize p) :: u64) > of_nat MAX_PACKET_SIZE - of_nat (length bs)
     \<longleftrightarrow> dataSize p > MAX_PACKET_SIZE - length bs"
proof -
  have "(of_nat MAX_PACKET_SIZE - of_nat (length bs) :: u64) = of_nat (MAX_PACKET_SIZE - length bs)"
    using assms(1) by (simp only: of_nat_diff)
  then show ?thesis using assms(2) u64_less_of_nat [of "MAX_PACKET_SIZE - length bs" "dataSize p"]
    by simp
qed

lemma pushData_fits:
  assumes "dataSize p + length bs \<le> MAX_PACKET_SIZE"
  shows "pushData p bs = (True, p\<lparr>pk_data := pk_data p @ bs\<rparr>)"
  using assms pushData_guard_small [of bs p] by (simp add: pushData_def)

lemma pushData_refuses:
  assumes "wf_packet p" and "length bs \<le> MAX_PACKET_SIZE" and "MAX_PACKET_SIZE < dataSize p + length bs"
  shows "pushData p bs = (False, p)"
  using assms pushData_guard_small [of bs p] by (simp add: pushData_def wf_packet_def dataSize_def)

lemma pushT_fits:
  "dataSize p + length bs \<le> MAX_PACKET_SIZE \<Longrightarrow> pushT p bs = (True, p\<lparr>pk_data := pk_data p @ bs\<rparr>)"
  by (simp add: pushT_def pushData_fits)

lemma pushData_wf [wf_intros]:
  assumes "wf_packet p" and "length bs \<le> MAX_PACKET_SIZE"
  shows "wf_packet (snd (pushData p bs))"
proof (cases "dataSize p + length bs \<le> MAX_PACKET_SIZE")
  case True
  then show ?thesis by (simp add: pushData_fits wf_packet_def dataSize_def)
next
  case False
  with assms show ?thesis by (simp add: pushData_refuses)
qed

lemma pushData_overrun:
  assumes "wf_packet p" and "MAX_PACKET_SIZE < length bs" and "length bs \<le> 2 ^ 63"
  shows "pushData p bs = (True, p\<lparr>pk_data := pk_data p @ bs\<rparr>)"
proof -
  let ?w = "of_nat MAX_PACKET_SIZE - of_nat (length bs) :: u64"
  have "unat (of_nat (length bs) :: u64) = length bs"
    using assms(3) by (simp add: unat_of_nat)
  then have "unat ?w = 2 ^ 64 + MAX_PACKET_SIZE - length bs"
    using assms(2) by (simp add: unat_sub_if_size word_size)
  moreover have "unat (of_nat (dataSize p) :: u64) = dataSize p"
    using assms(1) by (simp add: unat_of_nat wf_packet_def dataSize_def)
  ultimately have "\<not> (of_nat (dataSize p) :: u64) > ?w"
    using assms by (simp add: word_less_nat_alt wf_packet_def dataSize_def)
  then show ?thesis by (simp add: pushData_def)
qed

section \<open>Stack discipline\<close>

lemma popData_append [simp]:
  "length bs = n \<Longrightarrow> popData (p\<lparr>pk_data := xs @ bs\<rparr>) n = Some (bs, p\<lparr>pk_data := xs\<rparr>)"
  by (auto simp: popData_def dataSize_def Let_def)

lemma popData_wf [wf_intros]: "popData p n = Some (bs, q) \<Longrightarrow> wf_packet p \<Longrightarrow> wf_packet q"
  by (auto simp: popData_def wf_packet_def Let_def split: if_splits)

lemma popData_length: "popData p n = Some (bs, q) \<Longrightarrow> length bs = n"
  by (auto simp: popData_def dataSize_def Let_def split: if_splits)

lemma popData_split: "popData p n = Some (bs, q) \<Longrightarrow> pk_data p = pk_data q @ bs"
  by (auto simp: popData_def Let_def split: if_splits)

lemma popVector_wf [wf_intros]: "wf_packet p \<Longrightarrow> wf_packet (snd (popVector p))"
  by (auto simp: popVector_def split: option.splits dest: popData_wf)

lemma popVector_append:
  assumes "length bs < 2 ^ 16"
  shows "popVector (p\<lparr>pk_data := xs @ bs @ enc_word 2 (of_nat (length bs) :: u16)\<rparr>)
     = (Some bs, p\<lparr>pk_data := xs\<rparr>)"
  using assms popData_append [where bs = "enc_word 2 (of_nat (length bs) :: u16)" and n = 2 and xs = "xs @ bs"]
  by (simp add: popVector_def unat_of_nat)

lemma length_enc_frame_header [simp, layout_simps]: "length (enc_frame_header h) = 5"
  by (simp add: enc_frame_header_def)

lemma dec_enc_frame_header [simp, layout_simps]: "dec_frame_header (enc_frame_header h @ xs) = h"
proof -
  have "hd (drop 2 (enc_frame_header h @ xs)) = fh_type h"
    and "take 2 (drop 3 (enc_frame_header h @ xs)) = enc_word 2 (fh_dataSize h)"
    and "take 2 (enc_frame_header h @ xs) = enc_word 2 (fh_id h)"
    by (simp_all add: enc_frame_header_def)
  then show ?thesis by (simp add: dec_frame_header_def)
qed

section \<open>Frames on the wire\<close>

definition frame_header :: "Frame \<Rightarrow> FrameHeader" where
  "frame_header f = \<lparr>fh_id = f_id f, fh_type = f_type f, fh_dataSize = of_nat (length (f_data f))\<rparr>"

definition enc_frame :: "Frame \<Rightarrow> bytes" where
  "enc_frame f = enc_frame_header (frame_header f) @ f_data f"

lemma length_enc_frame [simp, layout_simps]: "length (enc_frame f) = 5 + length (f_data f)"
  by (simp add: enc_frame_def)

lemma pushFrame_fits:
  assumes "dataSize p + length (enc_frame f) \<le> MAX_PACKET_SIZE"
  shows "pushFrame p (frame_header f) (f_data f) = (True, p\<lparr>pk_data := pk_data p @ enc_frame f\<rparr>)"
proof -
  have "unat (of_nat (length (f_data f)) :: u16) = length (f_data f)"
    using assms by (simp add: unat_of_nat)
  with assms show ?thesis
    by (simp add: pushFrame_def pushT_fits pushData_fits frame_header_def enc_frame_def dataSize_def)
qed

section \<open>Serial-number comparison\<close>

lemma id_greater_than_nat:
  "id_greater_than (a :: 'a::len word) b \<longleftrightarrow>
     (if a > b then unat a - unat b \<le> 2 ^ (LENGTH('a) - 1) else unat b - unat a > 2 ^ (LENGTH('a) - 1))"
proof -
  have t: "unat (push_bit (LENGTH('a) - 1) 1 :: 'a word) = 2 ^ (LENGTH('a) - 1)"
  proof -
    have "(2::nat) ^ (LENGTH('a) - 1) < 2 ^ LENGTH('a)" by simp
    moreover have "(push_bit (LENGTH('a) - 1) 1 :: 'a word) = of_nat (2 ^ (LENGTH('a) - 1))"
      by (simp add: push_bit_eq_mult)
    ultimately show ?thesis by (simp only: unat_of_nat mod_less)
  qed
  then show ?thesis
    by (auto simp: id_greater_than_def Let_def word_less_nat_alt unat_sub_if_size word_size)
qed

lemma mod_wrap:
  fixes a b N :: nat
  assumes "a \<le> b" and "b < a + N"
  shows "b mod N = (if a mod N + (b - a) < N then a mod N + (b - a) else a mod N + (b - a) - N)"
proof -
  have "b mod N = (a + (b - a)) mod N" using assms(1) by simp
  then have eq: "b mod N = (a mod N + (b - a)) mod N" by (simp only: mod_add_left_eq)
  have "a mod N < N" using assms by (intro mod_less_divisor) simp
  with assms have "a mod N + (b - a) < N + N" by linarith
  with eq show ?thesis by (cases "a mod N + (b - a) < N") (simp_all add: le_mod_geq)
qed

lemma serial_order:
  fixes m n H N :: nat
  assumes N: "N = 2 * H" and "m < n + H" and "n < m + H"
  shows "(if n mod N < m mod N then m mod N - n mod N \<le> H else H < n mod N - m mod N) \<longleftrightarrow> n < m"
proof -
  define x y where "x = n mod N" and "y = m mod N"
  note xy = this
  have lt: "x < N" "y < N" using assms by (auto simp: xy intro!: mod_less_divisor)
  have "(if x < y then y - x \<le> H else H < x - y) \<longleftrightarrow> n < m"
  proof (cases "n \<le> m")
    case True
    then have "y = (if x + (m - n) < N then x + (m - n) else x + (m - n) - N)"
      unfolding xy using assms by (intro mod_wrap) auto
    with True lt assms show ?thesis by (auto split: if_splits)
  next
    case False
    then have "x = (if y + (n - m) < N then y + (n - m) else y + (n - m) - N)"
      unfolding xy using assms by (intro mod_wrap) auto
    with False lt assms show ?thesis by (auto split: if_splits)
  qed
  then show ?thesis by (simp only: xy)
qed

lemma id_gt_serial:
  fixes m n :: nat
  assumes "m < n + 2 ^ (LENGTH('a) - 1)" and "n < m + 2 ^ (LENGTH('a) - 1)"
  shows "id_greater_than (of_nat m :: 'a::len word) (of_nat n) \<longleftrightarrow> m > n"
proof -
  have "(2::nat) ^ LENGTH('a) = 2 * 2 ^ (LENGTH('a) - 1)" by (simp flip: power_Suc)
  from serial_order [OF this assms] show ?thesis
    by (simp only: id_greater_than_nat word_less_nat_alt unat_of_nat)
qed

text \<open>As long as two counters are less than half the identifier range apart,
  \<^verbatim>\<open>id_greater_than\<close> on their identifiers decides which counter is ahead, wherever the identifiers
  have wrapped around.\<close>

theorem id_greater_than_serial:
  fixes m n :: nat
  assumes "m < n + 2 ^ (LENGTH('a) - 1)" and "n < m + 2 ^ (LENGTH('a) - 1)"
  shows "id_greater_than (of_nat m :: 'a::len word) (of_nat n) \<longleftrightarrow> m > n"
  using assms by (rule id_gt_serial)

theorem id_greater_than_serial_witness:
  "id_greater_than (of_nat 65540 :: 16 word) (of_nat 65530) \<longleftrightarrow> (65540::nat) > 65530"
  by (rule id_greater_than_serial) simp_all

text \<open>Any two different identifiers are ordered one way and not the other, and no identifier
  is ahead of itself, at every distance.\<close>

theorem id_greater_than_total:
  "id_greater_than (a :: 'a::len word) b = (a \<noteq> b \<and> \<not> id_greater_than b a)"
  by (auto simp: id_greater_than_nat word_less_nat_alt word_unat_eq_iff)

section \<open>Correctness of the payload stack\<close>

text \<open>\<^verbatim>\<open>pushData\<close> of at most \<^verbatim>\<open>MAX_PACKET_SIZE\<close> bytes never writes past the payload array: the bytes
  are appended exactly when they fit, and otherwise the packet is unchanged and the result is
  \<^verbatim>\<open>false\<close>.\<close>

theorem pushData_bounded:
  assumes "wf_packet p" and "length bs \<le> MAX_PACKET_SIZE"
  shows "pushData p bs =
      (if dataSize p + length bs \<le> MAX_PACKET_SIZE then (True, p\<lparr>pk_data := pk_data p @ bs\<rparr>) else (False, p))
    \<and> wf_packet (snd (pushData p bs))"
  using assms pushData_fits [of p bs] pushData_refuses [of p bs] pushData_wf [of p bs] by simp

theorem pushData_bounded_witness:
  "wf_packet new_packet \<and> fst (pushData new_packet [1, 2, 3])
    \<and> pk_data (snd (pushData new_packet [1, 2, 3])) = [1, 2, 3]"
  using pushData_bounded [of new_packet "[1, 2, 3]"] by simp

text \<open>The guard of \<^verbatim>\<open>pushData\<close> wraps around: a request for more bytes than a packet holds is
  accepted and written past the end of the payload array, for every size up to half the address
  space.\<close>

theorem pushData_wraps:
  assumes "wf_packet p" and "MAX_PACKET_SIZE < length bs" and "length bs \<le> 2 ^ 63"
  shows "fst (pushData p bs) \<and> \<not> wf_packet (snd (pushData p bs))"
  using assms by (simp add: pushData_overrun wf_packet_def)

theorem pushData_wraps_witness:
  "fst (pushData new_packet (replicate 1501 0)) \<and> \<not> wf_packet (snd (pushData new_packet (replicate 1501 0)))"
  by (rule pushData_wraps) (simp_all add: wf_packet_def)

text \<open>What is pushed last is popped first: a byte vector that fits comes back from
  \<^verbatim>\<open>popData\<close> unchanged and the packet is as before the push.\<close>

theorem pop_pushSizedData:
  assumes "dataSize p + length bs + 2 \<le> MAX_PACKET_SIZE"
  shows "fst (pushSizedData p bs) \<and> popVector (snd (pushSizedData p bs)) = (Some bs, p)"
proof -
  have "dataSize (p\<lparr>pk_data := pk_data p @ bs\<rparr>) + 2 \<le> MAX_PACKET_SIZE"
    using assms by (simp add: dataSize_def)
  then have "pushSizedData p bs = (True,
      p\<lparr>pk_data := pk_data p @ bs @ enc_word 2 (of_nat (length bs) :: u16)\<rparr>)"
    using assms by (simp add: pushSizedData_def pushData_fits pushT_fits)
  then show ?thesis using assms popVector_append [where p = p and xs = "pk_data p" and bs = bs] by simp
qed

theorem pop_pushSizedData_witness:
  "fst (pushSizedData new_packet [7, 8]) \<and> popVector (snd (pushSizedData new_packet [7, 8])) = (Some [7, 8], new_packet)"
  using pop_pushSizedData [of new_packet "[7, 8]"] by simp

end
