(* ===== verification/Mr_Types.thy ===== *)
theory Mr_Types
  imports Packet
begin

text \<open>
  Connection options, result codes and connection identifiers: \<^verbatim>\<open>mrudp/Types.h\<close>,
  \<^verbatim>\<open>mrudp/Types.cpp\<close>, the option and event types of \<^verbatim>\<open>mrudp/mrudp.h\<close> and the default options
  of \<^verbatim>\<open>mrudp/mrudp.cpp\<close>; the statistics counters of \<^verbatim>\<open>mrudp/Statistics.cpp\<close>; the identifier
  generator of \<^verbatim>\<open>mrudp/sender/IDGenerator.inl\<close>.
\<close>

unbundle bit_operations_syntax

section \<open>Result codes and events\<close>

definition MRUDP_OK :: int where [simp]: "MRUDP_OK = 0"
definition MRUDP_ERROR_GENERAL_FAILURE :: int where [simp]: "MRUDP_ERROR_GENERAL_FAILURE = 1"
definition MRUDP_ERROR_PACKET_SIZE_TOO_LARGE :: int where [simp]: "MRUDP_ERROR_PACKET_SIZE_TOO_LARGE = 2"
definition MRUDP_ERROR_CONNECTION_CLOSED :: int where [simp]: "MRUDP_ERROR_CONNECTION_CLOSED = 3"

text \<open>\<^verbatim>\<open>enum ErrorCode\<close>, with the values the enumerators are given.\<close>

definition OK :: int where [simp]: "OK = 0"
definition ERROR_GENERAL_FAILURE :: int where
  [simp]: "ERROR_GENERAL_FAILURE = MRUDP_ERROR_GENERAL_FAILURE"
definition ERROR_PACKET_SIZE_TOO_LARGE :: int where
  [simp]: "ERROR_PACKET_SIZE_TOO_LARGE = MRUDP_ERROR_PACKET_SIZE_TOO_LARGE"
definition ERROR_CONNECTION_CLOSED :: int where
  [simp]: "ERROR_CONNECTION_CLOSED = MRUDP_ERROR_PACKET_SIZE_TOO_LARGE"

datatype mrudp_event = MRUDP_EVENT_NOT_ACCEPTED | MRUDP_EVENT_TIMEOUT | MRUDP_EVENT_CLOSED

datatype Reliability = UNRELIABLE | RELIABLE

text \<open>The two-valued \<^verbatim>\<open>Status\<close> of \<^verbatim>\<open>SendQueue\<close>, \<^verbatim>\<open>Retrier\<close> and \<^verbatim>\<open>Probe\<close>.\<close>

datatype OpenStatus = IS_OPEN | IS_CLOSED

text \<open>The three-valued, ordered \<^verbatim>\<open>Status\<close> of \<^verbatim>\<open>Sender\<close> and \<^verbatim>\<open>Receiver\<close>.\<close>

datatype Status = UNINITIALIZED | OPEN | CLOSED

fun status_rank :: "Status \<Rightarrow> nat" where
  "status_rank UNINITIALIZED = 0"
| "status_rank OPEN = 1"
| "status_rank CLOSED = 2"

instantiation Status :: linorder
begin

definition less_eq_Status :: "Status \<Rightarrow> Status \<Rightarrow> bool" where
  "less_eq_Status a b \<longleftrightarrow> status_rank a \<le> status_rank b"

definition less_Status :: "Status \<Rightarrow> Status \<Rightarrow> bool" where
  "less_Status a b \<longleftrightarrow> status_rank a < status_rank b"

instance
proof
  fix a b :: Status
  show "a \<le> b \<Longrightarrow> b \<le> a \<Longrightarrow> a = b"
    by (cases a; cases b) (simp_all add: less_eq_Status_def)
qed (auto simp: less_eq_Status_def less_Status_def)

end

lemmas Status_order = less_eq_Status_def less_Status_def

section \<open>Options\<close>

text \<open>\<^verbatim>\<open>mrudp_coalesce_mode_t\<close>; an option field holds it as an \<^verbatim>\<open>int8_t\<close>, with \<^verbatim>\<open>-1\<close> for "not set".\<close>

definition MRUDP_COALESCE_NONE :: int where [simp]: "MRUDP_COALESCE_NONE = 0"
definition MRUDP_COALESCE_PACKET :: int where [simp]: "MRUDP_COALESCE_PACKET = 1"
definition MRUDP_COALESCE_STREAM :: int where [simp]: "MRUDP_COALESCE_STREAM = 2"
definition MRUDP_COALESCE_STREAM_COMPRESSED :: int where [simp]: "MRUDP_COALESCE_STREAM_COMPRESSED = 3"

record CoalesceOptions =
  co_mode :: int
  co_delay_ms :: int
  co_compression_level :: int

record ConnectionOptions =
  opt_coalesce_reliable :: CoalesceOptions
  opt_coalesce_unreliable :: CoalesceOptions
  opt_probe_delay_ms :: int
  opt_maximum_retry_attempts :: int

definition mrudp_default_connection_options :: ConnectionOptions where
  "mrudp_default_connection_options =
     \<lparr>opt_coalesce_reliable = \<lparr>co_mode = -1, co_delay_ms = -1, co_compression_level = -1\<rparr>,
      opt_coalesce_unreliable = \<lparr>co_mode = -1, co_delay_ms = -1, co_compression_level = -1\<rparr>,
      opt_probe_delay_ms = -1, opt_maximum_retry_attempts = -1\<rparr>"

definition merge :: "ConnectionOptions \<Rightarrow> ConnectionOptions \<Rightarrow> ConnectionOptions" where
  "merge lhs rhs =
     (let pick = (\<lambda>(x::int) y. if x = -1 then y else x);
          lr = opt_coalesce_reliable lhs; rr = opt_coalesce_reliable rhs;
          lu = opt_coalesce_unreliable lhs; ru = opt_coalesce_unreliable rhs
      in lhs\<lparr>opt_coalesce_reliable :=
               lr\<lparr>co_mode := pick (co_mode lr) (co_mode rr),
                  co_delay_ms := pick (co_delay_ms lr) (co_delay_ms rr)\<rparr>,
             opt_coalesce_unreliable :=
               lu\<lparr>co_mode := pick (co_mode lu) (co_mode ru),
                  co_delay_ms := pick (co_delay_ms lu) (co_delay_ms ru),
                  co_compression_level := pick (co_compression_level lu) (co_compression_level ru)\<rparr>,
             opt_probe_delay_ms := pick (opt_probe_delay_ms lhs) (opt_probe_delay_ms rhs),
             opt_maximum_retry_attempts :=
               pick (opt_maximum_retry_attempts lhs) (opt_maximum_retry_attempts rhs)\<rparr>)"

section \<open>Addresses and connection identifiers\<close>

text \<open>An address is compared byte by byte (\<^verbatim>\<open>memcmp\<close> over the 28 bytes of \<^verbatim>\<open>mrudp_addr_t\<close>).\<close>

type_synonym Address = bytes

definition address_size :: nat where [simp]: "address_size = 28"

definition AF_INET :: u16 where [simp]: "AF_INET = 2"
definition AF_INET6 :: u16 where [simp]: "AF_INET6 = 10"

definition empty_address :: Address where
  "empty_address = replicate address_size 0"

definition NullLongConnectionID :: LongConnectionID where
  "NullLongConnectionID = replicate 16 0"

text \<open>\<^verbatim>\<open>operator<<\<close>: two letters per byte, low half first.\<close>

definition print_nibble :: "nat \<Rightarrow> char" where
  "print_nibble n = char_of (of_char (CHR ''a'') + n)"

definition print_LongConnectionID :: "LongConnectionID \<Rightarrow> string" where
  "print_LongConnectionID v =
     concat (map (\<lambda>b. [print_nibble (unat (b AND 15)), print_nibble (unat (drop_bit 4 b AND 15))]) v)"

section \<open>Identifier generator\<close>

text \<open>\<^verbatim>\<open>IDGenerator<T>::nextID\<close>: the value before the (wrapping) increment, and the new state.\<close>

definition nextID :: "'a::len word \<Rightarrow> 'a word \<times> 'a word" where
  "nextID n = (n, n + 1)"

lemma nextID_simps [simp]: "fst (nextID n) = n" "snd (nextID n) = n + 1"
  by (simp_all add: nextID_def)

section \<open>Statistics\<close>

record SendReceive =
  sr_sent :: u32
  sr_received :: u32

record DataStatistics =
  ds_packets :: SendReceive
  ds_frames :: SendReceive
  ds_bytes :: SendReceive

record Statistics =
  st_packets_received :: u32
  st_packets_sent :: u32
  st_reliable :: DataStatistics
  st_unreliable :: DataStatistics
  st_acks_sent :: u32
  st_packets_resent :: u32

definition zero_sr :: SendReceive where "zero_sr = \<lparr>sr_sent = 0, sr_received = 0\<rparr>"
definition zero_ds :: DataStatistics where
  "zero_ds = \<lparr>ds_packets = zero_sr, ds_frames = zero_sr, ds_bytes = zero_sr\<rparr>"

definition new_Statistics :: Statistics where
  "new_Statistics = \<lparr>st_packets_received = 0, st_packets_sent = 0, st_reliable = zero_ds,
     st_unreliable = zero_ds, st_acks_sent = 0, st_packets_resent = 0\<rparr>"

definition sr_receive :: "u32 \<Rightarrow> SendReceive \<Rightarrow> SendReceive" where
  "sr_receive n s = s\<lparr>sr_received := sr_received s + n\<rparr>"
definition sr_send :: "u32 \<Rightarrow> SendReceive \<Rightarrow> SendReceive" where
  "sr_send n s = s\<lparr>sr_sent := sr_sent s + n\<rparr>"

definition stat_onReceive :: "Packet \<Rightarrow> Statistics \<Rightarrow> Statistics" where
  "stat_onReceive packet s0 =
     (let s1 = (if pk_type packet = DATA_RELIABLE
                then s0\<lparr>st_reliable := (st_reliable s0)\<lparr>ds_packets := sr_receive 1 (ds_packets (st_reliable s0))\<rparr>\<rparr>
                else s0);
          s2 = (if pk_type packet = DATA_UNRELIABLE
                then s1\<lparr>st_unreliable := (st_unreliable s1)\<lparr>ds_packets := sr_receive 1 (ds_packets (st_unreliable s1))\<rparr>\<rparr>
                else s1)
      in s2\<lparr>st_packets_received := st_packets_received s2 + 1\<rparr>)"

definition stat_onSend :: "Packet \<Rightarrow> Statistics \<Rightarrow> Statistics" where
  "stat_onSend packet s0 =
     (let s1 = (if pk_type packet = DATA_RELIABLE
                then s0\<lparr>st_reliable := (st_reliable s0)\<lparr>ds_packets := sr_send 1 (ds_packets (st_reliable s0))\<rparr>\<rparr>
                else s0);
          s2 = (if pk_type packet = DATA_UNRELIABLE
                then s1\<lparr>st_unreliable := (st_unreliable s1)\<lparr>ds_packets := sr_send 1 (ds_packets (st_unreliable s1))\<rparr>\<rparr>
                else s1)
      in s2\<lparr>st_packets_sent := st_packets_sent s2 + 1\<rparr>)"

definition ds_frame :: "(u32 \<Rightarrow> SendReceive \<Rightarrow> SendReceive) \<Rightarrow> nat \<Rightarrow> DataStatistics \<Rightarrow> DataStatistics" where
  "ds_frame add n d = d\<lparr>ds_frames := add 1 (ds_frames d), ds_bytes := add (of_nat n) (ds_bytes d)\<rparr>"

definition stat_onReceiveDataFrame :: "nat \<Rightarrow> Reliability \<Rightarrow> Statistics \<Rightarrow> Statistics" where
  "stat_onReceiveDataFrame n reliability s =
     (if reliability = RELIABLE
      then s\<lparr>st_reliable := ds_frame sr_receive n (st_reliable s)\<rparr>
      else s\<lparr>st_unreliable := ds_frame sr_receive n (st_unreliable s)\<rparr>)"

definition stat_onSendDataFrame :: "nat \<Rightarrow> Reliability \<Rightarrow> Statistics \<Rightarrow> Statistics" where
  "stat_onSendDataFrame n reliability s =
     (if reliability = RELIABLE
      then s\<lparr>st_reliable := ds_frame sr_send n (st_reliable s)\<rparr>
      else s\<lparr>st_unreliable := ds_frame sr_send n (st_unreliable s)\<rparr>)"

definition stat_onResend :: "Packet \<Rightarrow> Statistics \<Rightarrow> Statistics" where
  "stat_onResend packet s = s\<lparr>st_packets_resent := st_packets_resent s + 1\<rparr>"

section \<open>Properties\<close>

definition complete_options :: "ConnectionOptions \<Rightarrow> bool" where
  "complete_options opts \<longleftrightarrow>
     co_mode (opt_coalesce_reliable opts) \<noteq> -1 \<and> co_delay_ms (opt_coalesce_reliable opts) \<noteq> -1 \<and>
     co_compression_level (opt_coalesce_reliable opts) \<noteq> -1 \<and>
     co_mode (opt_coalesce_unreliable opts) \<noteq> -1 \<and> co_delay_ms (opt_coalesce_unreliable opts) \<noteq> -1 \<and>
     co_compression_level (opt_coalesce_unreliable opts) \<noteq> -1 \<and>
     opt_probe_delay_ms opts \<noteq> -1 \<and> opt_maximum_retry_attempts opts \<noteq> -1"

text \<open>Merging user options into the complete options of the service leaves no option unset,
  except when the user has not set the compression level of the reliable queue: that one is never
  filled in.\<close>

theorem merge_complete:
  assumes "complete_options rhs"
  shows "complete_options (merge lhs rhs) \<longleftrightarrow> co_compression_level (opt_coalesce_reliable lhs) \<noteq> -1"
  using assms by (simp add: complete_options_def merge_def Let_def)

theorem merge_complete_witness:
  "\<not> complete_options (merge mrudp_default_connection_options
      \<lparr>opt_coalesce_reliable = \<lparr>co_mode = 1, co_delay_ms = 5, co_compression_level = 9\<rparr>,
       opt_coalesce_unreliable = \<lparr>co_mode = 1, co_delay_ms = 5, co_compression_level = 9\<rparr>,
       opt_probe_delay_ms = 0, opt_maximum_retry_attempts = 10\<rparr>)"
  by (subst merge_complete) (simp_all add: complete_options_def mrudp_default_connection_options_def)

lemma nibbles_of_byte:
  "unat (b AND 15) = unat (b :: u8) mod 16" "unat (drop_bit 4 b AND 15) = unat b div 16"
proof -
  have lt: "unat b < 256" using unsigned_less [of b, where 'a = nat] by simp
  have m: "(15 :: u8) = mask 4" by (simp add: mask_eq_exp_minus_1)
  show "unat (b AND 15) = unat b mod 16"
    unfolding m by (simp flip: take_bit_eq_mask add: unsigned_take_bit_eq take_bit_eq_mod unat_mod)
  show "unat (drop_bit 4 b AND 15) = unat b div 16"
    unfolding m using lt
    by (simp flip: take_bit_eq_mask add: unsigned_take_bit_eq take_bit_eq_mod unat_mod unat_div
        drop_bit_eq_div)
qed

lemma print_nibble_inj:
  assumes "m < 16" and "n < 16"
  shows "print_nibble m = print_nibble n \<longleftrightarrow> m = n"
proof
  assume "print_nibble m = print_nibble n"
  then have "(of_char (print_nibble m) :: nat) = of_char (print_nibble n)" by simp
  with assms show "m = n" by (simp add: print_nibble_def)
qed simp

lemma print_byte_inj:
  assumes "print_nibble (unat (b AND 15)) = print_nibble (unat (c AND 15))"
    and "print_nibble (unat (drop_bit 4 b AND 15)) = print_nibble (unat (drop_bit 4 c AND 15))"
  shows "(b :: u8) = c"
proof -
  have lt: "unat x div 16 < 16" for x :: u8 using unsigned_less [of x, where 'a = nat] by auto
  from assms(1) have "unat b mod 16 = unat c mod 16"
    unfolding nibbles_of_byte(1) by (simp add: print_nibble_inj)
  moreover from assms(2) have "unat b div 16 = unat c div 16"
    unfolding nibbles_of_byte(2) using lt [of b] lt [of c] by (simp add: print_nibble_inj)
  ultimately have "unat b = unat c" by (metis div_mult_mod_eq)
  then show ?thesis by (simp add: word_unat_eq_iff)
qed

text \<open>The printed form of a connection identifier determines the identifier.\<close>

theorem print_LongConnectionID_inj:
  "print_LongConnectionID v = print_LongConnectionID w \<longleftrightarrow> v = w"
proof
  assume "print_LongConnectionID v = print_LongConnectionID w"
  then show "v = w"
  proof (induction v arbitrary: w)
    case Nil
    then show ?case by (cases w) (auto simp: print_LongConnectionID_def)
  next
    case (Cons b v)
    then show ?case by (cases w) (auto simp: print_LongConnectionID_def dest: print_byte_inj)
  qed
qed simp

end
