(* ===== verification/Scheduler.thy ===== *)
theory Scheduler
  imports Mr_Types
begin

text \<open>
  The timer queue shared by all connections of a service: \<^verbatim>\<open>mrudp/Scheduler.h\<close> and
  \<^verbatim>\<open>mrudp/Scheduler.cpp\<close>. A \<^verbatim>\<open>Timeout\<close> is a number; its node is in the queue (the multiset of
  the code, ordered by time, a new node after the nodes of equal time) or in its handle. The
  callbacks that \<^verbatim>\<open>process_\<close> runs outside the lock are a parameter: what a callback does to the
  scheduler is the list of operations it calls. The calls of \<^verbatim>\<open>imp->update\<close> are results.
\<close>

section \<open>State and operations\<close>

type_synonym timeout = nat

record Scheduler =
  sd_queue :: "(timepoint \<times> timeout) list"
  sd_last :: timepoint
  sd_allocated :: "timeout list"

definition timepoint_min :: timepoint where
  "timepoint_min = - (2 ^ 63)"

definition new_Scheduler :: Scheduler where
  "new_Scheduler = \<lparr>sd_queue = [], sd_last = timepoint_min, sd_allocated = []\<rparr>"

fun node_insert :: "timepoint \<Rightarrow> timeout \<Rightarrow> (timepoint \<times> timeout) list \<Rightarrow> (timepoint \<times> timeout) list" where
  "node_insert w t [] = [(w, t)]"
| "node_insert w t ((w', t') # q) = (if w < w' then (w, t) # (w', t') # q else (w', t') # node_insert w t q)"

definition node_extract :: "timeout \<Rightarrow> (timepoint \<times> timeout) list \<Rightarrow> (timepoint \<times> timeout) list" where
  "node_extract t q = filter (\<lambda>n. snd n \<noteq> t) q"

definition is_queued :: "timeout \<Rightarrow> Scheduler \<Rightarrow> bool" where
  "is_queued t s \<longleftrightarrow> t \<in> snd ` set (sd_queue s)"

definition is_first :: "timeout \<Rightarrow> (timepoint \<times> timeout) list \<Rightarrow> bool" where
  "is_first t q = (case q of [] \<Rightarrow> False | (w, t') # _ \<Rightarrow> t' = t)"

definition sd_allocate :: "timeout \<Rightarrow> Scheduler \<Rightarrow> Scheduler" where
  "sd_allocate t s = s\<lparr>sd_allocated := List.insert t (sd_allocated s)\<rparr>"

definition sd_free :: "timeout \<Rightarrow> Scheduler \<Rightarrow> Scheduler" where
  "sd_free t s = s\<lparr>sd_queue := node_extract t (sd_queue s), sd_allocated := removeAll t (sd_allocated s)\<rparr>"

text \<open>The time a timeout is put in the queue with: conversions truncate, the count is a \<^verbatim>\<open>uint64_t\<close>.\<close>

definition milliseconds_of :: "timepoint \<Rightarrow> int" where
  "milliseconds_of w = (if w < 0 then - ((- w) div 1000000) else w div 1000000)"

definition rounded_when :: "timepoint \<Rightarrow> timepoint \<Rightarrow> timepoint" where
  "rounded_when ls th =
     (let ensureRuns = (if th \<le> ls then 1 else 0);
          w = (if th \<le> ls then ls else th);
          milliseconds = word_of_int (milliseconds_of w + ensureRuns) :: u64;
          roundAmount = 10 - int (unat milliseconds) mod 10
      in w + millis roundAmount)"

definition schedule_at :: "timeout \<Rightarrow> timepoint \<Rightarrow> Scheduler \<Rightarrow> (bool \<times> timepoint) \<times> Scheduler" where
  "schedule_at t th s =
     (let wasFirst = is_first t (sd_queue s);
          w = rounded_when (sd_last s) th;
          q = node_insert w t (node_extract t (sd_queue s))
      in ((wasFirst \<or> is_first t q, fst (hd q)), s\<lparr>sd_queue := q\<rparr>))"

definition sd_schedule :: "timeout \<Rightarrow> timepoint \<Rightarrow> Scheduler \<Rightarrow> timepoint option \<times> Scheduler" where
  "sd_schedule t th s =
     (case schedule_at t th s of ((changed, next), s') \<Rightarrow> (if changed then Some next else None, s'))"

datatype sched_op = Allocate timeout | Free timeout | Schedule timeout timepoint

fun sd_op :: "sched_op \<Rightarrow> Scheduler \<Rightarrow> Scheduler" where
  "sd_op (Allocate t) s = sd_allocate t s"
| "sd_op (Free t) s = sd_free t s"
| "sd_op (Schedule t w) s = snd (sd_schedule t w s)"

definition sd_ops :: "sched_op list \<Rightarrow> Scheduler \<Rightarrow> Scheduler" where
  "sd_ops ops s = fold sd_op ops s"

text \<open>The number of nodes the loop of \<^verbatim>\<open>process_\<close> still has to run.\<close>

definition due :: "Scheduler \<Rightarrow> nat" where
  "due s = length (filter (\<lambda>n. fst n < sd_last s) (sd_queue s))"

section \<open>Scheduled times\<close>

lemma rounded_when_bounds:
  "max th ls < rounded_when ls th" "rounded_when ls th \<le> max th ls + millis 10"
proof -
  have b: "0 \<le> int (unat m) mod 10 \<and> int (unat m) mod 10 < 10" for m :: u64 by simp
  show "max th ls < rounded_when ls th" "rounded_when ls th \<le> max th ls + millis 10"
    using b [of "word_of_int (milliseconds_of ls + 1)"] b [of "word_of_int (milliseconds_of th)"]
    by (simp_all add: rounded_when_def Let_def millis_def max_def)
qed

lemma set_node_insert [simp]: "set (node_insert w t q) = insert (w, t) (set q)"
  by (induction w t q rule: node_insert.induct) auto

lemma sorted_node_insert: "sorted (map fst q) \<Longrightarrow> sorted (map fst (node_insert w t q))"
  by (induction w t q rule: node_insert.induct) auto

lemma distinct_node_insert:
  "distinct (map snd q) \<Longrightarrow> t \<notin> snd ` set q \<Longrightarrow> distinct (map snd (node_insert w t q))"
  by (induction w t q rule: node_insert.induct) (auto simp: image_iff)

lemma filter_node_insert:
  "\<not> P (w, t) \<Longrightarrow> filter P (node_insert w t q) = filter P q"
  by (induction w t q rule: node_insert.induct) auto

lemma not_in_extract [simp]: "t \<notin> snd ` set (node_extract t q)"
  by (auto simp: node_extract_def)

lemma length_filter_extract: "length (filter P (node_extract t q)) \<le> length (filter P q)"
  by (induction q) (auto simp: node_extract_def)

lemma sd_op_last [simp]: "sd_last (sd_op x s) = sd_last s"
  by (cases x) (simp_all add: sd_allocate_def sd_free_def sd_schedule_def schedule_at_def Let_def split: prod.splits)

lemma sd_op_due: "due (sd_op x s) \<le> due s"
proof (cases x)
  case (Schedule t w)
  have "\<not> rounded_when (sd_last s) w < sd_last s" using rounded_when_bounds(1) [of w "sd_last s"] by simp
  then show ?thesis using Schedule length_filter_extract
    by (simp add: due_def sd_schedule_def schedule_at_def Let_def filter_node_insert)
qed (simp_all add: due_def sd_allocate_def sd_free_def length_filter_extract)

lemma sd_ops_due: "due (sd_ops ops s) \<le> due s"
proof (induction ops arbitrary: s)
  case (Cons x ops)
  have "due (sd_ops ops (sd_op x s)) \<le> due (sd_op x s)" by (rule Cons.IH)
  also have "\<dots> \<le> due s" by (rule sd_op_due)
  finally show ?case by (simp add: sd_ops_def)
qed (simp add: sd_ops_def)

lemma sd_ops_last [simp]: "sd_last (sd_ops ops s) = sd_last s"
  by (induction ops arbitrary: s) (simp_all add: sd_ops_def)

text \<open>
  The loop of \<^verbatim>\<open>process_\<close>. Its \<^verbatim>\<open>now\<close> is the value \<^verbatim>\<open>last\<close> has just been set to, which no operation
  changes. \<open>cb t e\<close> are the operations the callback of \<open>t\<close> calls and the environment it leaves.
\<close>

function process_loop ::
  "(timeout \<Rightarrow> 'e \<Rightarrow> sched_op list \<times> 'e) \<Rightarrow> Scheduler \<Rightarrow> 'e \<Rightarrow> timeout list \<times> Scheduler \<times> 'e" where
  "process_loop cb s e =
     (case sd_queue s of
        [] \<Rightarrow> ([], s, e)
      | (w, t) # q \<Rightarrow>
          if w \<ge> sd_last s then ([], s, e)
          else (let r = process_loop cb (sd_ops (fst (cb t e)) (s\<lparr>sd_queue := q\<rparr>)) (snd (cb t e))
                in (t # fst r, snd r)))"
  by pat_completeness auto
termination
proof (relation "measure (\<lambda>(cb, s, e). due s)", goal_cases)
  case (2 cb s e x21 x22 w t)
  then have "due (s\<lparr>sd_queue := x22\<rparr>) < due s" by (auto simp: due_def)
  with sd_ops_due [of "fst (cb t e)" "s\<lparr>sd_queue := x22\<rparr>"] show ?case by simp
qed simp

declare process_loop.simps [simp del]

definition process_until :: "(timeout \<Rightarrow> 'e \<Rightarrow> sched_op list \<times> 'e) \<Rightarrow> timepoint \<Rightarrow> Scheduler \<Rightarrow> 'e \<Rightarrow>
    timepoint \<times> timeout list \<times> Scheduler \<times> 'e" where
  "process_until cb now s e =
     (let (fired, s1, e1) = process_loop cb (s\<lparr>sd_last := now\<rparr>) e
      in (case sd_queue s1 of [] \<Rightarrow> timepoint_min | (w, t) # _ \<Rightarrow> w, fired, s1, e1))"

text \<open>\<^verbatim>\<open>Scheduler::process\<close>: the time the implementation's timer is set to, if any.\<close>

definition process :: "(timeout \<Rightarrow> 'e \<Rightarrow> sched_op list \<times> 'e) \<Rightarrow> timepoint \<Rightarrow> Scheduler \<Rightarrow> 'e \<Rightarrow>
    timepoint option \<times> timeout list \<times> Scheduler \<times> 'e" where
  "process cb now s e =
     (let (next, r) = process_until cb now s e
      in (if next \<noteq> timepoint_min then Some next else None, r))"

section \<open>Invariant\<close>

definition sched_inv :: "Scheduler \<Rightarrow> bool" where
  "sched_inv s \<longleftrightarrow> sorted (map fst (sd_queue s)) \<and> distinct (map snd (sd_queue s))"

lemma sched_inv_new [wf_intros]: "sched_inv new_Scheduler"
  by (simp add: sched_inv_def new_Scheduler_def)

lemma sorted_extract: "sorted (map fst q) \<Longrightarrow> sorted (map fst (node_extract t q))"
  by (simp add: node_extract_def sorted_filter)

lemma distinct_extract: "distinct (map snd q) \<Longrightarrow> distinct (map snd (node_extract t q))"
  by (simp add: node_extract_def distinct_map_filter)

lemma sched_inv_op [wf_intros]: "sched_inv s \<Longrightarrow> sched_inv (sd_op x s)"
  by (cases x) (simp_all add: sched_inv_def sd_allocate_def sd_free_def sd_schedule_def schedule_at_def Let_def
      sorted_extract distinct_extract sorted_node_insert distinct_node_insert split: prod.splits)

lemma sched_inv_ops [wf_intros]: "sched_inv s \<Longrightarrow> sched_inv (sd_ops ops s)"
  by (induction ops arbitrary: s) (simp_all add: sd_ops_def sched_inv_op)

lemma process_loop_post:
  "sched_inv s \<Longrightarrow> process_loop cb s e = (fired, s', e') \<Longrightarrow>
   sched_inv s' \<and> sd_last s' = sd_last s \<and> (\<forall>n \<in> set (sd_queue s'). sd_last s \<le> fst n) \<and> length fired \<le> due s"
proof (induction cb s e arbitrary: fired rule: process_loop.induct)
  case (1 cb s e)
  show ?case
  proof (cases "sd_queue s")
    case Nil
    with "1.prems" show ?thesis by (subst (asm) process_loop.simps) simp
  next
    case (Cons n q)
    obtain w t where n: "n = (w, t)" by (cases n)
    show ?thesis
    proof (cases "sd_last s \<le> w")
      case True
      with "1.prems" Cons n have "fired = []" "s' = s" by (subst (asm) process_loop.simps, simp)+
      with True "1.prems"(1) Cons n show ?thesis by (auto simp: sched_inv_def)
    next
      case False
      let ?s = "sd_ops (fst (cb t e)) (s\<lparr>sd_queue := q\<rparr>)"
      obtain fs where f: "process_loop cb ?s (snd (cb t e)) = (fs, s', e')" "fired = t # fs"
        using "1.prems"(2) Cons n False
        by (subst (asm) process_loop.simps) (auto simp: Let_def prod_eq_iff)
      have inv: "sched_inv ?s" using "1.prems"(1) Cons by (intro sched_inv_ops) (simp add: sched_inv_def)
      have "due ?s < due s" using sd_ops_due [of "fst (cb t e)" "s\<lparr>sd_queue := q\<rparr>"] False Cons n
        by (simp add: due_def)
      with "1.IH" [OF Cons n [symmetric] False inv f(1)] f(2) show ?thesis by simp
    qed
  qed
qed

text \<open>Callbacks that schedule nothing but their own timeout.\<close>

definition own_ops :: "timeout \<Rightarrow> sched_op list \<Rightarrow> bool" where
  "own_ops t ops \<longleftrightarrow> (\<forall>x \<in> set ops. \<exists>w. x = Schedule t w)"

definition due_nodes :: "Scheduler \<Rightarrow> (timepoint \<times> timeout) list" where
  "due_nodes s = filter (\<lambda>n. fst n < sd_last s) (sd_queue s)"

definition not_due :: "timeout \<Rightarrow> Scheduler \<Rightarrow> bool" where
  "not_due t s \<longleftrightarrow> (\<forall>n \<in> set (sd_queue s). snd n = t \<longrightarrow> sd_last s \<le> fst n)"

lemma own_op:
  assumes "not_due t s"
  shows "not_due t (sd_op (Schedule t w) s)" and "due_nodes (sd_op (Schedule t w) s) = due_nodes s"
proof -
  have r: "sd_last s < rounded_when (sd_last s) w" using rounded_when_bounds(1) [of w "sd_last s"] by simp
  have q: "sd_queue (sd_op (Schedule t w) s)
      = node_insert (rounded_when (sd_last s) w) t (node_extract t (sd_queue s))"
    by (simp add: sd_schedule_def schedule_at_def Let_def)
  show "not_due t (sd_op (Schedule t w) s)"
    using assms r unfolding not_due_def q sd_op_last by (auto simp: node_extract_def)
  have "filter (\<lambda>n. fst n < sd_last s) (node_extract t (sd_queue s)) = filter (\<lambda>n. fst n < sd_last s) (sd_queue s)"
    using assms unfolding node_extract_def filter_filter by (intro filter_cong) (auto simp: not_due_def)
  then show "due_nodes (sd_op (Schedule t w) s) = due_nodes s"
    using r unfolding due_nodes_def q sd_op_last by (simp add: filter_node_insert)
qed

lemma own_ops_due_nodes: "own_ops t ops \<Longrightarrow> not_due t s \<Longrightarrow> due_nodes (sd_ops ops s) = due_nodes s"
proof (induction ops arbitrary: s)
  case (Cons x ops)
  then obtain w where "x = Schedule t w" by (auto simp: own_ops_def)
  with Cons own_op [of t s w] show ?case by (simp add: sd_ops_def own_ops_def)
qed (simp add: sd_ops_def)

lemma process_loop_fires:
  "sched_inv s \<Longrightarrow> \<forall>t e. own_ops t (fst (cb t e)) \<Longrightarrow> fst (process_loop cb s e) = map snd (due_nodes s)"
proof (induction cb s e rule: process_loop.induct)
  case (1 cb s e)
  show ?case
  proof (cases "sd_queue s")
    case Nil
    then show ?thesis by (subst process_loop.simps) (simp add: due_nodes_def)
  next
    case (Cons n q)
    obtain w t where n: "n = (w, t)" by (cases n)
    show ?thesis
    proof (cases "sd_last s \<le> w")
      case True
      with "1.prems"(1) Cons n have "due_nodes s = []" by (auto simp: sched_inv_def due_nodes_def filter_empty_conv)
      with True Cons n show ?thesis by (subst process_loop.simps) simp
    next
      case False
      let ?s = "sd_ops (fst (cb t e)) (s\<lparr>sd_queue := q\<rparr>)"
      have inv: "sched_inv ?s" using "1.prems"(1) Cons by (intro sched_inv_ops) (simp add: sched_inv_def)
      have "not_due t (s\<lparr>sd_queue := q\<rparr>)" using "1.prems"(1) Cons n by (force simp: sched_inv_def not_due_def)
      then have "due_nodes ?s = due_nodes (s\<lparr>sd_queue := q\<rparr>)" using "1.prems"(2) by (intro own_ops_due_nodes) blast
      moreover have "due_nodes s = (w, t) # due_nodes (s\<lparr>sd_queue := q\<rparr>)" using False Cons n by (simp add: due_nodes_def)
      ultimately show ?thesis using "1.IH" [OF Cons n [symmetric] False inv "1.prems"(2)] False Cons n
        by (subst process_loop.simps) (simp add: Let_def)
    qed
  qed
qed

section \<open>Properties\<close>

text \<open>
  Scheduling a timeout puts exactly one node for it in the queue, at a time later than the requested
  time and than the last processed time by at most 10 ms, and leaves the nodes of the other
  timeouts alone.
\<close>

theorem schedule_within_10ms:
  "\<exists>w. {n \<in> set (sd_queue (snd (sd_schedule t th s))). snd n = t} = {(w, t)}
     \<and> max th (sd_last s) < w \<and> w \<le> max th (sd_last s) + millis 10
     \<and> {n \<in> set (sd_queue (snd (sd_schedule t th s))). snd n \<noteq> t} = {n \<in> set (sd_queue s). snd n \<noteq> t}"
  using rounded_when_bounds(1) [of th "sd_last s"] rounded_when_bounds(2) [where th = th and ls = "sd_last s"]
  by (intro exI [of _ "rounded_when (sd_last s) th"])
    (auto simp: sd_schedule_def schedule_at_def Let_def node_extract_def)

text \<open>
  Processing the queue at a time ends whatever the callbacks schedule, runs at most as many callbacks
  as nodes were due, keeps the queue ordered with one node per timeout, and leaves no due node behind.
\<close>

theorem process_leaves_nothing_due:
  assumes "sched_inv s" and "process_until cb now s e = (next, fired, s', e')"
  shows "sched_inv s' \<and> (\<forall>n \<in> set (sd_queue s'). now \<le> fst n)
    \<and> length fired \<le> length (filter (\<lambda>n. fst n < now) (sd_queue s))
    \<and> next = (case sd_queue s' of [] \<Rightarrow> timepoint_min | (w, t) # _ \<Rightarrow> w)"
proof -
  obtain f1 s1 e1 where l: "process_loop cb (s\<lparr>sd_last := now\<rparr>) e = (f1, s1, e1)"
    by (cases "process_loop cb (s\<lparr>sd_last := now\<rparr>) e")
  have "sched_inv (s\<lparr>sd_last := now\<rparr>)" using assms(1) by (simp add: sched_inv_def)
  from process_loop_post [OF this l] assms(2) l show ?thesis
    by (auto simp: process_until_def due_def)
qed

definition example_cb :: "timeout \<Rightarrow> unit \<Rightarrow> sched_op list \<times> unit" where
  "example_cb t e = ([Schedule t 0], ())"

definition example_scheduler :: Scheduler where
  "example_scheduler = sd_ops [Schedule 1 5000000, Schedule 2 1000000, Schedule 3 90000000] new_Scheduler"

lemma example_scheduler_inv: "sched_inv example_scheduler"
  unfolding example_scheduler_def by (intro sched_inv_ops sched_inv_new)

theorem process_leaves_nothing_due_witness:
  "filter (\<lambda>n. fst n < 50000000)
     (sd_queue (fst (snd (snd (process_until example_cb 50000000 example_scheduler ()))))) = []"
  using process_leaves_nothing_due [OF example_scheduler_inv, of example_cb 50000000 "()"]
  by (cases "process_until example_cb 50000000 example_scheduler ()") (auto simp: filter_empty_conv not_less)

text \<open>
  C31: When callbacks reschedule only their own timeout, the callbacks run are those of the nodes due at the
  start, each once and in the order of their times: rescheduling from a callback neither
  starves nor repeats another timeout.
\<close>

theorem process_fires_due_in_order:
  assumes "sched_inv s" and "\<forall>t e. own_ops t (fst (cb t e))"
  shows "fst (snd (process_until cb now s e)) = map snd (filter (\<lambda>n. fst n < now) (sd_queue s))"
proof -
  have "sched_inv (s\<lparr>sd_last := now\<rparr>)" using assms(1) by (simp add: sched_inv_def)
  from process_loop_fires [OF this assms(2), of e] show ?thesis
    by (auto simp: process_until_def due_nodes_def split: prod.splits)
qed

theorem process_fires_due_in_order_witness:
  "fst (snd (process_until example_cb 50000000 example_scheduler ())) = [1, 2]"
proof -
  have "\<forall>t e. own_ops t (fst (example_cb t e))" by (simp add: own_ops_def example_cb_def)
  note * = process_fires_due_in_order [OF example_scheduler_inv this, of 50000000 "()"]
  have "map snd (filter (\<lambda>n. fst n < 50000000) (sd_queue example_scheduler)) = [1, 2]" by code_simp
  with * show ?thesis by simp
qed

end
