(* ===== verification/Receive_Queue.thy ===== *)
theory Receive_Queue
  imports Packet
begin

text \<open>
  The receiving side of frame ordering: \<^verbatim>\<open>mrudp/receiver/ReceiveQueue.h\<close>,
  \<^verbatim>\<open>mrudp/receiver/ReceiveQueue.cpp\<close> and \<^verbatim>\<open>mrudp/receiver/UnreliableReceiveQueue.cpp\<close>.

  The callback \<^verbatim>\<open>processor\<close> neither reads nor writes the queue it is called from, so an operation
  returns the list of frames it hands to the callback, in the order of the calls.
\<close>

section \<open>The queue\<close>

record ReceiveQueue =
  rq_expectedID :: FrameID
  rq_queue :: "(FrameID, Frame) om"

definition new_ReceiveQueue :: ReceiveQueue where
  "new_ReceiveQueue = \<lparr>rq_expectedID = 0, rq_queue = []\<rparr>"

definition processNext :: "ReceiveQueue \<Rightarrow> (Frame \<times> ReceiveQueue) option" where
  "processNext q =
     (case om_find (rq_queue q) (rq_expectedID q) of
        None \<Rightarrow> None
      | Some frame \<Rightarrow>
          Some (frame, q\<lparr>rq_queue := om_erase (rq_expectedID q) (rq_queue q),
                         rq_expectedID := rq_expectedID q + 1\<rparr>))"

lemma length_om_erase: "om_find m k = Some v \<Longrightarrow> Suc (length (om_erase k m)) = length m"
  unfolding om_find_def by (induction k m rule: om_erase.induct) (auto split: if_splits)

lemma processNext_shrinks:
  "processNext q = Some (f, q') \<Longrightarrow> length (rq_queue q') < length (rq_queue q)"
  by (auto simp: processNext_def dest: length_om_erase split: option.splits)

function processQueue :: "ReceiveQueue \<Rightarrow> Frame list \<times> ReceiveQueue" where
  "processQueue q =
     (case processNext q of
        None \<Rightarrow> ([], q)
      | Some (frame, q1) \<Rightarrow> (let (fs, q2) = processQueue q1 in (frame # fs, q2)))"
  by pat_completeness auto
termination
  by (relation "measure (\<lambda>q. length (rq_queue q))") (auto dest: processNext_shrinks)

declare processQueue.simps [simp del]

definition enqueue_frame :: "ReceiveQueue \<Rightarrow> Frame \<Rightarrow> ReceiveQueue" where
  "enqueue_frame q frame = q\<lparr>rq_queue := om_emplace (f_id frame) frame (rq_queue q)\<rparr>"

text \<open>The body of the loop of \<^verbatim>\<open>ReceiveQueue::onReceive\<close>, for one frame.\<close>

definition receive_frame :: "ReceiveQueue \<Rightarrow> Frame \<Rightarrow> Frame list \<times> ReceiveQueue" where
  "receive_frame q frame =
     (if f_id frame = rq_expectedID q
      then let (fs, q1) = processQueue (q\<lparr>rq_expectedID := rq_expectedID q + 1\<rparr>) in (frame # fs, q1)
      else if id_greater_than (f_id frame) (rq_expectedID q)
      then ([], enqueue_frame q frame)
      else ([], q))"

text \<open>
  The loop head with its two size checks: the frame at the front of the remaining bytes and what
  follows it, or \<open>None\<close> where the loop ends.
\<close>

definition next_frame :: "bytes \<Rightarrow> (Frame \<times> bytes) option" where
  "next_frame bs =
     (if bs = [] then None
      else if length bs < MAX_FRAME_HEADER_SIZE then None
      else let h = dec_frame_header bs; n = unat (fh_dataSize h)
           in if length bs < MAX_FRAME_HEADER_SIZE + n then None
              else Some (\<lparr>f_id = fh_id h, f_type = fh_type h, f_data = take n (drop 5 bs)\<rparr>,
                         drop (5 + n) bs))"

lemma next_frame_shrinks: "next_frame bs = Some (f, rest) \<Longrightarrow> length rest < length bs"
  by (auto simp: next_frame_def Let_def split: if_splits)

function rq_onReceive_loop :: "ReceiveQueue \<Rightarrow> bytes \<Rightarrow> Frame list \<times> ReceiveQueue" where
  "rq_onReceive_loop q bs =
     (case next_frame bs of
        None \<Rightarrow> ([], q)
      | Some (frame, rest) \<Rightarrow>
          (let (fs1, q1) = receive_frame q frame; (fs2, q2) = rq_onReceive_loop q1 rest
           in (fs1 @ fs2, q2)))"
  by pat_completeness auto
termination
  by (relation "measure (\<lambda>(q, bs). length bs)") (auto dest: next_frame_shrinks)

declare rq_onReceive_loop.simps [simp del]

definition rq_onReceive :: "ReceiveQueue \<Rightarrow> Packet \<Rightarrow> Frame list \<times> ReceiveQueue" where
  "rq_onReceive q packet = rq_onReceive_loop q (pk_data packet)"

section \<open>The unreliable queue\<close>

text \<open>
  \<^verbatim>\<open>UnreliableReceiveQueue::onReceive\<close> walks the payload without the size checks. The second
  component of the result is \<open>True\<close> when the walk reads a header or hands out frame bytes that lie
  beyond the filled part of the payload; the model stops there.
\<close>

function urq_onReceive_loop :: "bytes \<Rightarrow> Frame list \<times> bool" where
  "urq_onReceive_loop bs =
     (if bs = [] then ([], False)
      else if length bs < MAX_FRAME_HEADER_SIZE then ([], True)
      else let h = dec_frame_header bs; n = unat (fh_dataSize h)
           in if length bs < MAX_FRAME_HEADER_SIZE + n then ([], True)
              else let (fs, over) = urq_onReceive_loop (drop (5 + n) bs)
                   in (\<lparr>f_id = fh_id h, f_type = fh_type h, f_data = take n (drop 5 bs)\<rparr> # fs, over))"
  by pat_completeness auto
termination
  by (relation "measure length") auto

declare urq_onReceive_loop.simps [simp del]

definition urq_onReceive :: "Packet \<Rightarrow> Frame list \<times> bool" where
  "urq_onReceive packet = urq_onReceive_loop (pk_data packet)"

section \<open>Walking well-formed payloads\<close>

lemma next_frame_enc:
  assumes "length (f_data f) < 2 ^ 16"
  shows "next_frame (enc_frame f @ rest) = Some (f, rest)"
proof -
  have "unat (of_nat (length (f_data f)) :: u16) = length (f_data f)"
    using assms by (simp add: unat_of_nat)
  moreover have "enc_frame f \<noteq> []" by (simp flip: length_greater_0_conv)
  ultimately show ?thesis
    by (simp add: next_frame_def Let_def) (simp add: enc_frame_def frame_header_def)
qed

fun receive_frames :: "ReceiveQueue \<Rightarrow> Frame list \<Rightarrow> Frame list \<times> ReceiveQueue" where
  "receive_frames q [] = ([], q)"
| "receive_frames q (f # fs) =
     (let (d1, q1) = receive_frame q f; (d2, q2) = receive_frames q1 fs in (d1 @ d2, q2))"

lemma receive_frames_append:
  "receive_frames q (xs @ ys) =
     (let (d1, q1) = receive_frames q xs; (d2, q2) = receive_frames q1 ys in (d1 @ d2, q2))"
  by (induction xs arbitrary: q) (auto split: prod.splits)

definition small_frame :: "Frame \<Rightarrow> bool" where
  "small_frame f \<longleftrightarrow> length (f_data f) < 2 ^ 16"

lemma rq_onReceive_loop_tail:
  "\<forall>f \<in> set fs. small_frame f \<Longrightarrow> next_frame tail = None \<Longrightarrow>
     rq_onReceive_loop q (concat (map enc_frame fs) @ tail) = receive_frames q fs"
proof (induction fs arbitrary: q)
  case Nil
  then show ?case by (simp add: rq_onReceive_loop.simps)
next
  case (Cons f fs)
  then show ?case
    by (subst rq_onReceive_loop.simps) (auto simp: next_frame_enc small_frame_def split: prod.splits)
qed

lemma urq_onReceive_loop_tail:
  "\<forall>f \<in> set fs. small_frame f \<Longrightarrow> next_frame tail = None \<Longrightarrow>
     urq_onReceive_loop (concat (map enc_frame fs) @ tail) = (fs, tail \<noteq> [])"
proof (induction fs)
  case Nil
  then show ?case
    by (subst urq_onReceive_loop.simps) (auto simp: next_frame_def Let_def split: if_splits)
next
  case (Cons f fs)
  have "unat (of_nat (length (f_data f)) :: u16) = length (f_data f)"
    using Cons.prems by (simp add: unat_of_nat small_frame_def)
  moreover have "enc_frame f \<noteq> []" by (simp flip: length_greater_0_conv)
  ultimately show ?case using Cons
    by (subst urq_onReceive_loop.simps) (simp add: Let_def, simp add: enc_frame_def frame_header_def)
qed

lemma next_frame_Nil [simp]: "next_frame [] = None"
  by (simp add: next_frame_def)

lemmas rq_onReceive_loop_enc = rq_onReceive_loop_tail [where tail = "[]", simplified]
lemmas urq_onReceive_loop_enc = urq_onReceive_loop_tail [where tail = "[]", simplified]

section \<open>Specification: in-order delivery of a numbered stream\<close>

text \<open>
  The sender numbers its frames 0, 1, 2, \<dots>; frame \<open>n\<close> of the stream \<open>S\<close> carries the identifier
  \<open>n\<close> modulo \<open>2\<^sup>1\<^sup>6\<close>. When the frames with the numbers \<open>ns\<close> have arrived (in this order, possibly
  repeated), an ideal receiver has handed out exactly the frames below the first missing number.
\<close>

definition mex :: "nat list \<Rightarrow> nat" where
  "mex ns = hd (filter (\<lambda>n. n \<notin> set ns) [0..<Suc (length ns)])"

definition numbered :: "(nat \<Rightarrow> Frame) \<Rightarrow> bool" where
  "numbered S \<longleftrightarrow> (\<forall>n. f_id (S n) = of_nat n)"

text \<open>Every arrival is less than half the identifier range away from the first missing number.\<close>

definition in_window :: "nat \<Rightarrow> nat \<Rightarrow> bool" where
  "in_window e n \<longleftrightarrow> n < e + 2 ^ 15 \<and> e < n + 2 ^ 15"

fun window_ok :: "nat list \<Rightarrow> nat list \<Rightarrow> bool" where
  "window_ok seen [] = True"
| "window_ok seen (n # ns) = (in_window (mex seen) n \<and> window_ok (seen @ [n]) ns)"

lemma mex_hd: "filter (\<lambda>n. n \<notin> set ns) [0..<Suc (length ns)] \<noteq> []"
proof -
  have "\<not> {0..<Suc (length ns)} \<subseteq> set ns"
  proof
    assume "{0..<Suc (length ns)} \<subseteq> set ns"
    then have "card {0..<Suc (length ns)} \<le> card (set ns)" by (rule card_mono [rotated]) simp
    then show False using card_length [of ns] by simp
  qed
  then obtain n where "n < Suc (length ns)" "n \<notin> set ns" by (meson atLeastLessThan_iff subsetI)
  then have "n \<in> set (filter (\<lambda>n. n \<notin> set ns) [0..<Suc (length ns)])"
    by (simp only: set_filter set_upt mem_Collect_eq atLeastLessThan_iff) simp
  then show ?thesis by (metis list.set(1) empty_iff)
qed

lemma sorted_filter_hd:
  "sorted xs \<Longrightarrow> filter P xs \<noteq> [] \<Longrightarrow> x \<in> set xs \<Longrightarrow> P x \<Longrightarrow> hd (filter P xs) \<le> x"
  by (induction xs) (auto split: if_splits)

lemma mex_mem: "mex ns < Suc (length ns) \<and> mex ns \<notin> set ns"
  using hd_in_set [OF mex_hd [of ns]] unfolding mex_def [symmetric]
  by (simp only: set_filter set_upt mem_Collect_eq) simp

lemma mex_notin: "mex ns \<notin> set ns"
  using mex_mem by blast

lemma mex_below: "k < mex ns \<Longrightarrow> k \<in> set ns"
proof (rule ccontr)
  assume k: "k < mex ns" and "k \<notin> set ns"
  with mex_mem [of ns] k \<open>k \<notin> set ns\<close> have "mex ns \<le> k"
    unfolding mex_def by (intro sorted_filter_hd [OF sorted_upt mex_hd]) auto
  with k show False by simp
qed

lemma mex_unique: "e \<notin> set ns \<Longrightarrow> (\<forall>k<e. k \<in> set ns) \<Longrightarrow> mex ns = e"
  using mex_notin [of ns] mex_below [of e ns] by (metis linorder_neqE_nat)

lemma mex_mono: "set ns \<subseteq> set ms \<Longrightarrow> mex ns \<le> mex ms"
  using mex_notin [of ms] mex_below [of "mex ms" ns] by (metis in_mono leI)

text \<open>
  The queue of a receiver whose first missing number is \<open>e\<close>: the frames of \<open>R\<close> from \<open>e\<close> on, under
  their identifiers, and nothing else.
\<close>

definition queue_holds :: "(nat \<Rightarrow> Frame) \<Rightarrow> nat set \<Rightarrow> nat \<Rightarrow> (FrameID, Frame) om \<Rightarrow> bool" where
  "queue_holds S R e m \<longleftrightarrow> om_inv m \<and>
     (\<forall>n. e \<le> n \<and> n < e + 2 ^ 16 \<longrightarrow> om_find m (of_nat n) = (if n \<in> R then Some (S n) else None))"

definition rq_state :: "(nat \<Rightarrow> Frame) \<Rightarrow> nat set \<Rightarrow> nat \<Rightarrow> ReceiveQueue \<Rightarrow> bool" where
  "rq_state S R e q \<longleftrightarrow> rq_expectedID q = of_nat e \<and> queue_holds S R e (rq_queue q) \<and>
     (\<forall>n \<in> R. n < e + 2 ^ 16)"

lemma of_nat_u16_eq: "(of_nat m :: u16) = of_nat n \<longleftrightarrow> m mod 2 ^ 16 = n mod 2 ^ 16"
  by (simp add: word_unat_eq_iff unat_of_nat)

lemma of_nat_u16_inj:
  "e \<le> m \<Longrightarrow> m < e + 2 ^ 16 \<Longrightarrow> e \<le> n \<Longrightarrow> n < e + 2 ^ 16 \<Longrightarrow> (of_nat m :: u16) = of_nat n \<longleftrightarrow> m = n"
proof -
  assume a: "e \<le> m" "m < e + 2 ^ 16" "e \<le> n" "n < e + 2 ^ 16"
  have "(of_nat m :: u16) = of_nat n \<longleftrightarrow> m mod 2 ^ 16 = n mod 2 ^ 16"
    by (rule of_nat_u16_eq)
  also have "\<dots> \<longleftrightarrow> m = n"
  proof
    assume h: "m mod 2 ^ 16 = n mod 2 ^ 16"
    show "m = n"
    proof (cases "m \<le> n")
      case True
      with h have "2 ^ 16 dvd n - m" by (metis mod_eq_dvd_iff_nat)
      moreover have "n - m < 2 ^ 16" using a by simp
      ultimately show ?thesis using True by (metis dvd_imp_le diff_is_0_eq le_antisym not_le zero_less_diff)
    next
      case False
      with h have "2 ^ 16 dvd m - n" by (metis mod_eq_dvd_iff_nat nat_le_linear)
      moreover have "m - n < 2 ^ 16" using a by simp
      ultimately show ?thesis using False by (metis dvd_imp_le not_le zero_less_diff)
    qed
  qed simp
  finally show ?thesis .
qed

lemma queue_holds_erase:
  assumes "queue_holds S R e m" and "\<forall>n \<in> R. n < e + 2 ^ 16"
  shows "queue_holds S R (Suc e) (om_erase (of_nat e) m)"
proof -
  have inv: "om_inv m" using assms(1) by (simp add: queue_holds_def)
  have "om_find (om_erase (of_nat e) m) (of_nat n) = (if n \<in> R then Some (S n) else None)"
    if n: "Suc e \<le> n" "n < Suc e + 2 ^ 16" for n
  proof (cases "n = e + 2 ^ 16")
    case True
    then have "(of_nat n :: u16) = of_nat e" by (simp only: of_nat_u16_eq mod_add_self2)
    moreover have "n \<notin> R" using assms(2) True by auto
    ultimately show ?thesis by (simp add: om.find_erase [OF inv])
  next
    case False
    with n have "(of_nat n :: u16) \<noteq> of_nat e" by (subst of_nat_u16_inj [of e]) auto
    with n False assms(1) show ?thesis by (simp add: om.find_erase [OF inv] queue_holds_def)
  qed
  with inv show ?thesis by (simp add: queue_holds_def om.invar_erase)
qed

lemma queue_holds_skip:
  assumes "queue_holds S R e m" and "\<forall>n \<in> R. n < e + 2 ^ 16" and "e \<notin> R"
  shows "queue_holds S (insert e R) (Suc e) m"
proof -
  have "om_find m (of_nat n) = (if n \<in> insert e R then Some (S n) else None)"
    if n: "Suc e \<le> n" "n < Suc e + 2 ^ 16" for n
  proof (cases "n = e + 2 ^ 16")
    case True
    then have "(of_nat n :: u16) = of_nat e" by (simp only: of_nat_u16_eq mod_add_self2)
    moreover have "n \<notin> insert e R" using assms(2) True by auto
    ultimately show ?thesis using assms(1,3) by (simp add: queue_holds_def)
  next
    case False
    with n assms(1) show ?thesis by (simp add: queue_holds_def)
  qed
  with assms(1) show ?thesis by (simp add: queue_holds_def)
qed

lemma queue_holds_emplace:
  assumes "queue_holds S R e m" and "numbered S" and "e \<le> n" and "n < e + 2 ^ 16"
  shows "queue_holds S (insert n R) e (om_emplace (f_id (S n)) (S n) m)"
proof -
  have inv: "om_inv m" using assms(1) by (simp add: queue_holds_def)
  have "om_find (om_emplace (f_id (S n)) (S n) m) (of_nat k) = (if k \<in> insert n R then Some (S k) else None)"
    if k: "e \<le> k" "k < e + 2 ^ 16" for k
    using assms k of_nat_u16_inj [OF k assms(3,4)]
    by (auto simp: om.find_emplace [OF inv] numbered_def queue_holds_def split: option.splits)
  with inv show ?thesis by (simp add: queue_holds_def om.invar_emplace)
qed

lemma processQueue_holds:
  assumes "rq_state S R e q"
  shows "\<exists>e' \<ge> e. fst (processQueue q) = map S [e..<e'] \<and> {e..<e'} \<subseteq> R \<and> e' \<notin> R
     \<and> rq_state S R e' (snd (processQueue q))"
  using assms
proof (induction q arbitrary: e rule: processQueue.induct)
  case (1 q)
  from "1.prems" have ex: "rq_expectedID q = of_nat e" and qh: "queue_holds S R e (rq_queue q)"
    and R: "\<forall>n \<in> R. n < e + 2 ^ 16"
    by (auto simp: rq_state_def)
  from qh have find: "om_find (rq_queue q) (of_nat e) = (if e \<in> R then Some (S e) else None)"
    by (simp add: queue_holds_def)
  show ?case
  proof (cases "e \<in> R")
    case False
    with find ex have "processQueue q = ([], q)"
      by (subst processQueue.simps) (simp add: processNext_def)
    with False "1.prems" show ?thesis by (intro exI [of _ e]) simp
  next
    case True
    let ?q = "q\<lparr>rq_queue := om_erase (of_nat e) (rq_queue q), rq_expectedID := of_nat (Suc e)\<rparr>"
    from True find ex have next1: "processNext q = Some (S e, ?q)"
      by (simp add: processNext_def add.commute)
    have st: "rq_state S R (Suc e) ?q"
      using queue_holds_erase [OF qh R] R by (fastforce simp: rq_state_def)
    from "1.IH" [OF next1 refl st] obtain e' where e': "e' \<ge> Suc e"
      "fst (processQueue ?q) = map S [Suc e..<e']" "{Suc e..<e'} \<subseteq> R" "e' \<notin> R"
      "rq_state S R e' (snd (processQueue ?q))" by blast
    have pq: "processQueue q = (S e # fst (processQueue ?q), snd (processQueue ?q))"
      by (subst processQueue.simps) (simp add: next1 split: prod.splits)
    have "{e..<e'} = insert e {Suc e..<e'}" and "[e..<e'] = e # [Suc e..<e']"
      using e'(1) by (auto simp: upt_conv_Cons)
    with e' True show ?thesis by (intro exI [of _ e']) (simp add: pq)
  qed
qed

lemma receive_frame_step:
  assumes st: "rq_state S (set seen) (mex seen) q" and S: "numbered S"
    and w: "in_window (mex seen) n"
  shows "fst (receive_frame q (S n)) = map S [mex seen..<mex (seen @ [n])]
     \<and> rq_state S (set (seen @ [n])) (mex (seen @ [n])) (snd (receive_frame q (S n)))"
proof -
  let ?e = "mex seen"
  from st have ex: "rq_expectedID q = of_nat ?e" and qh: "queue_holds S (set seen) ?e (rq_queue q)"
    and R: "\<forall>n \<in> set seen. n < ?e + 2 ^ 16" by (auto simp: rq_state_def)
  have id: "f_id (S n) = of_nat n" using S by (simp add: numbered_def)
  have gt: "id_greater_than (of_nat n :: u16) (of_nat ?e) \<longleftrightarrow> n > ?e"
    using w by (intro id_gt_serial) (auto simp: in_window_def)
  have eq: "(of_nat n :: u16) = of_nat ?e \<longleftrightarrow> n = ?e"
    using w by (intro of_nat_u16_inj [of "min n ?e"]) (auto simp: in_window_def)
  consider (eq) "n = ?e" | (gt) "n > ?e" | (lt) "n < ?e" by linarith
  then show ?thesis
  proof cases
    case eq
    let ?q = "q\<lparr>rq_expectedID := of_nat (Suc ?e)\<rparr>" and ?R = "set (seen @ [n])"
    have "queue_holds S ?R (Suc ?e) (rq_queue q)"
      using queue_holds_skip [OF qh R mex_notin] eq by simp
    then have "rq_state S ?R (Suc ?e) ?q" using R eq by (fastforce simp: rq_state_def)
    from processQueue_holds [OF this] obtain e' where e': "e' \<ge> Suc ?e"
      "fst (processQueue ?q) = map S [Suc ?e..<e']" "{Suc ?e..<e'} \<subseteq> ?R" "e' \<notin> ?R"
      "rq_state S ?R e' (snd (processQueue ?q))" by blast
    have below: "k \<in> ?R" if k: "k < e'" for k
    proof -
      consider "k < ?e" | "k = ?e" | "k \<in> {Suc ?e..<e'}" using k by fastforce
      then show ?thesis
      proof cases
        case 1
        then show ?thesis using mex_below by simp
      next
        case 2
        then show ?thesis using eq by simp
      next
        case 3
        then show ?thesis using e'(3) by blast
      qed
    qed
    with e'(4) have "mex (seen @ [n]) = e'" by (intro mex_unique) blast+
    moreover have "receive_frame q (S n) = (S ?e # fst (processQueue ?q), snd (processQueue ?q))"
      using eq id ex by (simp add: receive_frame_def add.commute case_prod_beta)
    moreover have "[?e..<e'] = ?e # [Suc ?e..<e']" using e'(1) by (simp add: upt_conv_Cons)
    ultimately show ?thesis using e' by simp
  next
    case gt
    then have m: "mex (seen @ [n]) = ?e"
      using mex_notin [of seen] mex_below [of _ seen] by (intro mex_unique) auto
    have "receive_frame q (S n) = ([], enqueue_frame q (S n))"
      using gt id ex \<open>id_greater_than _ _ \<longleftrightarrow> _\<close> eq by (simp add: receive_frame_def)
    moreover have "queue_holds S (insert n (set seen)) ?e (om_emplace (f_id (S n)) (S n) (rq_queue q))"
      using w gt by (intro queue_holds_emplace [OF qh S]) (auto simp: in_window_def)
    ultimately show ?thesis using m ex R w
      by (auto simp: rq_state_def enqueue_frame_def in_window_def)
  next
    case lt
    then have "set (seen @ [n]) = set seen" and m: "mex (seen @ [n]) = ?e"
      using mex_notin [of seen] mex_below [of _ seen] by (auto intro!: mex_unique)
    moreover have "receive_frame q (S n) = ([], q)"
      using lt id ex \<open>id_greater_than _ _ \<longleftrightarrow> _\<close> eq by (simp add: receive_frame_def)
    ultimately show ?thesis using st by simp
  qed
qed

lemma receive_frames_run:
  assumes "rq_state S (set seen) (mex seen) q" and "numbered S" and "window_ok seen ns"
  shows "fst (receive_frames q (map S ns)) = map S [mex seen..<mex (seen @ ns)]
     \<and> rq_state S (set (seen @ ns)) (mex (seen @ ns)) (snd (receive_frames q (map S ns)))"
  using assms
proof (induction ns arbitrary: seen q)
  case Nil
  then show ?case by simp
next
  case (Cons n ns)
  from Cons.prems have step: "fst (receive_frame q (S n)) = map S [mex seen..<mex (seen @ [n])]"
    and st: "rq_state S (set (seen @ [n])) (mex (seen @ [n])) (snd (receive_frame q (S n)))"
    using receive_frame_step [of S seen q n] by auto
  from Cons.prems(3) have "window_ok (seen @ [n]) ns" by simp
  note IH = Cons.IH [OF st Cons.prems(2) this]
  have "mex seen \<le> mex (seen @ [n])" and "mex (seen @ [n]) \<le> mex (seen @ n # ns)"
    by (rule mex_mono, force)+
  then have "[mex seen..<mex (seen @ n # ns)] =
      [mex seen..<mex (seen @ [n])] @ [mex (seen @ [n])..<mex (seen @ n # ns)]"
    by (metis upt_add_eq_append le_add_diff_inverse)
  with step IH show ?case by (simp add: case_prod_beta)
qed

lemma rq_state_new: "rq_state S (set []) (mex []) new_ReceiveQueue"
proof -
  have "mex [] = 0" by (simp add: mex_def)
  then show ?thesis
    by (simp add: rq_state_def new_ReceiveQueue_def queue_holds_def om.find_empty om.invar_empty)
qed

text \<open>A sequence of packets arriving one after the other.\<close>

fun rq_receive_packets :: "ReceiveQueue \<Rightarrow> Packet list \<Rightarrow> Frame list \<times> ReceiveQueue" where
  "rq_receive_packets q [] = ([], q)"
| "rq_receive_packets q (p # ps) =
     (let (d1, q1) = rq_onReceive q p; (d2, q2) = rq_receive_packets q1 ps in (d1 @ d2, q2))"

definition carries :: "Packet \<Rightarrow> Frame list \<Rightarrow> bool" where
  "carries p fs \<longleftrightarrow> pk_data p = concat (map enc_frame fs) \<and> (\<forall>f \<in> set fs. small_frame f)"

lemma rq_onReceive_carries: "carries p fs \<Longrightarrow> rq_onReceive q p = receive_frames q fs"
  by (simp add: carries_def rq_onReceive_def rq_onReceive_loop_enc)

lemma rq_receive_packets_carries:
  "list_all2 carries ps fss \<Longrightarrow> rq_receive_packets q ps = receive_frames q (concat fss)"
  by (induction arbitrary: q rule: list_all2_induct)
    (auto simp: receive_frames_append rq_onReceive_carries case_prod_beta)

lemma reliable_delivery_aux:
  assumes "numbered S" and "list_all2 carries ps (map (map S) nss)" and "window_ok [] (concat nss)"
  shows "fst (rq_receive_packets new_ReceiveQueue ps) = map S [0..<mex (concat nss)]"
proof -
  have "rq_receive_packets new_ReceiveQueue ps = receive_frames new_ReceiveQueue (map S (concat nss))"
    using rq_receive_packets_carries [OF assms(2)] by (simp add: map_concat)
  moreover have "mex [] = 0" by (simp add: mex_def)
  ultimately show ?thesis
    using receive_frames_run [OF rq_state_new assms(1,3)] by simp
qed

section \<open>Properties\<close>

text \<open>C5: whatever the network does to the packets of a numbered stream of frames (reordering,
  repetition, loss), as long as every arriving frame is less than half the identifier range away
  from the first missing one, the receive queue hands out exactly the frames below the first number
  that has not arrived, each once and in order.\<close>

theorem reliable_delivery:
  assumes "numbered S" and "list_all2 carries ps (map (map S) nss)" and "window_ok [] (concat nss)"
  shows "fst (rq_receive_packets new_ReceiveQueue ps) = map S [0..<mex (concat nss)]"
  using assms by (rule reliable_delivery_aux)

theorem reliable_delivery_witness:
  "\<exists>S p q. fst (rq_receive_packets new_ReceiveQueue [p, q, p]) = map S [0..<(3::nat)] \<and> numbered S
     \<and> pk_data p = concat (map (enc_frame \<circ> S) [1, 2]) \<and> pk_data q = enc_frame (S 0)"
proof -
  define S :: "nat \<Rightarrow> Frame" where "S n = \<lparr>f_id = of_nat n, f_type = DATA, f_data = [of_nat n]\<rparr>" for n
  define p where "p = new_packet\<lparr>pk_data := concat (map (enc_frame \<circ> S) [1, 2])\<rparr>"
  define q where "q = new_packet\<lparr>pk_data := enc_frame (S 0)\<rparr>"
  have S: "numbered S" by (simp add: numbered_def S_def)
  have c: "list_all2 carries [p, q, p] (map (map S) [[1, 2], [0], [1, 2]])"
    by (simp add: carries_def p_def q_def small_frame_def S_def)
  have w: "window_ok [] (concat [[1, 2], [0], [1, 2]])"
    by (simp add: mex_def in_window_def)
  have m: "mex (concat [[1, 2], [0], [1, 2]]) = 3" by (simp add: mex_def)
  from reliable_delivery [OF S c w] S show ?thesis
    unfolding m by (intro exI [of _ S] exI [of _ p] exI [of _ q]) (simp add: p_def q_def)
qed

text \<open>Nothing is held back: once every frame below \<open>N\<close> has arrived, at least the first \<open>N\<close>
  frames of the stream have been handed out, in order.\<close>

theorem complete_delivery:
  assumes "numbered S" and "list_all2 carries ps (map (map S) nss)" and "window_ok [] (concat nss)"
    and "{0..<N} \<subseteq> set (concat nss)"
  shows "take N (fst (rq_receive_packets new_ReceiveQueue ps)) = map S [0..<N]"
proof -
  have "N \<le> mex (concat nss)"
    using mex_notin [of "concat nss"] assms(4) by (metis atLeastLessThan_iff le0 not_le subsetD)
  with reliable_delivery_aux [OF assms(1-3)] show ?thesis by (simp add: take_map)
qed

theorem complete_delivery_witness:
  "\<exists>S p q. take 2 (fst (rq_receive_packets new_ReceiveQueue [p, q])) = map S [0..<(2::nat)] \<and> numbered S
     \<and> pk_data p = enc_frame (S 1) \<and> pk_data q = enc_frame (S 0)"
proof -
  define S :: "nat \<Rightarrow> Frame" where "S n = \<lparr>f_id = of_nat n, f_type = DATA, f_data = [of_nat n]\<rparr>" for n
  define p where "p = new_packet\<lparr>pk_data := enc_frame (S 1)\<rparr>"
  define q where "q = new_packet\<lparr>pk_data := enc_frame (S 0)\<rparr>"
  have S: "numbered S" by (simp add: numbered_def S_def)
  have c: "list_all2 carries [p, q] (map (map S) [[1], [0]])"
    by (simp add: carries_def p_def q_def small_frame_def S_def)
  have w: "window_ok [] (concat [[1], [0]])" by (simp add: mex_def in_window_def)
  have m: "{0..<2} \<subseteq> set (concat [[1], [0::nat]])" by auto
  from complete_delivery [OF S c w m] S show ?thesis
    by (intro exI [of _ S] exI [of _ p] exI [of _ q]) (simp add: p_def q_def)
qed

text \<open>A frame that is more than half the identifier range ahead of the expected one is
  thrown away although it has not been delivered: the state does not change and nothing is handed
  out.\<close>

theorem far_frame_discarded:
  assumes "rq_expectedID q = of_nat e" and "f_id f = of_nat n" and "e + 2 ^ 15 < n" and "n < e + 2 ^ 16"
  shows "receive_frame q f = ([], q)"
proof -
  have "\<not> id_greater_than (of_nat n :: u16) (of_nat (e + 2 ^ 16))"
    using assms(3,4) by (subst id_gt_serial) auto
  moreover have "(of_nat (e + 2 ^ 16) :: u16) = of_nat e" by (simp only: of_nat_u16_eq mod_add_self2)
  ultimately have "\<not> id_greater_than (of_nat n :: u16) (of_nat e)" by (simp only: not_False_eq_True)
  moreover have "(of_nat n :: u16) \<noteq> of_nat e"
    using assms(3,4) by (subst of_nat_u16_inj [of e]) auto
  ultimately show ?thesis using assms(1,2) by (simp add: receive_frame_def)
qed

theorem far_frame_discarded_witness:
  "receive_frame new_ReceiveQueue \<lparr>f_id = 40000, f_type = DATA, f_data = []\<rparr> = ([], new_ReceiveQueue)"
  by (rule far_frame_discarded [of _ 0 _ 40000]) (simp_all add: new_ReceiveQueue_def)

text \<open>The walk of the unreliable queue over a payload made of frames hands out these frames
  and stays inside the payload.\<close>

theorem unreliable_delivery:
  assumes "carries p fs"
  shows "urq_onReceive p = (fs, False)"
  using assms by (simp add: carries_def urq_onReceive_def urq_onReceive_loop_enc)

theorem unreliable_delivery_witness:
  "urq_onReceive (new_packet\<lparr>pk_data := enc_frame \<lparr>f_id = 0, f_type = DATA, f_data = [1, 2]\<rparr>\<rparr>)
     = ([\<lparr>f_id = 0, f_type = DATA, f_data = [1, 2]\<rparr>], False)"
  by (rule unreliable_delivery) (simp add: carries_def small_frame_def)

text \<open>C40: when a payload ends in bytes that are not a whole frame, the reliable queue processes
  the frames before them and stops, while the unreliable queue goes on to read beyond the filled
  part of the payload.\<close>

theorem unreliable_overrun:
  assumes "pk_data p = concat (map enc_frame fs) @ tail" and "\<forall>f \<in> set fs. small_frame f"
    and "next_frame tail = None" and "tail \<noteq> []"
  shows "rq_onReceive q p = receive_frames q fs \<and> urq_onReceive p = (fs, True)"
  using assms by (simp add: rq_onReceive_def urq_onReceive_def rq_onReceive_loop_tail urq_onReceive_loop_tail)

theorem unreliable_overrun_witness:
  "rq_onReceive new_ReceiveQueue (new_packet\<lparr>pk_data := [0, 0, 84, 255, 255]\<rparr>) = ([], new_ReceiveQueue)
     \<and> urq_onReceive (new_packet\<lparr>pk_data := [0, 0, 84, 255, 255]\<rparr>) = ([], True)"
  using unreliable_overrun [of "new_packet\<lparr>pk_data := [0, 0, 84, 255, 255]\<rparr>" "[]" "[0, 0, 84, 255, 255]"]
  by (simp add: next_frame_def Let_def dec_frame_header_def dec_word_def)

end
