(* ===== verification/Send_Queue.thy ===== *)
theory Send_Queue
  imports Mr_Types Receive_Queue
begin

text \<open>
  The queue of packets waiting to be sent: \<^verbatim>\<open>mrudp/sender/SendQueue.h\<close> and
  \<^verbatim>\<open>mrudp/sender/SendQueue.cpp\<close>.

  \<^verbatim>\<open>compress2\<close> is zlib's: a parameter \<open>z\<close> of the operations that reach it. \<open>z cap src level\<close> is
  \<open>Some\<close> of the compressed bytes when the call returns \<^verbatim>\<open>Z_OK\<close> with a destination of \<open>cap\<close> bytes,
  and \<open>None\<close> otherwise. The second compression buffer is empty between operations.
\<close>

type_synonym compressor = "nat \<Rightarrow> bytes \<Rightarrow> int \<Rightarrow> bytes option"

record SendQueue =
  sq_status :: OpenStatus
  sq_nextID :: FrameID
  sq_queue :: "Packet list"
  sq_buffer :: bytes

definition new_SendQueue :: SendQueue where
  "new_SendQueue = \<lparr>sq_status = IS_OPEN, sq_nextID = 0, sq_queue = [], sq_buffer = []\<rparr>"

definition sq_close :: "SendQueue \<Rightarrow> SendQueue" where
  "sq_close q = (if sq_status q \<noteq> IS_CLOSED then q\<lparr>sq_status := IS_CLOSED, sq_queue := []\<rparr> else q)"

text \<open>Writing a frame with the next identifier at the end of a packet.\<close>

definition push_next_frame :: "FrameID \<Rightarrow> FrameTypeID \<Rightarrow> bytes \<Rightarrow> Packet \<Rightarrow> Packet" where
  "push_next_frame i type data packet =
     snd (pushFrame packet \<lparr>fh_id = i, fh_type = type, fh_dataSize = of_nat (length data)\<rparr> data)"

definition coalescePacket :: "SendQueue \<Rightarrow> FrameTypeID \<Rightarrow> bytes \<Rightarrow> bool \<times> SendQueue" where
  "coalescePacket q type data =
     (if sq_queue q = [] then (False, q)
      else let packet = last (sq_queue q)
           in if dataSize packet + length data + MAX_FRAME_HEADER_SIZE < MAX_PACKET_POST_FRAME_SIZE
              then let i = nextID (sq_nextID q)
                   in (True, q\<lparr>sq_nextID := snd i,
                              sq_queue := butlast (sq_queue q) @ [push_next_frame (fst i) type data packet]\<rparr>)
              else (False, q))"

definition availableWriteSize :: "SendQueue \<Rightarrow> int" where
  "availableWriteSize q =
     int MAX_PACKET_POST_FRAME_SIZE - int (dataSize (last (sq_queue q)) + MAX_FRAME_HEADER_SIZE)"

function coalesceStream_loop :: "SendQueue \<Rightarrow> FrameTypeID \<Rightarrow> bytes \<Rightarrow> SendQueue" where
  "coalesceStream_loop q type data =
     (if data = [] then q
      else if availableWriteSize q > 0
      then let writeSize = min (nat (availableWriteSize q)) (length data);
               i = nextID (sq_nextID q)
           in coalesceStream_loop
                (q\<lparr>sq_nextID := snd i,
                   sq_queue := butlast (sq_queue q)
                     @ [push_next_frame (fst i) type (take writeSize data) (last (sq_queue q))]\<rparr>)
                type (drop writeSize data)
      else coalesceStream_loop (q\<lparr>sq_queue := sq_queue q @ [new_packet]\<rparr>) type data)"
  by pat_completeness auto
termination
  by (relation "measure (\<lambda>(q, t, data). 2 * length data + (if availableWriteSize q > 0 then 0 else 1))")
    (auto simp: availableWriteSize_def min_def neq_Nil_conv)

declare coalesceStream_loop.simps [simp del]

definition coalesceStream :: "SendQueue \<Rightarrow> FrameTypeID \<Rightarrow> bytes \<Rightarrow> bool \<times> SendQueue" where
  "coalesceStream q type data =
     (let q1 = (if sq_queue q = [] then q\<lparr>sq_queue := [new_packet]\<rparr> else q)
      in (True, coalesceStream_loop q1 type data))"

definition coalesceStreamCompressed :: "SendQueue \<Rightarrow> FrameTypeID \<Rightarrow> bytes \<Rightarrow> bool \<times> SendQueue" where
  "coalesceStreamCompressed q type data =
     (True, q\<lparr>sq_buffer := sq_buffer q @ [type] @ enc_word 4 (of_nat (length data) :: u32) @ data\<rparr>)"

text \<open>The block that \<^verbatim>\<open>compress\<close> builds in the second buffer, and the size it writes in front of it.\<close>

definition minimumSizeToAttemptCompression :: nat where
  [simp]: "minimumSizeToAttemptCompression = 48"

definition compressed_block :: "compressor \<Rightarrow> int \<Rightarrow> bytes \<Rightarrow> bytes" where
  "compressed_block z level source =
     (case (if level > 0 \<and> length source \<ge> minimumSizeToAttemptCompression
            then z (length source) source level else None) of
        Some dest \<Rightarrow>
          (let outSize = of_nat (4 + 1 + 4 + length dest) :: u32
           in take (unat outSize)
                (enc_word 4 outSize @ [1] @ enc_word 4 (of_nat (length source) :: u32) @ dest))
      | None \<Rightarrow>
          (let outSize = of_nat (4 + 1 + length source) :: u32
           in take (unat outSize) (enc_word 4 outSize @ [0] @ source)))"

definition sq_compress :: "compressor \<Rightarrow> int \<Rightarrow> SendQueue \<Rightarrow> SendQueue" where
  "sq_compress z level q =
     (snd (coalesceStream q DATA_COMPRESSED (compressed_block z level (sq_buffer q))))\<lparr>sq_buffer := []\<rparr>"

definition coalesce :: "SendQueue \<Rightarrow> FrameTypeID \<Rightarrow> bytes \<Rightarrow> int \<Rightarrow> bool \<times> SendQueue" where
  "coalesce q type data mode =
     (if mode = MRUDP_COALESCE_NONE then (False, q)
      else if mode = MRUDP_COALESCE_PACKET then coalescePacket q type data
      else if mode = MRUDP_COALESCE_STREAM then coalesceStream q type data
      else if mode = MRUDP_COALESCE_STREAM_COMPRESSED then coalesceStreamCompressed q type data
      else (False, q))"

definition sq_enqueue :: "SendQueue \<Rightarrow> FrameTypeID \<Rightarrow> bytes \<Rightarrow> int \<Rightarrow> SendQueue" where
  "sq_enqueue q type data mode =
     (if sq_status q = IS_CLOSED then q
      else let (done, q1) = coalesce q type data mode
           in if done then q1
              else let i = nextID (sq_nextID q1)
                   in q1\<lparr>sq_nextID := snd i,
                         sq_queue := sq_queue q1 @ [push_next_frame (fst i) type data new_packet]\<rparr>)"

definition sq_dequeue :: "compressor \<Rightarrow> int \<Rightarrow> SendQueue \<Rightarrow> Packet option \<times> SendQueue" where
  "sq_dequeue z level q =
     (if sq_status q = IS_CLOSED then (None, q)
      else let q1 = (if sq_queue q = [] \<and> sq_buffer q \<noteq> [] then sq_compress z level q else q)
           in case sq_queue q1 of
                [] \<Rightarrow> (None, q1)
              | packet # rest \<Rightarrow> (Some packet, q1\<lparr>sq_queue := rest\<rparr>))"

definition sq_empty :: "SendQueue \<Rightarrow> bool" where
  "sq_empty q \<longleftrightarrow> sq_queue q = [] \<and> sq_buffer q = []"

definition sq_clear :: "SendQueue \<Rightarrow> SendQueue" where
  "sq_clear q = q\<lparr>sq_buffer := [], sq_queue := []\<rparr>"

section \<open>The queue as a numbered stream of frames\<close>

definition frames_of :: "Packet \<Rightarrow> Frame list" where
  "frames_of p = fst (urq_onReceive p)"

lemma frames_of_carries: "carries p fs \<Longrightarrow> frames_of p = fs"
  by (simp add: frames_of_def carries_def urq_onReceive_def urq_onReceive_loop_enc)

definition sq_frames :: "SendQueue \<Rightarrow> Frame list" where
  "sq_frames q = concat (map frames_of (sq_queue q))"

text \<open>A packet that holds whole frames only and leaves the room reserved for encryption.\<close>

definition good_packet :: "Packet \<Rightarrow> bool" where
  "good_packet p \<longleftrightarrow> carries p (frames_of p) \<and> dataSize p \<le> MAX_PACKET_POST_FRAME_SIZE"

definition sq_inv :: "SendQueue \<Rightarrow> bool" where
  "sq_inv q \<longleftrightarrow> (\<forall>p \<in> set (sq_queue q). good_packet p)"

definition consecutive :: "FrameID \<Rightarrow> Frame list \<Rightarrow> bool" where
  "consecutive i fs \<longleftrightarrow> map f_id fs = map (\<lambda>k. i + of_nat k) [0..<length fs]"

lemma consecutive_Nil [simp]: "consecutive i []"
  by (simp add: consecutive_def)

lemma consecutive_append:
  "consecutive i (fs @ gs) \<longleftrightarrow> consecutive i fs \<and> consecutive (i + of_nat (length fs)) gs"
proof -
  have "[0..<length fs + length gs] = [0..<length fs] @ map (\<lambda>k. k + length fs) [0..<length gs]"
    using map_add_upt [of "length fs" "length gs"] upt_add_eq_append [of 0 "length fs" "length gs"]
    by (simp add: add.commute)
  then show ?thesis by (simp add: consecutive_def comp_def ac_simps)
qed

lemma consecutive_single: "consecutive i [f] \<longleftrightarrow> f_id f = i"
  by (simp add: consecutive_def)

lemma good_new_packet [simp]: "good_packet new_packet" "frames_of new_packet = []"
proof -
  have "carries new_packet []" by (simp add: carries_def)
  then show "frames_of new_packet = []" "good_packet new_packet"
    by (simp_all add: good_packet_def frames_of_carries)
qed

text \<open>Appending a frame to a good packet with enough room.\<close>

lemma push_next_frame_good:
  assumes "good_packet p" and "dataSize p + 5 + length data \<le> MAX_PACKET_POST_FRAME_SIZE"
  shows "good_packet (push_next_frame i t data p)"
    and "frames_of (push_next_frame i t data p) = frames_of p @ [\<lparr>f_id = i, f_type = t, f_data = data\<rparr>]"
    and "dataSize (push_next_frame i t data p) = dataSize p + 5 + length data"
proof -
  let ?f = "\<lparr>f_id = i, f_type = t, f_data = data\<rparr>" and ?p = "push_next_frame i t data p"
  obtain fs where fs: "carries p fs" "frames_of p = fs"
    using assms(1) unfolding good_packet_def by blast
  have p: "?p = p\<lparr>pk_data := pk_data p @ enc_frame ?f\<rparr>"
    using assms(2) pushFrame_fits [of p ?f] by (simp add: push_next_frame_def frame_header_def)
  have "carries ?p (fs @ [?f])"
    using fs(1) assms(2) unfolding p by (auto simp: carries_def small_frame_def)
  with frames_of_carries [OF this] fs(2) assms(2)
  show "good_packet ?p" and "frames_of ?p = frames_of p @ [?f]"
    and "dataSize ?p = dataSize p + 5 + length data"
    by (simp_all add: good_packet_def) (simp_all add: p dataSize_def)
qed

text \<open>What an operation that adds frames does: \<open>new\<close> are the frames it adds.\<close>

definition adds_frames :: "SendQueue \<Rightarrow> FrameTypeID \<Rightarrow> bytes \<Rightarrow> Frame list \<Rightarrow> SendQueue \<Rightarrow> bool" where
  "adds_frames q t data new q' \<longleftrightarrow>
     sq_frames q' = sq_frames q @ new \<and> consecutive (sq_nextID q) new \<and>
     sq_nextID q' = sq_nextID q + of_nat (length new) \<and>
     concat (map f_data new) = data \<and> (\<forall>f \<in> set new. f_type f = t) \<and>
     sq_inv q' \<and> sq_status q' = sq_status q \<and> sq_buffer q' = sq_buffer q"

lemma adds_frames_trans:
  "adds_frames q t d1 n1 q1 \<Longrightarrow> adds_frames q1 t d2 n2 q2 \<Longrightarrow> adds_frames q t (d1 @ d2) (n1 @ n2) q2"
  by (auto simp: adds_frames_def consecutive_append add.assoc)

lemma sq_inv_update_last:
  "sq_inv q \<Longrightarrow> good_packet p \<Longrightarrow> sq_inv (q\<lparr>sq_nextID := n, sq_queue := butlast (sq_queue q) @ [p]\<rparr>)"
  by (auto simp: sq_inv_def dest: in_set_butlastD)

lemma adds_one_frame:
  assumes "sq_inv q" and "sq_queue q \<noteq> []"
    and "dataSize (last (sq_queue q)) + 5 + length data \<le> MAX_PACKET_POST_FRAME_SIZE"
  shows "adds_frames q t data [\<lparr>f_id = sq_nextID q, f_type = t, f_data = data\<rparr>]
     (q\<lparr>sq_nextID := sq_nextID q + 1,
        sq_queue := butlast (sq_queue q) @ [push_next_frame (sq_nextID q) t data (last (sq_queue q))]\<rparr>)"
proof -
  have good: "good_packet (last (sq_queue q))" using assms(1,2) by (simp add: sq_inv_def)
  note pf = push_next_frame_good [OF good assms(3), of "sq_nextID q" t]
  have "sq_frames q = concat (map frames_of (butlast (sq_queue q))) @ frames_of (last (sq_queue q))"
    using concat_map_butlast_last [OF assms(2)] by (simp add: sq_frames_def)
  with pf sq_inv_update_last [OF assms(1) pf(1)] show ?thesis
    by (simp add: adds_frames_def sq_frames_def consecutive_single)
qed

lemma coalesceStream_loop_adds:
  assumes "sq_inv q" and "sq_queue q \<noteq> []"
  shows "\<exists>new. adds_frames q t data new (coalesceStream_loop q t data)"
  using assms
proof (induction q t data rule: coalesceStream_loop.induct)
  case (1 q t data)
  show ?case
  proof (cases "data = []")
    case True
    with "1.prems" have "adds_frames q t data [] (coalesceStream_loop q t data)"
      by (simp add: coalesceStream_loop.simps adds_frames_def)
    then show ?thesis ..
  next
    case nonempty: False
    show ?thesis
    proof (cases "availableWriteSize q > 0")
      case True
      let ?w = "min (nat (availableWriteSize q)) (length data)"
      let ?q = "q\<lparr>sq_nextID := sq_nextID q + 1, sq_queue := butlast (sq_queue q)
          @ [push_next_frame (sq_nextID q) t (take ?w data) (last (sq_queue q))]\<rparr>"
      have "dataSize (last (sq_queue q)) + 5 + length (take ?w data) \<le> MAX_PACKET_POST_FRAME_SIZE"
        using True by (auto simp: availableWriteSize_def min_def)
      note one = adds_one_frame [OF "1.prems" this, of t]
      then have "sq_inv ?q" by (simp add: adds_frames_def)
      then obtain new where "adds_frames ?q t (drop ?w data) new (coalesceStream_loop ?q t (drop ?w data))"
        using "1.IH"(1) [OF nonempty True refl refl] by auto
      from adds_frames_trans [OF one this] nonempty True show ?thesis
        by (subst coalesceStream_loop.simps) (auto simp: Let_def)
    next
      case False
      let ?q = "q\<lparr>sq_queue := sq_queue q @ [new_packet]\<rparr>"
      have "sq_inv ?q" using "1.prems" by (auto simp: sq_inv_def)
      then obtain new where "adds_frames ?q t data new (coalesceStream_loop ?q t data)"
        using "1.IH"(2) [OF nonempty False] by auto
      then have "adds_frames q t data new (coalesceStream_loop ?q t data)"
        by (simp add: adds_frames_def sq_frames_def)
      with nonempty False show ?thesis by (subst coalesceStream_loop.simps) auto
    qed
  qed
qed

lemma coalesceStream_adds:
  assumes "sq_inv q"
  shows "\<exists>new. adds_frames q t data new (snd (coalesceStream q t data))"
proof (cases "sq_queue q = []")
  case True
  let ?q = "q\<lparr>sq_queue := [new_packet]\<rparr>"
  obtain new where "adds_frames ?q t data new (coalesceStream_loop ?q t data)"
    using coalesceStream_loop_adds [of ?q t data] by (auto simp: sq_inv_def)
  with True show ?thesis by (auto simp: coalesceStream_def adds_frames_def sq_frames_def)
next
  case False
  with coalesceStream_loop_adds [OF assms False, of t data] show ?thesis
    by (simp add: coalesceStream_def)
qed

lemma coalescePacket_adds:
  assumes "sq_inv q" and "fst (coalescePacket q t data)"
  shows "adds_frames q t data [\<lparr>f_id = sq_nextID q, f_type = t, f_data = data\<rparr>] (snd (coalescePacket q t data))"
  using assms adds_one_frame [OF assms(1), of data t]
  by (auto simp: coalescePacket_def nextID_def Let_def split: if_splits)

lemma new_packet_adds:
  assumes "sq_inv q" and "length data \<le> MAX_PACKET_DATA_SIZE"
  shows "adds_frames q t data [\<lparr>f_id = sq_nextID q, f_type = t, f_data = data\<rparr>]
     (q\<lparr>sq_nextID := sq_nextID q + 1, sq_queue := sq_queue q @ [push_next_frame (sq_nextID q) t data new_packet]\<rparr>)"
  using assms push_next_frame_good [OF good_new_packet(1), of data "sq_nextID q" t]
  by (auto simp: adds_frames_def sq_frames_def sq_inv_def consecutive_single)

section \<open>Operations\<close>

text \<open>The sizes \<^verbatim>\<open>Sender::send\<close> lets through for a mode.\<close>

definition admissible :: "bytes \<Rightarrow> int \<Rightarrow> bool" where
  "admissible data mode \<longleftrightarrow> length data \<le> MAX_PACKET_DATA_SIZE \<or>
     mode = MRUDP_COALESCE_STREAM \<or> mode = MRUDP_COALESCE_STREAM_COMPRESSED"

lemma sq_enqueue_adds:
  assumes "sq_inv q" and "admissible data mode" and "sq_status q = IS_OPEN"
    and "mode \<noteq> MRUDP_COALESCE_STREAM_COMPRESSED"
  shows "\<exists>new. adds_frames q t data new (sq_enqueue q t data mode)
     \<and> (mode \<noteq> MRUDP_COALESCE_STREAM \<longrightarrow> new = [\<lparr>f_id = sq_nextID q, f_type = t, f_data = data\<rparr>])"
proof (cases "mode = MRUDP_COALESCE_STREAM")
  case True
  then have "sq_enqueue q t data mode = snd (coalesceStream q t data)"
    using assms(3) by (simp add: sq_enqueue_def coalesce_def coalesceStream_def)
  with coalesceStream_adds [OF assms(1), of t data] True show ?thesis by simp
next
  case False
  with assms(2,4) have sz: "length data \<le> MAX_PACKET_DATA_SIZE" by (simp add: admissible_def)
  show ?thesis
  proof (cases "mode = MRUDP_COALESCE_PACKET \<and> fst (coalescePacket q t data)")
    case True
    then have "sq_enqueue q t data mode = snd (coalescePacket q t data)"
      using assms(3) by (simp add: sq_enqueue_def coalesce_def case_prod_beta)
    with coalescePacket_adds [OF assms(1), of t data] True False show ?thesis by auto
  next
    case notp: False
    have "coalesce q t data mode = (False, q)"
      using notp False assms(4) by (auto simp: coalesce_def coalescePacket_def Let_def split: if_splits)
    then show ?thesis using new_packet_adds [OF assms(1) sz, of t] assms(3) False
      by (simp add: sq_enqueue_def Let_def)
  qed
qed

lemma sq_enqueue_compressed:
  "sq_status q = IS_OPEN \<Longrightarrow> sq_enqueue q t data MRUDP_COALESCE_STREAM_COMPRESSED =
     q\<lparr>sq_buffer := sq_buffer q @ [t] @ enc_word 4 (of_nat (length data) :: u32) @ data\<rparr>"
  by (simp add: sq_enqueue_def coalesce_def coalesceStreamCompressed_def)

lemma sq_compress_adds:
  assumes "sq_inv q"
  shows "\<exists>new. adds_frames q DATA_COMPRESSED (compressed_block z level (sq_buffer q)) new
     ((sq_compress z level q)\<lparr>sq_buffer := sq_buffer q\<rparr>)"
proof -
  obtain new where "adds_frames q DATA_COMPRESSED (compressed_block z level (sq_buffer q)) new
      (snd (coalesceStream q DATA_COMPRESSED (compressed_block z level (sq_buffer q))))"
    using coalesceStream_adds [OF assms] by blast
  then have "adds_frames q DATA_COMPRESSED (compressed_block z level (sq_buffer q)) new
      ((sq_compress z level q)\<lparr>sq_buffer := sq_buffer q\<rparr>)"
    by (simp add: adds_frames_def sq_compress_def sq_frames_def sq_inv_def)
  then show ?thesis ..
qed

text \<open>
  The contract the sender relies on: frames enter at the end with consecutive identifiers and leave
  from the front, a whole packet at a time.
\<close>

definition out_frames :: "Packet option \<Rightarrow> Frame list" where
  "out_frames r = (case r of None \<Rightarrow> [] | Some p \<Rightarrow> frames_of p)"

definition extends :: "FrameID \<Rightarrow> Frame list \<Rightarrow> FrameID \<Rightarrow> bool" where
  "extends i new j \<longleftrightarrow> consecutive i new \<and> j = i + of_nat (length new)"

lemma extends_Nil [simp]: "extends i [] j \<longleftrightarrow> j = i"
  by (simp add: extends_def)

lemma extends_append: "extends i fs j \<Longrightarrow> extends j gs k \<Longrightarrow> extends i (fs @ gs) k"
  by (simp add: extends_def consecutive_append add.assoc)

datatype sq_op = Enqueue FrameTypeID bytes int | Dequeue

fun queue_run :: "(FrameTypeID \<Rightarrow> bytes \<Rightarrow> int \<Rightarrow> 'q \<Rightarrow> 'q) \<Rightarrow> ('q \<Rightarrow> Packet option \<times> 'q) \<Rightarrow>
    'q \<Rightarrow> sq_op list \<Rightarrow> Packet list \<times> 'q" where
  "queue_run enq deq q [] = ([], q)"
| "queue_run enq deq q (Enqueue t data mode # ops) = queue_run enq deq (enq t data mode q) ops"
| "queue_run enq deq q (Dequeue # ops) =
     (case deq q of
        (None, q1) \<Rightarrow> queue_run enq deq q1 ops
      | (Some p, q1) \<Rightarrow> (let r = queue_run enq deq q1 ops in (p # fst r, snd r)))"

locale frame_queue =
  fixes enq :: "FrameTypeID \<Rightarrow> bytes \<Rightarrow> int \<Rightarrow> 'q \<Rightarrow> 'q"
    and deq :: "'q \<Rightarrow> Packet option \<times> 'q"
    and frames :: "'q \<Rightarrow> Frame list"
    and next_id :: "'q \<Rightarrow> FrameID"
    and inv :: "'q \<Rightarrow> bool"
  assumes enq_extends: "inv q \<Longrightarrow> admissible data mode \<Longrightarrow>
      inv (enq t data mode q) \<and>
      (\<exists>new. extends (next_id q) new (next_id (enq t data mode q)) \<and> frames (enq t data mode q) = frames q @ new)"
    and deq_extends: "inv q \<Longrightarrow> deq q = (r, q') \<Longrightarrow>
      inv q' \<and> (\<forall>p. r = Some p \<longrightarrow> good_packet p) \<and>
      (\<exists>new. extends (next_id q) new (next_id q') \<and> frames q @ new = out_frames r @ frames q')"
begin

text \<open>\<open>new\<close> are the frames added on the way from \<open>q\<close> to \<open>q'\<close>, \<open>out\<close> the frames that left.\<close>

definition passes :: "'q \<Rightarrow> Frame list \<Rightarrow> 'q \<Rightarrow> bool" where
  "passes q out q' \<longleftrightarrow> inv q' \<and>
     (\<exists>new. extends (next_id q) new (next_id q') \<and> frames q @ new = out @ frames q')"

lemma passes_trans:
  assumes "passes q out1 q1" and "passes q1 out2 q2"
  shows "passes q (out1 @ out2) q2"
proof -
  obtain n1 n2 where "extends (next_id q) n1 (next_id q1)" "frames q @ n1 = out1 @ frames q1"
    "extends (next_id q1) n2 (next_id q2)" "frames q1 @ n2 = out2 @ frames q2"
    using assms unfolding passes_def by blast
  then have "extends (next_id q) (n1 @ n2) (next_id q2)" "frames q @ (n1 @ n2) = (out1 @ out2) @ frames q2"
    using extends_append by (blast, metis append.assoc)
  then show ?thesis using assms(2) unfolding passes_def by blast
qed

lemma passes_enq: "inv q \<Longrightarrow> admissible data mode \<Longrightarrow> passes q [] (enq t data mode q)"
  using enq_extends [of q data mode t] unfolding passes_def append_Nil by metis

lemma passes_deq: "inv q \<Longrightarrow> deq q = (r, q') \<Longrightarrow> passes q (out_frames r) q'"
  using deq_extends [of q r q'] unfolding passes_def by blast

lemma run_passes:
  assumes "inv q" and "\<forall>t data mode. Enqueue t data mode \<in> set ops \<longrightarrow> admissible data mode"
    and "queue_run enq deq q ops = (ps, q')"
  shows "passes q (concat (map frames_of ps)) q' \<and> (\<forall>p \<in> set ps. good_packet p)"
  using assms
proof (induction ops arbitrary: q ps)
  case Nil
  then have "ps = []" "q' = q" by simp_all
  then show ?case using Nil.prems(1) by (auto simp: passes_def)
next
  case (Cons x ops)
  have adm: "\<forall>t data mode. Enqueue t data mode \<in> set ops \<longrightarrow> admissible data mode"
    using Cons.prems(2) by simp
  show ?case
  proof (cases x)
    case (Enqueue t data mode)
    have step: "passes q [] (enq t data mode q)"
      using Cons.prems(1,2) Enqueue by (intro passes_enq) simp_all
    then have "inv (enq t data mode q)" by (simp add: passes_def)
    from Cons.IH [OF this adm, of ps] Cons.prems(3) Enqueue passes_trans [OF step]
    show ?thesis by simp
  next
    case Dequeue
    obtain r q1 where r: "deq q = (r, q1)" by (cases "deq q")
    note step = passes_deq [OF Cons.prems(1) r]
    then have inv1: "inv q1" by (simp add: passes_def)
    obtain qs where qs: "queue_run enq deq q1 ops = (qs, q')" "ps = (case r of None \<Rightarrow> qs | Some p \<Rightarrow> p # qs)"
      using Cons.prems(3) Dequeue r by (cases "queue_run enq deq q1 ops") (auto simp: Let_def split: option.splits)
    note IH = Cons.IH [OF inv1 adm qs(1)]
    have "passes q (out_frames r @ concat (map frames_of qs)) q'" using passes_trans [OF step] IH by blast
    moreover have "\<forall>p. r = Some p \<longrightarrow> good_packet p" using deq_extends [OF Cons.prems(1) r] by blast
    ultimately show ?thesis using IH qs(2) by (cases r) (auto simp: out_frames_def)
  qed
qed

end

lemma sq_enqueue_extends:
  assumes "sq_inv q" and "admissible data mode"
  shows "sq_inv (sq_enqueue q t data mode) \<and>
    (\<exists>new. extends (sq_nextID q) new (sq_nextID (sq_enqueue q t data mode))
       \<and> sq_frames (sq_enqueue q t data mode) = sq_frames q @ new)"
proof (cases "sq_status q = IS_CLOSED \<or> mode = MRUDP_COALESCE_STREAM_COMPRESSED")
  case True
  then have "sq_queue (sq_enqueue q t data mode) = sq_queue q \<and> sq_nextID (sq_enqueue q t data mode) = sq_nextID q"
    by (auto simp: sq_enqueue_def coalesce_def coalesceStreamCompressed_def)
  with assms(1) show ?thesis by (simp add: sq_inv_def sq_frames_def)
next
  case False
  then have "sq_status q = IS_OPEN" by (cases "sq_status q") auto
  with sq_enqueue_adds [OF assms this, of t] False show ?thesis
    by (auto simp: adds_frames_def extends_def)
qed

lemma sq_dequeue_extends:
  assumes "sq_inv q" and "sq_dequeue z level q = (r, q')"
  shows "sq_inv q' \<and> (\<forall>p. r = Some p \<longrightarrow> good_packet p) \<and>
    (\<exists>new. extends (sq_nextID q) new (sq_nextID q') \<and> sq_frames q @ new = out_frames r @ sq_frames q')"
proof (cases "sq_status q = IS_CLOSED")
  case True
  with assms show ?thesis by (auto simp: sq_dequeue_def out_frames_def)
next
  case False
  define q1 where "q1 = (if sq_queue q = [] \<and> sq_buffer q \<noteq> [] then sq_compress z level q else q)"
  have "sq_inv q1 \<and> (\<exists>new. extends (sq_nextID q) new (sq_nextID q1) \<and> sq_frames q1 = sq_frames q @ new)"
    using assms(1) sq_compress_adds [OF assms(1), of z level]
    by (auto simp: q1_def adds_frames_def extends_def sq_inv_def sq_frames_def)
  moreover have "sq_inv q' \<and> (\<forall>p. r = Some p \<longrightarrow> good_packet p) \<and> sq_nextID q' = sq_nextID q1
      \<and> sq_frames q1 = out_frames r @ sq_frames q'" if "sq_inv q1"
    using that assms(2) False unfolding sq_dequeue_def q1_def [symmetric]
    by (auto simp: sq_inv_def sq_frames_def out_frames_def split: list.splits)
  ultimately show ?thesis by auto
qed

interpretation sq: frame_queue "\<lambda>t data mode q. sq_enqueue q t data mode" "sq_dequeue z level" sq_frames sq_nextID sq_inv
  for z level
  using sq_enqueue_extends sq_dequeue_extends by unfold_locales

section \<open>Properties\<close>

text \<open>The send queue run on a sequence of operations.\<close>

definition sq_run :: "compressor \<Rightarrow> int \<Rightarrow> SendQueue \<Rightarrow> sq_op list \<Rightarrow> Packet list \<times> SendQueue" where
  "sq_run z level = queue_run (\<lambda>t data mode q. sq_enqueue q t data mode) (sq_dequeue z level)"

lemma sq_run_numbered:
  assumes "\<forall>t data mode. Enqueue t data mode \<in> set ops \<longrightarrow> admissible data mode"
    and "sq_run z level new_SendQueue ops = (ps, q)"
  shows "consecutive 0 (concat (map frames_of ps) @ sq_frames q)
    \<and> sq_nextID q = of_nat (length (concat (map frames_of ps) @ sq_frames q))
    \<and> (\<forall>p \<in> set ps. good_packet p)"
proof -
  have "sq_inv new_SendQueue" "sq_frames new_SendQueue = []" "sq_nextID new_SendQueue = 0"
    by (simp_all add: new_SendQueue_def sq_inv_def sq_frames_def)
  with sq.run_passes [OF this(1) assms(1) assms(2) [unfolded sq_run_def]]
  show ?thesis by (auto simp: sq.passes_def extends_def)
qed

text \<open>
  C25: Whatever the interleaving of enqueues and dequeues, and whatever zlib returns, the frames in the
  packets handed out followed by the frames still queued are numbered 0, 1, 2, ... without a gap, the
  next identifier is their count, and every packet handed out holds whole frames and leaves the
  room reserved for encryption.
\<close>

theorem send_queue_numbering:
  assumes "\<forall>t data mode. Enqueue t data mode \<in> set ops \<longrightarrow> admissible data mode"
    and "sq_run z level new_SendQueue ops = (ps, q)"
  shows "map f_id (concat (map frames_of ps) @ sq_frames q)
       = map of_nat [0..<length (concat (map frames_of ps) @ sq_frames q)]
    \<and> sq_nextID q = of_nat (length (concat (map frames_of ps) @ sq_frames q))
    \<and> (\<forall>p \<in> set ps. carries p (frames_of p) \<and> dataSize p \<le> MAX_PACKET_POST_FRAME_SIZE)"
  using sq_run_numbered [OF assms] unfolding consecutive_def good_packet_def by simp

definition example_ops :: "sq_op list" where
  "example_ops = [Enqueue DATA [1, 2] MRUDP_COALESCE_STREAM, Enqueue DATA [3] MRUDP_COALESCE_PACKET,
     Dequeue, Enqueue DATA [4] MRUDP_COALESCE_NONE, Dequeue]"

theorem send_queue_numbering_witness:
  "sq_nextID (snd (sq_run (\<lambda>_ _ _. None) 0 new_SendQueue example_ops)) = 3
   \<and> map f_id (concat (map frames_of (fst (sq_run (\<lambda>_ _ _. None) 0 new_SendQueue example_ops)))) = [0, 1, 2]"
proof -
  let ?r = "sq_run (\<lambda>_ _ _. None) 0 new_SendQueue example_ops"
  have "\<forall>t data mode. Enqueue t data mode \<in> set example_ops \<longrightarrow> admissible data mode"
    by (simp add: example_ops_def admissible_def)
  note * = send_queue_numbering [OF this, of "\<lambda>_ _ _. None" 0 "fst ?r" "snd ?r"]
  have "sq_queue (snd ?r) = []" "length (concat (map frames_of (fst ?r))) = 3" by code_simp+
  then have "length (concat (map frames_of (fst ?r)) @ sq_frames (snd ?r)) = 3" "sq_frames (snd ?r) = []"
    by (simp_all add: sq_frames_def)
  moreover have "[0..<3] = [0, 1, 2::nat]" by code_simp
  ultimately show ?thesis using * by simp
qed

text \<open>
  Enqueueing data on an open queue appends frames of the given type whose payloads, put together,
  are the data, with consecutive identifiers from the next one; outside the stream mode the data is
  in one frame, so that message boundaries are kept.
\<close>

theorem enqueue_carries_data:
  assumes "sq_inv q" and "admissible data mode" and "sq_status q = IS_OPEN"
    and "mode \<noteq> MRUDP_COALESCE_STREAM_COMPRESSED"
  shows "\<exists>new. sq_frames (sq_enqueue q t data mode) = sq_frames q @ new
     \<and> map f_id new = map (\<lambda>k. sq_nextID q + of_nat k) [0..<length new]
     \<and> concat (map f_data new) = data \<and> (\<forall>f \<in> set new. f_type f = t)
     \<and> (mode \<noteq> MRUDP_COALESCE_STREAM \<longrightarrow> length new = 1)
     \<and> sq_inv (sq_enqueue q t data mode)"
proof -
  obtain new where "adds_frames q t data new (sq_enqueue q t data mode)"
    "mode \<noteq> MRUDP_COALESCE_STREAM \<longrightarrow> new = [\<lparr>f_id = sq_nextID q, f_type = t, f_data = data\<rparr>]"
    using sq_enqueue_adds [OF assms, of t] by blast
  then show ?thesis unfolding adds_frames_def consecutive_def by (intro exI [of _ new]) auto
qed

theorem enqueue_carries_data_witness:
  "\<exists>new. sq_frames (sq_enqueue new_SendQueue DATA (replicate 2000 7) MRUDP_COALESCE_STREAM) = new
     \<and> concat (map f_data new) = replicate 2000 7"
  using enqueue_carries_data [of new_SendQueue "replicate 2000 7" MRUDP_COALESCE_STREAM DATA]
  by (auto simp: new_SendQueue_def sq_inv_def sq_frames_def admissible_def)

text \<open>
  C39: With compressed stream data waiting and no packet queued, the CLOSE_WRITE frame that
  \<^verbatim>\<open>Sender::close\<close> enqueues in packet mode is handed out first: the next packet holds that frame
  alone and the data is still in the compression buffer.
\<close>

theorem close_overtakes_compressed:
  assumes "sq_status q = IS_OPEN" and "sq_queue q = []" and "sq_buffer q \<noteq> []"
  shows "\<exists>p q'. sq_dequeue z level (sq_enqueue q CLOSE_WRITE [] MRUDP_COALESCE_PACKET) = (Some p, q')
    \<and> frames_of p = [\<lparr>f_id = sq_nextID q, f_type = CLOSE_WRITE, f_data = []\<rparr>]
    \<and> sq_buffer q' = sq_buffer q"
proof -
  have "dataSize new_packet = 0" by (simp add: dataSize_def new_packet_def)
  with push_next_frame_good(2) [OF good_new_packet(1), of "[]"] assms show ?thesis
    by (simp add: sq_enqueue_def coalesce_def coalescePacket_def sq_dequeue_def Let_def)
qed

theorem close_overtakes_compressed_witness:
  "\<exists>p q'. sq_dequeue (\<lambda>_ _ _. None) 1
      (sq_enqueue (sq_enqueue new_SendQueue DATA [1, 2, 3] MRUDP_COALESCE_STREAM_COMPRESSED)
         CLOSE_WRITE [] MRUDP_COALESCE_PACKET) = (Some p, q')
    \<and> frames_of p = [\<lparr>f_id = 0, f_type = CLOSE_WRITE, f_data = []\<rparr>] \<and> sq_buffer q' \<noteq> []"
  using close_overtakes_compressed [of "sq_enqueue new_SendQueue DATA [1, 2, 3] MRUDP_COALESCE_STREAM_COMPRESSED"
      "\<lambda>_ _ _. None" 1]
  by (auto simp: sq_enqueue_def coalesce_def coalesceStreamCompressed_def new_SendQueue_def)

end
