(* ===== verification/Timing.thy ===== *)
theory Timing
  imports Complex_Main Mr_Types
begin

text \<open>
  The floating-point side of the protocol: round-trip time (\<^verbatim>\<open>mrudp/sender/RTT.h\<close>), send window
  (\<^verbatim>\<open>mrudp/sender/WindowSize.h\<close>), the retry interval of \<^verbatim>\<open>mrudp/sender/Retrier.cpp\<close>, the probe
  interval of \<^verbatim>\<open>mrudp/connection/Probe.cpp\<close> and \<^verbatim>\<open>toDuration\<close> of \<^verbatim>\<open>mrudp/Base.h\<close>.

  A \<^verbatim>\<open>float\<close> is a rational and every operation rounds its exact result to 24 significant bits, ties
  to even (53 bits for \<^verbatim>\<open>double\<close>), as IEEE 754 single-precision evaluation does. Subnormal spacing
  is kept; infinities and NaN do not arise because every value is a clamped or finite duration.
\<close>

section \<open>Rounding to a floating-point format\<close>

definition pow2 :: "int \<Rightarrow> rat" where
  "pow2 e = (if e \<ge> 0 then 2 ^ nat e else 1 / 2 ^ nat (- e))"

text \<open>The exponent of the leading bit of a positive integer, and of a positive rational.\<close>

function ilog2 :: "int \<Rightarrow> int" where
  "ilog2 n = (if n \<le> 1 then 0 else 1 + ilog2 (n div 2))"
  by pat_completeness auto
termination
  by (relation "measure nat") auto

declare ilog2.simps [simp del]

definition rexp :: "rat \<Rightarrow> int" where
  "rexp x = (case quotient_of x of (p, q) \<Rightarrow>
     (let e = ilog2 p - ilog2 q
      in if pow2 e \<le> x then e else e - 1))"

definition round_even :: "rat \<Rightarrow> int" where
  "round_even x =
     (let f = \<lfloor>x\<rfloor>; d = x - of_int f
      in if d < 1 / 2 then f else if d > 1 / 2 then f + 1 else if even f then f else f + 1)"

definition ulp_exp :: "int \<Rightarrow> int \<Rightarrow> rat \<Rightarrow> int" where
  "ulp_exp prec emin x = max (rexp x - (prec - 1)) emin"

definition fround_pos :: "int \<Rightarrow> int \<Rightarrow> rat \<Rightarrow> rat" where
  "fround_pos prec emin x =
     (let u = pow2 (ulp_exp prec emin x) in of_int (round_even (x / u)) * u)"

definition fround :: "int \<Rightarrow> int \<Rightarrow> rat \<Rightarrow> rat" where
  "fround prec emin x =
     (if x = 0 then 0 else if x < 0 then - fround_pos prec emin (- x) else fround_pos prec emin x)"

definition f32 :: "rat \<Rightarrow> rat" where "f32 = fround 24 (-149)"
definition f64 :: "rat \<Rightarrow> rat" where "f64 = fround 53 (-1074)"

definition trunc :: "rat \<Rightarrow> int" where
  "trunc x = (if x < 0 then - \<lfloor>- x\<rfloor> else \<lfloor>x\<rfloor>)"

section \<open>Rounding is monotone\<close>

lemma pow2_powi: "pow2 e = 2 powi e"
  by (simp add: pow2_def power_int_def inverse_eq_divide power_one_over)

lemma pow2_pos [simp]: "0 < pow2 e" "0 \<le> pow2 e" "pow2 e \<noteq> 0"
  by (simp_all add: pow2_def)

lemma pow2_add: "pow2 (a + b) = pow2 a * pow2 b"
  by (simp add: pow2_powi power_int_add)

lemma pow2_one_add: "pow2 (1 + e) = 2 * pow2 e"
proof -
  have "pow2 1 = 2" by (simp add: pow2_def)
  then show ?thesis by (simp only: pow2_add)
qed

lemma pow2_mono: "a \<le> b \<Longrightarrow> pow2 a \<le> pow2 b"
  by (simp add: pow2_powi power_int_increasing)

lemma pow2_nat: "pow2 (int n) = of_int (2 ^ n)"
  by (simp add: pow2_def)

lemma ilog2_nonneg: "0 \<le> ilog2 n"
  by (induction n rule: ilog2.induct) (simp add: ilog2.simps)

lemma ilog2_bounds:
  assumes "0 < n"
  shows "pow2 (ilog2 n) \<le> of_int n" and "of_int n < pow2 (ilog2 n + 1)"
  using assms
proof (induction n rule: ilog2.induct)
  case (1 n)
  { case 1
    show ?case
    proof (cases "n \<le> 1")
      case False
      have "2 * (n div 2) \<le> n" by simp
      then have "(of_int (2 * (n div 2)) :: rat) \<le> of_int n" by (simp only: of_int_le_iff)
      then have "2 * of_int (n div 2) \<le> (of_int n :: rat)" by simp
      moreover have "0 < n div 2" using False by linarith
      ultimately have "2 * pow2 (ilog2 (n div 2)) \<le> of_int n" using "1.IH"(1) [OF False] by linarith
      then show ?thesis using False by (subst ilog2.simps) (simp add: pow2_one_add add.assoc)
    qed (use 1 in \<open>simp add: ilog2.simps pow2_def\<close>)
  next
    case 2
    show ?case
    proof (cases "n \<le> 1")
      case False
      have "(of_int (n div 2) :: rat) < of_int (2 ^ nat (ilog2 (n div 2) + 1))"
        using "1.IH"(2) [OF False] False by (simp add: pow2_def ilog2_nonneg pos_imp_zdiv_pos_iff)
      then have "n div 2 < 2 ^ nat (ilog2 (n div 2) + 1)" by (simp only: of_int_less_iff)
      then have "n < 2 * 2 ^ nat (ilog2 (n div 2) + 1)" by linarith
      then have "(of_int n :: rat) < of_int (2 * 2 ^ nat (ilog2 (n div 2) + 1))" by (simp only: of_int_less_iff)
      then have "of_int n < 2 * pow2 (ilog2 (n div 2) + 1)" by (simp add: pow2_def ilog2_nonneg)
      then show ?thesis by (subst ilog2.simps) (simp only: False if_False add.assoc pow2_one_add)
    qed (use 2 in \<open>simp add: ilog2.simps pow2_def\<close>) }
qed

lemma rexp_bounds:
  assumes "0 < x"
  shows "pow2 (rexp x) \<le> x" and "x < pow2 (rexp x + 1)"
proof -
  obtain p q where pq: "quotient_of x = (p, q)" by (cases "quotient_of x")
  then have x: "x = of_int p / of_int q" and "0 < q"
    using quotient_of_div quotient_of_denom_pos by blast+
  with assms have "0 < p" by (simp add: zero_less_divide_iff)
  define a b where "a = ilog2 p" and "b = ilog2 q"
  have pb: "pow2 a \<le> of_int p" "of_int p < pow2 (a + 1)" and qb: "pow2 b \<le> of_int q" "of_int q < pow2 (b + 1)"
    using ilog2_bounds \<open>0 < p\<close> \<open>0 < q\<close> by (simp_all add: a_def b_def)
  have q0: "0 < (of_int q :: rat)" using \<open>0 < q\<close> by simp
  have "pow2 (a - b - 1) * of_int q \<le> pow2 (a - b - 1) * pow2 (b + 1)" using qb(2) by simp
  also have "\<dots> = pow2 a" by (simp flip: pow2_add)
  finally have lo: "pow2 (a - b - 1) \<le> x" using pb(1) q0 by (simp add: x pos_le_divide_eq)
  have "of_int p < pow2 (a - b + 1) * pow2 b" using pb(2) by (simp flip: pow2_add)
  also have "\<dots> \<le> pow2 (a - b + 1) * of_int q" using qb(1) by simp
  finally have hi: "x < pow2 (a - b + 1)" using q0 by (simp add: x pos_divide_less_eq)
  have r: "rexp x = (if pow2 (a - b) \<le> x then a - b else a - b - 1)"
    by (simp add: rexp_def pq a_def b_def)
  show "pow2 (rexp x) \<le> x" using lo by (simp add: r)
  show "x < pow2 (rexp x + 1)" using hi by (simp add: r)
qed

lemma rexp_mono: "0 < x \<Longrightarrow> x \<le> y \<Longrightarrow> rexp x \<le> rexp y"
proof (rule ccontr)
  assume *: "0 < x" "x \<le> y" "\<not> rexp x \<le> rexp y"
  then have "pow2 (rexp y + 1) \<le> pow2 (rexp x)" by (intro pow2_mono) simp
  with rexp_bounds(1) [of x] rexp_bounds(2) [of y] * show False by simp
qed

lemma round_even_bounds: "\<lfloor>x\<rfloor> \<le> round_even x" "round_even x \<le> \<lfloor>x\<rfloor> + 1"
  by (simp_all add: round_even_def Let_def)

lemma round_even_mono: "x \<le> y \<Longrightarrow> round_even x \<le> round_even y"
proof -
  assume "x \<le> y"
  then have f: "\<lfloor>x\<rfloor> \<le> \<lfloor>y\<rfloor>" by (rule floor_mono)
  show ?thesis
  proof (cases "\<lfloor>x\<rfloor> = \<lfloor>y\<rfloor>")
    case True
    with \<open>x \<le> y\<close> show ?thesis by (simp add: round_even_def Let_def)
  next
    case False
    with f show ?thesis using round_even_bounds(2) [of x] round_even_bounds(1) [of y] by linarith
  qed
qed

lemma round_even_of_int [simp]: "round_even (of_int n) = n"
  by (simp add: round_even_def)

lemma fround_pos_same: "x \<le> y \<Longrightarrow> ulp_exp prec emin x = ulp_exp prec emin y \<Longrightarrow>
    fround_pos prec emin x \<le> fround_pos prec emin y"
  by (auto simp: fround_pos_def Let_def intro!: round_even_mono divide_right_mono)

text \<open>A power of two not below the spacing is a value of the format.\<close>

lemma round_at_pow2:
  assumes "u \<le> e"
  shows "x \<le> pow2 e \<Longrightarrow> of_int (round_even (x / pow2 u)) * pow2 u \<le> pow2 e"
    and "pow2 e \<le> x \<Longrightarrow> pow2 e \<le> of_int (round_even (x / pow2 u)) * pow2 u"
proof -
  have pe: "pow2 e = of_int (2 ^ nat (e - u)) * pow2 u"
    using pow2_add [of "e - u" u] pow2_nat [of "nat (e - u)"] assms by simp
  then have q: "pow2 e / pow2 u = of_int (2 ^ nat (e - u))"
    using pow2_pos [of u] by simp
  have r: "round_even (pow2 e / pow2 u) = 2 ^ nat (e - u)" unfolding q by (rule round_even_of_int)
  show "of_int (round_even (x / pow2 u)) * pow2 u \<le> pow2 e" if "x \<le> pow2 e"
    using round_even_mono [of "x / pow2 u" "pow2 e / pow2 u"] that unfolding r
    by (subst pe) (simp add: divide_right_mono del: of_int_power)
  show "pow2 e \<le> of_int (round_even (x / pow2 u)) * pow2 u" if "pow2 e \<le> x"
    using round_even_mono [of "pow2 e / pow2 u" "x / pow2 u"] that unfolding r
    by (subst pe) (simp add: divide_right_mono del: of_int_power)
qed

lemma fround_pos_mono:
  assumes "1 \<le> prec" and "0 < x" and "x \<le> y"
  shows "fround_pos prec emin x \<le> fround_pos prec emin y"
proof (cases "ulp_exp prec emin x = ulp_exp prec emin y")
  case True
  with assms show ?thesis by (intro fround_pos_same)
next
  case False
  with rexp_mono [OF assms(2,3)] have e: "rexp x < rexp y" and u: "ulp_exp prec emin y = rexp y - (prec - 1)"
    "ulp_exp prec emin x \<le> rexp y"
    using assms(1) by (auto simp: ulp_exp_def max_def split: if_splits)
  have "x \<le> pow2 (rexp y)"
    using rexp_bounds(2) [OF assms(2)] pow2_mono [of "rexp x + 1" "rexp y"] e by simp
  then have "fround_pos prec emin x \<le> pow2 (rexp y)"
    using round_at_pow2(1) [OF u(2), of x] by (simp add: fround_pos_def Let_def)
  also have "\<dots> \<le> fround_pos prec emin y"
    using round_at_pow2(2) [of "ulp_exp prec emin y" "rexp y" y] rexp_bounds(1) [of y] assms u(1)
    by (simp add: fround_pos_def Let_def)
  finally show ?thesis .
qed

lemma fround_pos_nonneg: "0 < x \<Longrightarrow> 0 \<le> fround_pos prec emin x"
proof -
  assume "0 < x"
  then have "0 \<le> x / pow2 (ulp_exp prec emin x)" by simp
  then have "round_even 0 \<le> round_even (x / pow2 (ulp_exp prec emin x))" by (rule round_even_mono)
  moreover have "round_even 0 = 0" using round_even_of_int [of 0] by simp
  ultimately show ?thesis by (simp add: fround_pos_def Let_def)
qed

lemma f32_mono: "0 \<le> x \<Longrightarrow> x \<le> y \<Longrightarrow> f32 x \<le> f32 y"
  using fround_pos_mono [of 24 x y "-149"] fround_pos_nonneg [of y 24 "-149"]
  by (auto simp: f32_def fround_def)

lemma f32_nonneg: "0 \<le> x \<Longrightarrow> 0 \<le> f32 x"
  using f32_mono [of 0 x] by (simp add: f32_def fround_def)

lemma trunc_mono: "0 \<le> x \<Longrightarrow> x \<le> y \<Longrightarrow> trunc x \<le> trunc y"
  by (simp add: trunc_def floor_mono)

section \<open>Round-trip time and send window\<close>

text \<open>The compile-time constants are the \<^verbatim>\<open>float\<close> values of their literals.\<close>

definition rtt_a :: rat where "rtt_a = f32 (9 / 10)"
definition rtt_b :: rat where "rtt_b = f32 (1 - rtt_a)"
definition rtt_maximum :: rat where "rtt_maximum = f32 1"
definition rtt_minimum :: rat where "rtt_minimum = f32 (5 / 1000)"

definition rtt_initial :: rat where "rtt_initial = rtt_maximum"

definition rtt_calculate :: "rat \<Rightarrow> rat \<Rightarrow> rat" where
  "rtt_calculate duration sample =
     min rtt_maximum (max rtt_minimum (f32 (f32 (rtt_a * duration) + f32 (rtt_b * sample))))"

definition rtt_onSample :: "rat \<Rightarrow> rat \<Rightarrow> rat" where
  "rtt_onSample sample duration = rtt_calculate duration sample"

definition rtt_onAckFailure :: "rat \<Rightarrow> rat" where
  "rtt_onAckFailure duration = rtt_onSample rtt_maximum duration"

definition window_minimum :: nat where [simp]: "window_minimum = 3"
definition window_maximum :: nat where [simp]: "window_maximum = 1024"

definition window_onSample :: "rat \<Rightarrow> nat" where
  "window_onSample rtt = min window_maximum (max window_minimum (nat (trunc (f32 (2 / rtt)))))"

definition calculateRetryDuration :: "rat \<Rightarrow> rat" where
  "calculateRetryDuration rtt = f32 (f32 (2 * rtt) + f32 (30 / 1000))"

definition toDuration :: "rat \<Rightarrow> duration" where
  "toDuration v = trunc (f32 (v * 1000))"

text \<open>\<^verbatim>\<open>std::chrono::duration_cast<std::chrono::duration<float>>\<close> of a difference of clock readings.\<close>

definition seconds_of :: "int \<Rightarrow> rat" where
  "seconds_of ns = f32 (f32 (of_int ns) / 1000000000)"

text \<open>
  The loop of \<^verbatim>\<open>Probe::recalculateProbeTimeout\<close>: \<open>k\<close> more attempts from a round-trip time and the
  sum so far.
\<close>

fun probe_attempts :: "nat \<Rightarrow> rat \<Rightarrow> rat \<Rightarrow> rat" where
  "probe_attempts 0 rtt timeout = timeout"
| "probe_attempts (Suc k) rtt timeout =
     (let rtt' = rtt_calculate rtt rtt_maximum
      in probe_attempts k rtt' (f32 (timeout + calculateRetryDuration rtt')))"

text \<open>Division of \<^verbatim>\<open>int\<close>s truncates towards zero.\<close>

definition half_attempts :: "int \<Rightarrow> int" where
  "half_attempts maximumAttempts = (if maximumAttempts + 1 < 0 then - ((- (maximumAttempts + 1)) div 2)
     else (maximumAttempts + 1) div 2)"

definition recalculateProbeInterval :: "int \<Rightarrow> int \<Rightarrow> duration" where
  "recalculateProbeInterval maximumAttempts probe_delay_ms =
     (let timeout = probe_attempts (nat (half_attempts maximumAttempts)) rtt_minimum (calculateRetryDuration rtt_minimum);
          timeout' = (if probe_delay_ms > 0 then f32 (f64 (timeout + f64 (of_int probe_delay_ms / 1000))) else timeout)
      in toDuration timeout')"

text \<open>Measured constants.\<close>

lemma rtt_constants:
  "rtt_maximum = 1" "rtt_minimum = 5368709 / 1073741824" "0 < rtt_minimum" "rtt_minimum \<le> rtt_maximum"
  by code_simp+

lemma rtt_in_range: "rtt_minimum \<le> rtt_calculate d s" "rtt_calculate d s \<le> rtt_maximum"
  using rtt_constants(4) by (simp_all add: rtt_calculate_def)

lemma f32_two_over_minimum: "f32 (2 / rtt_minimum) = 400"
  by code_simp

lemma window_bounds:
  assumes "rtt_minimum \<le> rtt" and "rtt \<le> rtt_maximum"
  shows "3 \<le> window_onSample rtt" and "window_onSample rtt \<le> 400"
proof -
  have pos: "0 < rtt" using assms(1) rtt_constants(3) by simp
  then have "2 / rtt \<le> 2 / rtt_minimum" using assms(1) rtt_constants(3) by (intro divide_left_mono) simp_all
  with pos have "f32 (2 / rtt) \<le> 400" using f32_mono [of "2 / rtt" "2 / rtt_minimum"] f32_two_over_minimum by simp
  then have "trunc (f32 (2 / rtt)) \<le> trunc 400" using f32_nonneg [of "2 / rtt"] pos by (intro trunc_mono) simp_all
  then show "3 \<le> window_onSample rtt" and "window_onSample rtt \<le> 400"
    by (simp_all add: window_onSample_def trunc_def)
qed

section \<open>Rounded values are fixed points of rounding\<close>

lemma fround_pos_integral:
  assumes "0 < y" and "y = of_int n * pow2 k" and "ulp_exp prec emin y \<le> k"
  shows "fround_pos prec emin y = y"
proof -
  let ?u = "ulp_exp prec emin y"
  have "pow2 k = of_int (2 ^ nat (k - ?u)) * pow2 ?u"
    using pow2_add [of "k - ?u" ?u] pow2_nat [of "nat (k - ?u)"] assms(3) by simp
  then have y: "y = of_int (n * 2 ^ nat (k - ?u)) * pow2 ?u" by (subst assms(2)) simp
  then have "y / pow2 ?u = of_int (n * 2 ^ nat (k - ?u))" by (simp add: divide_eq_eq del: of_int_mult)
  then have "round_even (y / pow2 ?u) = n * 2 ^ nat (k - ?u)" by (simp only: round_even_of_int)
  then show ?thesis using y by (simp add: fround_pos_def Let_def)
qed

lemma ulp_exp_above:
  assumes "1 \<le> prec" and "0 < x" and "y = fround_pos prec emin x" and "0 < y"
    and "ulp_exp prec emin x < ulp_exp prec emin y" and "ulp_exp prec emin x \<le> rexp x + 1"
  shows "y = pow2 (rexp x + 1)" and "ulp_exp prec emin y \<le> rexp x + 1"
proof -
  have le: "y \<le> pow2 (rexp x + 1)"
    using round_at_pow2(1) [OF assms(6), of x] rexp_bounds(2) [OF assms(2)]
    by (simp add: assms(3) fround_pos_def Let_def)
  have r: "rexp x < rexp y" and u: "ulp_exp prec emin y = rexp y - (prec - 1)"
    using assms(5) by (auto simp: ulp_exp_def max_def split: if_splits)
  have "pow2 (rexp x + 1) \<le> pow2 (rexp y)" using r by (intro pow2_mono) simp
  with rexp_bounds(1) [OF assms(4)] le show y: "y = pow2 (rexp x + 1)" by simp
  have "rexp y \<le> rexp x + 1"
  proof (rule ccontr)
    assume "\<not> ?thesis"
    then have "pow2 (1 + (rexp x + 1)) \<le> pow2 (rexp y)" by (intro pow2_mono) simp
    then have "2 * pow2 (rexp x + 1) \<le> pow2 (rexp y)" by (simp only: pow2_one_add)
    with rexp_bounds(1) [OF assms(4)] have "2 * pow2 (rexp x + 1) \<le> pow2 (rexp x + 1)" using y by linarith
    with pow2_pos(1) [of "rexp x + 1"] show False by linarith
  qed
  with u assms(1) show "ulp_exp prec emin y \<le> rexp x + 1" by simp
qed

lemma fround_pos_tiny:
  assumes "0 < x" and "rexp x + 1 < ulp_exp prec emin x"
  shows "fround_pos prec emin x = 0"
proof -
  let ?u = "ulp_exp prec emin x"
  have "pow2 (1 + (rexp x + 1)) \<le> pow2 ?u" using assms(2) by (intro pow2_mono) simp
  then have "2 * x < pow2 ?u" using rexp_bounds(2) [OF assms(1)] unfolding pow2_one_add by simp
  then have "x / pow2 ?u < 1 / 2" by (simp add: pos_divide_less_eq)
  moreover have "0 \<le> x / pow2 ?u" using assms(1) by simp
  ultimately have "\<lfloor>x / pow2 ?u\<rfloor> = 0" "x / pow2 ?u < 1 / 2" by linarith+
  then have "round_even (x / pow2 ?u) = 0" by (simp add: round_even_def)
  then show ?thesis by (simp add: fround_pos_def Let_def)
qed

lemma fround_pos_idem:
  assumes "1 \<le> prec" and "0 < x" and "0 < fround_pos prec emin x"
  shows "fround_pos prec emin (fround_pos prec emin x) = fround_pos prec emin x"
proof (cases "ulp_exp prec emin (fround_pos prec emin x) \<le> ulp_exp prec emin x")
  case True
  show ?thesis by (rule fround_pos_integral [OF assms(3) _ True]) (simp add: fround_pos_def Let_def)
next
  case False
  define y where "y = fround_pos prec emin x"
  have "ulp_exp prec emin x \<le> rexp x + 1" using fround_pos_tiny [OF assms(2), of prec emin] assms(3) by linarith
  note * = ulp_exp_above [OF assms(1,2) y_def _ _ this]
  have "y = of_int 1 * pow2 (rexp x + 1)" using * assms(3) False by (simp add: y_def)
  from fround_pos_integral [OF _ this] * assms(3) False show ?thesis by (simp add: y_def)
qed

lemma f32_idem: "0 \<le> x \<Longrightarrow> f32 (f32 x) = f32 x"
  using fround_pos_idem [of 24 x "-149"] fround_pos_nonneg [of x 24 "-149"]
  by (cases "fround_pos 24 (-149) x = 0") (auto simp: f32_def fround_def)

section \<open>Properties\<close>

definition rtt_run :: "rat list \<Rightarrow> rat" where
  "rtt_run samples = fold rtt_onSample samples rtt_initial"

lemma rtt_run_in_range: "rtt_minimum \<le> rtt_run samples \<and> rtt_run samples \<le> rtt_maximum"
proof (cases samples rule: rev_cases)
  case Nil
  then show ?thesis using rtt_constants(4) by (simp add: rtt_run_def rtt_initial_def)
next
  case (snoc ys y)
  then show ?thesis using rtt_in_range by (simp add: rtt_run_def rtt_onSample_def)
qed

text \<open>
  After any sequence of round-trip samples (an ack failure is a sample of the maximum), the
  smoothed round-trip time is between its minimum and maximum and the send window computed from it
  is between 3 and 400 packets: the declared window maximum of 1024 is never reached.
\<close>

theorem send_window_bounds:
  "rtt_minimum \<le> rtt_run samples \<and> rtt_run samples \<le> rtt_maximum
   \<and> 3 \<le> window_onSample (rtt_run samples) \<and> window_onSample (rtt_run samples) \<le> 400"
  using rtt_run_in_range [of samples] window_bounds by blast

lemma rtt_a_nonneg: "0 \<le> rtt_a" "0 \<le> rtt_b * rtt_maximum"
  by code_simp+

lemma calculateRetryDuration_nonneg: "0 \<le> r \<Longrightarrow> 0 \<le> calculateRetryDuration r"
  by (simp add: calculateRetryDuration_def f32_nonneg)

lemma calculateRetryDuration_mono: "0 \<le> r \<Longrightarrow> r \<le> s \<Longrightarrow> calculateRetryDuration r \<le> calculateRetryDuration s"
  unfolding calculateRetryDuration_def by (intro f32_mono add_mono add_nonneg_nonneg f32_nonneg) simp_all

lemma toDuration_mono: "0 \<le> v \<Longrightarrow> v \<le> w \<Longrightarrow> toDuration v \<le> toDuration w"
  unfolding toDuration_def by (intro trunc_mono f32_nonneg f32_mono) simp_all

lemma rtt_calculate_mono: "0 \<le> r \<Longrightarrow> r \<le> s \<Longrightarrow> rtt_calculate r rtt_maximum \<le> rtt_calculate s rtt_maximum"
proof -
  assume "0 \<le> r" "r \<le> s"
  then have "rtt_a * r \<le> rtt_a * s" "0 \<le> rtt_a * r" using rtt_a_nonneg(1) by (simp_all add: mult_left_mono)
  then have "f32 (f32 (rtt_a * r) + f32 (rtt_b * rtt_maximum)) \<le> f32 (f32 (rtt_a * s) + f32 (rtt_b * rtt_maximum))"
    by (intro f32_mono add_nonneg_nonneg f32_nonneg rtt_a_nonneg add_mono order_refl)
  then show ?thesis by (auto simp: rtt_calculate_def min_def max_def)
qed

lemma rtt_calculate_nonneg: "0 \<le> rtt_calculate r s"
  using rtt_in_range(1) [of r s] rtt_constants(3) by simp

lemma retry_duration_range:
  assumes "rtt_minimum \<le> rtt" and "rtt \<le> rtt_maximum"
  shows "40 \<le> toDuration (calculateRetryDuration rtt) \<and> toDuration (calculateRetryDuration rtt) \<le> 2030"
proof -
  have "toDuration (calculateRetryDuration rtt_minimum) = 40" "toDuration (calculateRetryDuration rtt_maximum) = 2030"
    by code_simp+
  with toDuration_mono [of "calculateRetryDuration rtt_minimum" "calculateRetryDuration rtt"]
    toDuration_mono [of "calculateRetryDuration rtt" "calculateRetryDuration rtt_maximum"]
  show ?thesis using assms rtt_constants(3)
    by (simp add: calculateRetryDuration_mono calculateRetryDuration_nonneg)
qed

text \<open>
  The interval between retries, computed from a round-trip time in range, is between 40 ms
  and 2030 ms.
\<close>

theorem retry_interval_bounds:
  assumes "rtt_minimum \<le> rtt" and "rtt \<le> rtt_maximum"
  shows "40 \<le> toDuration (calculateRetryDuration rtt) \<and> toDuration (calculateRetryDuration rtt) \<le> 2030"
  using retry_duration_range [OF assms] .

theorem retry_interval_bounds_witness:
  "40 \<le> toDuration (calculateRetryDuration (1 / 2)) \<and> toDuration (calculateRetryDuration (1 / 2)) \<le> 2030"
  by (rule retry_interval_bounds) (simp_all add: rtt_constants(1,2))

text \<open>\<open>t\<close> is a rounded value: adding a non-negative amount to it does not make it smaller.\<close>

lemma f32_add_ge: "f32 t = t \<Longrightarrow> 0 \<le> t \<Longrightarrow> 0 \<le> d \<Longrightarrow> t \<le> f32 (t + d)"
  using f32_mono [of t "t + d"] by simp

lemma f32_retry: "0 \<le> r \<Longrightarrow> f32 (calculateRetryDuration r) = calculateRetryDuration r"
  unfolding calculateRetryDuration_def by (intro f32_idem add_nonneg_nonneg f32_nonneg) simp_all

lemma probe_attempts_ge:
  "f32 t = t \<Longrightarrow> 0 \<le> t \<Longrightarrow> t \<le> probe_attempts k r t"
proof (induction k arbitrary: r t)
  case (Suc k)
  let ?r = "rtt_calculate r rtt_maximum"
  have d: "0 \<le> calculateRetryDuration ?r" by (simp add: calculateRetryDuration_nonneg rtt_calculate_nonneg)
  then have "t \<le> f32 (t + calculateRetryDuration ?r)" using Suc.prems by (intro f32_add_ge)
  also have "\<dots> \<le> probe_attempts k ?r (f32 (t + calculateRetryDuration ?r))"
    using Suc.prems d by (intro Suc.IH) (simp_all add: f32_idem f32_nonneg)
  finally show ?case by (simp add: Let_def)
qed simp

lemma probe_attempts_mono:
  "0 \<le> r \<Longrightarrow> r \<le> r' \<Longrightarrow> 0 \<le> t \<Longrightarrow> t \<le> t' \<Longrightarrow> f32 t' = t' \<Longrightarrow> k \<le> k' \<Longrightarrow>
   probe_attempts k r t \<le> probe_attempts k' r' t'"
proof (induction k arbitrary: r r' t t' k')
  case 0
  then have "t' \<le> probe_attempts k' r' t'" by (intro probe_attempts_ge) simp_all
  with 0 show ?case by simp
next
  case (Suc k)
  then obtain m where k': "k' = Suc m" "k \<le> m" by (cases k') auto
  let ?r = "rtt_calculate r rtt_maximum" and ?r' = "rtt_calculate r' rtt_maximum"
  have r: "?r \<le> ?r'" "0 \<le> ?r" using Suc.prems by (simp_all add: rtt_calculate_mono rtt_calculate_nonneg)
  then have d: "0 \<le> calculateRetryDuration ?r" "calculateRetryDuration ?r \<le> calculateRetryDuration ?r'"
    by (simp_all add: calculateRetryDuration_nonneg calculateRetryDuration_mono)
  have "f32 (t + calculateRetryDuration ?r) \<le> f32 (t' + calculateRetryDuration ?r')"
    using Suc.prems d by (intro f32_mono add_mono) simp_all
  then show ?case using Suc.prems d r k'(2) unfolding k'(1) probe_attempts.simps Let_def
    by (intro Suc.IH) (simp_all add: f32_idem f32_nonneg)
qed

text \<open>
  With no extra probe delay, the probe interval is not longer than the time in which a peer
  with the same attempt limit, whatever its round-trip time, runs through all its retry
  attempts: a probe goes out before the peer gives the connection up.
\<close>

theorem probe_before_timeout:
  assumes "rtt_minimum \<le> rtt" and "0 \<le> maximumAttempts"
  shows "recalculateProbeInterval maximumAttempts 0
       \<le> toDuration (probe_attempts (nat maximumAttempts) rtt (calculateRetryDuration rtt))"
proof -
  have r: "0 \<le> rtt_minimum" "0 \<le> rtt" using assms(1) rtt_constants(3) by simp_all
  have k: "nat (half_attempts maximumAttempts) \<le> nat maximumAttempts" using assms(2) by (simp add: half_attempts_def)
  have t: "0 \<le> calculateRetryDuration rtt_minimum" using r by (simp add: calculateRetryDuration_nonneg)
  have "probe_attempts (nat (half_attempts maximumAttempts)) rtt_minimum (calculateRetryDuration rtt_minimum)
      \<le> probe_attempts (nat maximumAttempts) rtt (calculateRetryDuration rtt)"
    using r assms(1) t k by (intro probe_attempts_mono) (simp_all add: calculateRetryDuration_mono f32_retry)
  moreover have "0 \<le> probe_attempts (nat (half_attempts maximumAttempts)) rtt_minimum (calculateRetryDuration rtt_minimum)"
    using probe_attempts_ge [OF f32_retry [OF r(1)] t] t order_trans by blast
  ultimately show ?thesis by (simp add: recalculateProbeInterval_def toDuration_mono)
qed

theorem probe_before_timeout_witness:
  "recalculateProbeInterval 5 0 = 1276 \<and> recalculateProbeInterval 5 0
     \<le> toDuration (probe_attempts 5 (1 / 10) (calculateRetryDuration (1 / 10)))"
proof
  show "recalculateProbeInterval 5 0 = 1276" by code_simp
  show "recalculateProbeInterval 5 0 \<le> toDuration (probe_attempts 5 (1 / 10) (calculateRetryDuration (1 / 10)))"
    using probe_before_timeout [of "1 / 10" 5] by (simp add: rtt_constants(2))
qed

end
