(* ===== verification/Retrier.thy ===== *)
theory Retrier
  imports Timing
begin

text \<open>
  The window of reliable packets that wait for their acks: \<^verbatim>\<open>mrudp/sender/Retrier.h\<close> and
  \<^verbatim>\<open>mrudp/sender/Retrier.cpp\<close>, except for \<^verbatim>\<open>onRetryTimeout\<close>, which acts on the whole connection and
  is in theory \<^verbatim>\<open>Connection_Close\<close>. An operation that schedules the retry timeout returns the time it schedules.

  A packet is sent from the window with its connection identifier written at the moment of the
  send, so that the window may hold the packets by value.
\<close>

section \<open>State and operations\<close>

type_synonym PacketPath = "Packet \<times> Address option"
type_synonym MultiPacketPath = "PacketPath list"

record Retry =
  rt_paths :: MultiPacketPath
  rt_sentAt :: timepoint
  rt_retryAt :: timepoint
  rt_attempts :: nat
  rt_priority :: bool

record Retrier =
  re_status :: OpenStatus
  re_window :: "(PacketID, Retry) om"
  re_priority :: "(PacketID, unit) om"

definition new_Retrier :: Retrier where
  "new_Retrier = \<lparr>re_status = IS_OPEN, re_window = [], re_priority = []\<rparr>"

definition re_close :: "Retrier \<Rightarrow> Retrier" where
  "re_close r = (if re_status r \<noteq> IS_CLOSED then r\<lparr>re_status := IS_CLOSED, re_window := []\<rparr> else r)"

definition getNextRetry :: "Retrier \<Rightarrow> (PacketID \<times> Retry) option" where
  "getNextRetry r =
     (case re_window r of
        [] \<Rightarrow> None
      | first # _ \<Rightarrow>
          (case om_begin (re_priority r) of
             Some i \<Rightarrow> map_option (\<lambda>retry. (i, retry)) (om_find (re_window r) i)
           | None \<Rightarrow> Some first))"

definition set_retry :: "PacketID \<Rightarrow> Retry \<Rightarrow> Retrier \<Rightarrow> Retrier" where
  "set_retry i retry r = r\<lparr>re_window := om_assign i retry (re_window r)\<rparr>"

definition recalculateRetryTimeout :: "rat \<Rightarrow> Retrier \<Rightarrow> timepoint option \<times> Retrier" where
  "recalculateRetryTimeout rtt r =
     (case getNextRetry r of
        None \<Rightarrow> (None, r)
      | Some (i, retry) \<Rightarrow>
          (let retryAt = rt_sentAt retry + millis (toDuration (calculateRetryDuration rtt))
           in (Some retryAt, set_retry i (retry\<lparr>rt_retryAt := retryAt\<rparr>) r)))"

definition paths_id :: "MultiPacketPath \<Rightarrow> PacketID" where
  "paths_id paths = pk_id (fst (hd paths))"

definition re_insert :: "rat \<Rightarrow> MultiPacketPath \<Rightarrow> timepoint \<Rightarrow> bool \<Rightarrow> Retrier \<Rightarrow> timepoint option \<times> Retrier" where
  "re_insert rtt paths now priority r =
     (if re_status r = IS_CLOSED then (None, r)
      else let wasEmpty = (re_window r = []);
               i = paths_id paths;
               retry = \<lparr>rt_paths = paths, rt_sentAt = now, rt_retryAt = 0, rt_attempts = 0, rt_priority = priority\<rparr>;
               r1 = r\<lparr>re_window := om_emplace i retry (re_window r),
                      re_priority := (if priority then om_emplace i () (re_priority r) else re_priority r)\<rparr>
           in if wasEmpty \<or> priority then recalculateRetryTimeout rtt r1 else (None, r1))"

record AckResult =
  ar_contained :: bool
  ar_needsRetryTimeoutRecalculation :: bool
  ar_rtt :: rat

definition re_ack :: "PacketID \<Rightarrow> timepoint \<Rightarrow> u16 \<Rightarrow> Retrier \<Rightarrow> AckResult \<times> Retrier" where
  "re_ack packetID now delayedMS r =
     (case om_find (re_window r) packetID of
        None \<Rightarrow> (\<lparr>ar_contained = False, ar_needsRetryTimeoutRecalculation = False, ar_rtt = 0\<rparr>, r)
      | Some retry \<Rightarrow>
          (\<lparr>ar_contained = True,
            ar_needsRetryTimeoutRecalculation = (om_begin (re_window r) = Some packetID \<or> rt_priority retry),
            ar_rtt = seconds_of (now - rt_sentAt retry - millis (int (unat delayedMS)))\<rparr>,
           r\<lparr>re_window := om_erase packetID (re_window r),
             re_priority := (if rt_priority retry then om_erase packetID (re_priority r) else re_priority r)\<rparr>))"

definition numUnacked :: "Retrier \<Rightarrow> nat" where
  "numUnacked r = length (re_window r)"

definition re_empty :: "Retrier \<Rightarrow> bool" where
  "re_empty r \<longleftrightarrow> re_window r = []"

text \<open>\<^verbatim>\<open>retry->attempts >= maximumAttempts\<close> compares a \<^verbatim>\<open>size_t\<close> with an \<^verbatim>\<open>int16_t\<close>, which is converted.\<close>

definition attempts_exhausted :: "int \<Rightarrow> nat \<Rightarrow> bool" where
  "attempts_exhausted maximumAttempts attempts \<longleftrightarrow> unat (word_of_int maximumAttempts :: u64) \<le> attempts"

section \<open>Invariant\<close>

definition outstanding :: "Retrier \<Rightarrow> PacketID set" where
  "outstanding r = dom (om_find (re_window r))"

text \<open>
  The priority set holds the identifiers of the priority packets of the window; a closed retrier
  has an empty window (its priority set is left as it was).
\<close>

definition retrier_inv :: "Retrier \<Rightarrow> bool" where
  "retrier_inv r \<longleftrightarrow> om_inv (re_window r) \<and> om_inv (re_priority r) \<and>
     (if re_status r = IS_CLOSED then re_window r = []
      else \<forall>i. i \<in> dom (om_find (re_priority r)) \<longleftrightarrow>
             (\<exists>retry. om_find (re_window r) i = Some retry \<and> rt_priority retry))"

lemma retrier_inv_om: "retrier_inv r \<Longrightarrow> om_inv (re_window r)" "retrier_inv r \<Longrightarrow> om_inv (re_priority r)"
  by (simp_all add: retrier_inv_def)

lemma retrier_inv_new [wf_intros]: "retrier_inv new_Retrier"
  by (simp add: new_Retrier_def retrier_inv_def om_inv_Nil)

lemma retrier_inv_close [wf_intros]: "retrier_inv r \<Longrightarrow> retrier_inv (re_close r)"
  by (simp add: retrier_inv_def re_close_def om_inv_Nil)

lemma retrier_inv_set_retry [wf_intros]:
  assumes "retrier_inv r" and "om_find (re_window r) i = Some old" and "rt_priority new = rt_priority old"
  shows "retrier_inv (set_retry i new r)"
  using assms by (auto simp: retrier_inv_def set_retry_def om.om_invs om.om_finds)

lemma numUnacked_card: "retrier_inv r \<Longrightarrow> numUnacked r = card (outstanding r)"
  by (simp add: numUnacked_def outstanding_def retrier_inv_def om.size_card)

lemma outstanding_set_retry:
  "retrier_inv r \<Longrightarrow> i \<in> outstanding r \<Longrightarrow> outstanding (set_retry i new r) = outstanding r"
  by (auto simp: outstanding_def set_retry_def retrier_inv_def om.dom_assign)

lemma set_retry_status [simp]: "re_status (set_retry i new r) = re_status r"
  by (simp add: set_retry_def)

lemma getNextRetry_None: "retrier_inv r \<Longrightarrow> getNextRetry r = None \<longleftrightarrow> re_window r = []"
proof -
  assume inv: "retrier_inv r"
  show ?thesis
  proof (cases "om_begin (re_priority r)")
    case (Some i)
    then have "i \<in> dom (om_find (re_priority r))" using inv om.begin_Some retrier_inv_om(2) by blast
    then show ?thesis using inv Some
      by (cases "re_window r") (auto simp: getNextRetry_def retrier_inv_def split: if_splits)
  qed (simp add: getNextRetry_def split: list.splits)
qed

lemma getNextRetry_Some:
  assumes "retrier_inv r" and "getNextRetry r = Some (i, retry)"
  shows "om_find (re_window r) i = Some retry"
  using assms by (auto simp: getNextRetry_def om_find_def om_begin_def split: list.splits option.splits)

lemma recalculate_state:
  assumes "retrier_inv r"
  shows "retrier_inv (snd (recalculateRetryTimeout rtt r))
    \<and> outstanding (snd (recalculateRetryTimeout rtt r)) = outstanding r
    \<and> re_status (snd (recalculateRetryTimeout rtt r)) = re_status r"
proof (cases "getNextRetry r")
  case (Some e)
  obtain i retry where e: "e = (i, retry)" by (cases e)
  have f: "om_find (re_window r) i = Some retry" using getNextRetry_Some assms Some e by blast
  then have "i \<in> outstanding r" by (auto simp: outstanding_def)
  then show ?thesis using assms Some e retrier_inv_set_retry [OF assms f]
    by (simp add: recalculateRetryTimeout_def Let_def outstanding_set_retry)
qed (use assms in \<open>simp add: recalculateRetryTimeout_def\<close>)

lemma re_insert_state:
  assumes "retrier_inv r" and "re_status r = IS_OPEN" and "paths_id paths \<notin> outstanding r"
  shows "retrier_inv (snd (re_insert rtt paths now priority r))
    \<and> outstanding (snd (re_insert rtt paths now priority r)) = insert (paths_id paths) (outstanding r)
    \<and> re_status (snd (re_insert rtt paths now priority r)) = IS_OPEN"
proof -
  let ?i = "paths_id paths"
  let ?retry = "\<lparr>rt_paths = paths, rt_sentAt = now, rt_retryAt = 0, rt_attempts = 0, rt_priority = priority\<rparr>"
  define r1 where "r1 = r\<lparr>re_window := om_emplace ?i ?retry (re_window r),
      re_priority := (if priority then om_emplace ?i () (re_priority r) else re_priority r)\<rparr>"
  have fresh: "om_find (re_window r) ?i = None" using assms(3) by (auto simp: outstanding_def)
  have "retrier_inv r1" using assms(1,2) fresh
    by (auto simp: r1_def retrier_inv_def om.om_invs om.om_finds om.dom_emplace split: if_splits)
  moreover have "outstanding r1 = insert ?i (outstanding r)" "re_status r1 = IS_OPEN"
    using assms(1,2) by (simp_all add: r1_def outstanding_def om.dom_emplace retrier_inv_def)
  moreover have "re_insert rtt paths now priority r =
      (if re_window r = [] \<or> priority then recalculateRetryTimeout rtt r1 else (None, r1))"
    using assms(2) by (simp add: re_insert_def Let_def r1_def)
  ultimately show ?thesis using recalculate_state [of r1 rtt] by simp
qed

lemma re_ack_state:
  assumes "retrier_inv r"
  shows "retrier_inv (snd (re_ack i now d r)) \<and> outstanding (snd (re_ack i now d r)) = outstanding r - {i}
    \<and> re_status (snd (re_ack i now d r)) = re_status r"
proof (cases "om_find (re_window r) i")
  case None
  then show ?thesis using assms by (auto simp: re_ack_def outstanding_def)
next
  case (Some retry)
  then have "re_status r \<noteq> IS_CLOSED" using assms by (auto simp: retrier_inv_def om_find_def split: if_splits)
  then have "retrier_inv (snd (re_ack i now d r))" using assms Some
    by (auto simp: re_ack_def retrier_inv_def om.om_invs om.om_finds om.dom_erase split: if_splits)
  then show ?thesis using retrier_inv_om(1) [OF assms] Some
    by (simp add: re_ack_def outstanding_def om.dom_erase)
qed

section \<open>The contract of an ack window\<close>

text \<open>
  What the sender relies on: an inserted packet is outstanding until it is acked. The identifiers
  come from a counter, so that an inserted identifier is not outstanding.
\<close>

datatype 'p window_op = Insert 'p | Ack PacketID

fun inserted :: "('p \<Rightarrow> PacketID) \<Rightarrow> 'p window_op list \<Rightarrow> PacketID set" where
  "inserted key [] = {}"
| "inserted key (Insert p # ops) = insert (key p) (inserted key ops)"
| "inserted key (Ack i # ops) = inserted key ops"

text \<open>The identifiers inserted by a sequence of operations and not acked afterwards.\<close>

fun pending :: "('p \<Rightarrow> PacketID) \<Rightarrow> PacketID set \<Rightarrow> 'p window_op list \<Rightarrow> PacketID set" where
  "pending key W [] = W"
| "pending key W (Insert p # ops) = pending key (insert (key p) W) ops"
| "pending key W (Ack i # ops) = pending key (W - {i}) ops"

fun fresh_ops :: "('p \<Rightarrow> PacketID) \<Rightarrow> PacketID set \<Rightarrow> 'p window_op list \<Rightarrow> bool" where
  "fresh_ops key W [] = True"
| "fresh_ops key W (Insert p # ops) = (key p \<notin> W \<and> fresh_ops key (insert (key p) W) ops)"
| "fresh_ops key W (Ack i # ops) = fresh_ops key (W - {i}) ops"

fun window_run :: "('p \<Rightarrow> 's \<Rightarrow> 's) \<Rightarrow> (PacketID \<Rightarrow> 's \<Rightarrow> 's) \<Rightarrow> 's \<Rightarrow> 'p window_op list \<Rightarrow> 's" where
  "window_run ins ack s [] = s"
| "window_run ins ack s (Insert p # ops) = window_run ins ack (ins p s) ops"
| "window_run ins ack s (Ack i # ops) = window_run ins ack (ack i s) ops"

locale ack_window =
  fixes ins :: "'p \<Rightarrow> 's \<Rightarrow> 's"
    and ack :: "PacketID \<Rightarrow> 's \<Rightarrow> 's"
    and key :: "'p \<Rightarrow> PacketID"
    and waiting :: "'s \<Rightarrow> PacketID set"
    and inv :: "'s \<Rightarrow> bool"
  assumes inv_ins: "inv s \<Longrightarrow> key p \<notin> waiting s \<Longrightarrow> inv (ins p s)"
    and waiting_ins: "inv s \<Longrightarrow> key p \<notin> waiting s \<Longrightarrow> waiting (ins p s) = insert (key p) (waiting s)"
    and inv_ack: "inv s \<Longrightarrow> inv (ack i s)"
    and waiting_ack: "inv s \<Longrightarrow> waiting (ack i s) = waiting s - {i}"
begin

lemma run_pending:
  "inv s \<Longrightarrow> fresh_ops key (waiting s) ops \<Longrightarrow>
   inv (window_run ins ack s ops) \<and> waiting (window_run ins ack s ops) = pending key (waiting s) ops"
proof (induction ops arbitrary: s)
  case (Cons x ops)
  then show ?case by (cases x) (simp_all add: inv_ins waiting_ins inv_ack waiting_ack)
qed simp

end

type_synonym insertion = "rat \<times> MultiPacketPath \<times> timepoint \<times> bool"

definition do_insert :: "insertion \<Rightarrow> Retrier \<Rightarrow> Retrier" where
  "do_insert = (\<lambda>(rtt, paths, now, priority) r. snd (re_insert rtt paths now priority r))"

definition insertion_id :: "insertion \<Rightarrow> PacketID" where
  "insertion_id = (\<lambda>(rtt, paths, now, priority). paths_id paths)"

interpretation retrier: ack_window do_insert "\<lambda>i r. snd (re_ack i now d r)" insertion_id outstanding
    "\<lambda>r. retrier_inv r \<and> re_status r = IS_OPEN"
  for now d
  by unfold_locales (auto simp: do_insert_def insertion_id_def re_insert_state re_ack_state)

section \<open>Properties\<close>

text \<open>
  C24: Along any sequence of insertions with fresh identifiers and acks, the packets waiting in an open
  retrier are exactly those inserted and not acked since; their number is what the send window
  is compared with, and whenever one waits there is a packet to retry.
\<close>

theorem retrier_tracks_unacked:
  assumes "fresh_ops insertion_id {} ops"
  shows "let r = window_run do_insert (\<lambda>i r. snd (re_ack i now d r)) new_Retrier ops
    in outstanding r = pending insertion_id {} ops
     \<and> numUnacked r = card (pending insertion_id {} ops)
     \<and> (getNextRetry r = None \<longleftrightarrow> pending insertion_id {} ops = {})"
proof -
  have new: "retrier_inv new_Retrier" "re_status new_Retrier = IS_OPEN" "outstanding new_Retrier = {}"
    by (simp_all add: retrier_inv_new) (simp_all add: new_Retrier_def outstanding_def)
  let ?r = "window_run do_insert (\<lambda>i r. snd (re_ack i now d r)) new_Retrier ops"
  have r: "retrier_inv ?r" "outstanding ?r = pending insertion_id {} ops"
    using retrier.run_pending [of new_Retrier ops now d] new assms by simp_all
  then have "numUnacked ?r = card (pending insertion_id {} ops)" by (simp add: numUnacked_card)
  moreover have "re_window ?r = [] \<longleftrightarrow> outstanding ?r = {}"
    by (simp add: outstanding_def dom_om_find)
  ultimately show ?thesis using r getNextRetry_None [OF r(1)] by (simp add: Let_def)
qed

definition example_window_ops :: "insertion window_op list" where
  "example_window_ops =
     [Insert (1, [(set_id 1 new_packet, None)], 0, False), Insert (1, [(set_id 2 new_packet, None)], 5, True), Ack 1]"

theorem retrier_tracks_unacked_witness:
  "outstanding (window_run do_insert (\<lambda>i r. snd (re_ack i 10 0 r)) new_Retrier example_window_ops) = {2}"
proof -
  have f: "fresh_ops insertion_id {} example_window_ops"
    by (simp add: example_window_ops_def insertion_id_def paths_id_def set_id_def pk_id_def new_packet_def)
  have "pending insertion_id {} example_window_ops = {2}"
    by (auto simp: example_window_ops_def insertion_id_def paths_id_def set_id_def pk_id_def new_packet_def)
  with retrier_tracks_unacked [OF f, of 10 0] show ?thesis by (simp add: Let_def)
qed

text \<open>
  The packet that is retried next is a priority packet when there is one, and the one with the least
  identifier among the priority packets, or among all packets when none has priority.
\<close>

theorem getNextRetry_least:
  assumes "retrier_inv r" and "getNextRetry r = Some (i, retry)"
  shows "om_find (re_window r) i = Some retry
    \<and> (if \<exists>j v. om_find (re_window r) j = Some v \<and> rt_priority v
        then rt_priority retry \<and> (\<forall>j v. om_find (re_window r) j = Some v \<and> rt_priority v \<longrightarrow> i \<le> j)
        else \<forall>j \<in> outstanding r. i \<le> j)"
proof -
  note found = getNextRetry_Some [OF assms]
  have open_: "re_status r \<noteq> IS_CLOSED" using assms(1) found
    by (auto simp: retrier_inv_def om_find_def split: if_splits)
  then have prio: "j \<in> dom (om_find (re_priority r)) \<longleftrightarrow> (\<exists>v. om_find (re_window r) j = Some v \<and> rt_priority v)" for j
    using assms(1) by (simp add: retrier_inv_def)
  show ?thesis
  proof (cases "om_begin (re_priority r)")
    case None
    then have "dom (om_find (re_priority r)) = {}" using om.begin_None retrier_inv_om(2) [OF assms(1)] by blast
    moreover have "om_begin (re_window r) = Some i"
      using assms(2) None by (auto simp: getNextRetry_def om_begin_def split: list.splits)
    ultimately show ?thesis using found prio om.begin_Some [OF retrier_inv_om(1) [OF assms(1)]]
      by (auto simp: outstanding_def)
  next
    case (Some j)
    then have "i = j" using assms(2) by (auto simp: getNextRetry_def split: list.splits)
    with om.begin_Some [OF retrier_inv_om(2) [OF assms(1)] Some] found prio show ?thesis by auto
  qed
qed

definition example_retrier :: Retrier where
  "example_retrier = window_run do_insert (\<lambda>i r. snd (re_ack i 10 0 r)) new_Retrier (take 2 example_window_ops)"

theorem getNextRetry_least_witness:
  "\<exists>retry. getNextRetry example_retrier = Some (2, retry) \<and> rt_priority retry
     \<and> om_find (re_window example_retrier) 2 = Some retry"
proof -
  have "retrier_inv example_retrier"
  proof -
    have "outstanding new_Retrier = {}" by (simp add: new_Retrier_def outstanding_def)
    moreover have "fresh_ops insertion_id {} (take 2 example_window_ops)"
      by (simp add: example_window_ops_def insertion_id_def paths_id_def set_id_def pk_id_def new_packet_def)
    moreover have "re_status new_Retrier = IS_OPEN" by (simp add: new_Retrier_def)
    ultimately show ?thesis
      using retrier.run_pending [of new_Retrier "take 2 example_window_ops" 10 0] retrier_inv_new
      by (simp add: example_retrier_def)
  qed
  moreover have "map_option fst (getNextRetry example_retrier) = Some 2" by code_simp
  moreover have "map_option rt_priority (om_find (re_window example_retrier) 2) = Some True" by code_simp
  ultimately show ?thesis using getNextRetry_least [of example_retrier 2] by (auto split: if_splits)
qed

end
