(* ===== verification/Connection_State.thy ===== *)
theory Connection_State
  imports Send_Queue Retrier
begin

text \<open>
  The state of a connection (\<^verbatim>\<open>mrudp/Connection.h\<close>) with the state of the mechanisms it contains, and the
  part of the code every mechanism ends in: the probe clock (\<^verbatim>\<open>mrudp/connection/Probe.cpp\<close>) and the
  sending of one packet (\<^verbatim>\<open>Connection::send\<close>, \<^verbatim>\<open>resend\<close>, \<^verbatim>\<open>send_\<close> of \<^verbatim>\<open>mrudp/Connection.cpp\<close> and
  \<^verbatim>\<open>Handshake_Options::onSend\<close>).

  A handler runs to its end with one reading \<open>now\<close> of the clock. What leaves the connection is a
  list of effects in the order the code causes them: packets given to the socket, timeouts
  given to the scheduler, the user's callbacks. Cryptography is compiled out
  (\<^verbatim>\<open>MRUDP_ENABLE_CRYPTO\<close> is not defined), and no packets are dropped on purpose
  (\<^verbatim>\<open>MRUDP_ENABLE_DROP\<close> is not defined).
\<close>

section \<open>State\<close>

record Schedule =
  sc_when :: "timepoint option"
  sc_running :: bool

record Sender =
  sn_status :: Status
  sn_packetID :: PacketID
  sn_rtt :: rat
  sn_windowSize :: nat
  sn_retrier :: Retrier
  sn_dataQueue :: SendQueue
  sn_unreliableDataQueue :: SendQueue
  sn_reliableSchedule :: Schedule
  sn_unreliableSchedule :: Schedule
  sn_delayedAcks :: "(PacketID \<times> timepoint) list"
  sn_lastDelayedAcksSend :: timepoint

record Receiver =
  rv_status :: Status
  rv_receiveQueue :: ReceiveQueue
  rv_compressed :: bytes

record Probe =
  pr_status :: OpenStatus
  pr_nextProbeTime :: timepoint
  pr_probeInterval :: duration
  pr_isRegistered :: bool

record Handshake =
  hs_waitingFor :: TypeID
  hs_firstNonHandshakePacketID :: PacketID

datatype timer = RetryTimeout | ScheduleTimeout Reliability | ProbeTimeout | FinishTimeout

datatype effect =
    SocketSend Packet "Address option"
  | SetTimeout timer timepoint
  | UserReceive nat bytes Reliability
  | UserClose nat mrudp_event
  | SocketErase
  | RemoteAddressChanged
  | OverRead

text \<open>
  \<open>OverRead\<close> marks the places where the code reads past the bytes it was given; what it does with
  them is not modelled.
\<close>

text \<open>\<open>c_userData\<close> is the user's pointer; a handler is present or null.\<close>

record Connection =
  c_id :: LongConnectionID
  c_remoteID :: ShortConnectionID
  c_localID :: ShortConnectionID
  c_remoteAddress :: Address
  c_options :: ConnectionOptions
  c_handshake :: Handshake
  c_sender :: Sender
  c_receiver :: Receiver
  c_probe :: Probe
  c_statistics :: Statistics
  c_userData :: nat
  c_receiveHandler :: bool
  c_closeHandler :: bool
  c_closeReason :: mrudp_event
  c_closed :: bool
  c_userDataDisposed :: bool
  c_out :: "effect list"

definition new_Schedule :: Schedule where
  "new_Schedule = \<lparr>sc_when = None, sc_running = False\<rparr>"

definition new_Sender :: Sender where
  "new_Sender =
     \<lparr>sn_status = UNINITIALIZED, sn_packetID = 0, sn_rtt = rtt_initial, sn_windowSize = 3,
      sn_retrier = new_Retrier, sn_dataQueue = new_SendQueue, sn_unreliableDataQueue = new_SendQueue,
      sn_reliableSchedule = new_Schedule, sn_unreliableSchedule = new_Schedule,
      sn_delayedAcks = [], sn_lastDelayedAcksSend = 0\<rparr>"

definition new_Receiver :: Receiver where
  "new_Receiver = \<lparr>rv_status = UNINITIALIZED, rv_receiveQueue = new_ReceiveQueue, rv_compressed = []\<rparr>"

definition new_Probe :: Probe where
  "new_Probe = \<lparr>pr_status = IS_OPEN, pr_nextProbeTime = 0, pr_probeInterval = 0, pr_isRegistered = False\<rparr>"

definition new_Handshake :: Handshake where
  "new_Handshake = \<lparr>hs_waitingFor = H0, hs_firstNonHandshakePacketID = 0\<rparr>"

text \<open>\<open>opts\<close> are the connection options of the service (\<^verbatim>\<open>socket->service->imp->options.connection\<close>).\<close>

definition new_Connection ::
  "ConnectionOptions \<Rightarrow> LongConnectionID \<Rightarrow> Address \<Rightarrow> ShortConnectionID \<Rightarrow> Connection" where
  "new_Connection opts i remoteAddress localID =
     \<lparr>c_id = i, c_remoteID = 0, c_localID = localID, c_remoteAddress = remoteAddress, c_options = opts,
      c_handshake = new_Handshake, c_sender = new_Sender, c_receiver = new_Receiver, c_probe = new_Probe,
      c_statistics = new_Statistics, c_userData = 0, c_receiveHandler = False, c_closeHandler = False,
      c_closeReason = MRUDP_EVENT_CLOSED, c_closed = False, c_userDataDisposed = True, c_out = []\<rparr>"

definition emit :: "effect \<Rightarrow> Connection \<Rightarrow> Connection" where
  "emit e c = c\<lparr>c_out := c_out c @ [e]\<rparr>"

section \<open>Probe clock\<close>

definition recalculateProbeTimeout :: "Connection \<Rightarrow> Connection" where
  "recalculateProbeTimeout c =
     c\<lparr>c_probe := (c_probe c)\<lparr>pr_probeInterval :=
         recalculateProbeInterval (opt_maximum_retry_attempts (c_options c)) (opt_probe_delay_ms (c_options c))\<rparr>\<rparr>"

definition registerTimeout :: "timepoint \<Rightarrow> Connection \<Rightarrow> Connection" where
  "registerTimeout t c =
     (let set = t < pr_nextProbeTime (c_probe c) \<or> \<not> pr_isRegistered (c_probe c);
          c1 = c\<lparr>c_probe := (c_probe c)\<lparr>pr_nextProbeTime := t\<rparr>\<rparr>
      in if set then emit (SetTimeout ProbeTimeout t) (c1\<lparr>c_probe := (c_probe c1)\<lparr>pr_isRegistered := True\<rparr>\<rparr>)
         else c1)"

text \<open>\<^verbatim>\<open>Probe::on\<close>, and \<^verbatim>\<open>onStart\<close>, \<^verbatim>\<open>onReceive\<close>, \<^verbatim>\<open>onSend\<close>, \<^verbatim>\<open>onProbe\<close>, which call it.\<close>

definition probe_on :: "timepoint \<Rightarrow> Connection \<Rightarrow> Connection" where
  "probe_on now c =
     (let c1 = recalculateProbeTimeout c
      in registerTimeout (now + millis (pr_probeInterval (c_probe c1))) c1)"

definition probe_close :: "Connection \<Rightarrow> Connection" where
  "probe_close c = c\<lparr>c_probe := (c_probe c)\<lparr>pr_status := IS_CLOSED\<rparr>\<rparr>"

section \<open>Sending a packet\<close>

definition canSend :: "Connection \<Rightarrow> bool" where
  "canSend c \<longleftrightarrow> c_remoteID c > 0"

definition send_packet :: "timepoint \<Rightarrow> Packet \<Rightarrow> Address option \<Rightarrow> Connection \<Rightarrow> Connection" where
  "send_packet now packet address c =
     (let packet1 = set_connection (c_remoteID c) packet;
          packet2 = (if h_connection (pk_header packet1) = 0 then snd (pushT packet1 (c_id c)) else packet1)
      in probe_on now (emit (SocketSend packet2 address) c))"

text \<open>\<^verbatim>\<open>Handshake_Options::onSend\<close>: \<open>None\<close> is \<^verbatim>\<open>Discard\<close>. The layout is \<^verbatim>\<open>HandshakeOptionsData\<close>.\<close>

definition enc_options :: "ConnectionOptions \<Rightarrow> bytes" where
  "enc_options opts = enc_word 4 (word_of_int (max (opt_probe_delay_ms opts) 0) :: u32)
     @ enc_word 2 (word_of_int (opt_maximum_retry_attempts opts) :: u16)"

definition ho_onSend :: "ConnectionOptions \<Rightarrow> Packet \<Rightarrow> Packet option" where
  "ho_onSend opts packet =
     (if pk_type packet = H3
      then (case pushT packet (enc_options opts) of (ok, packet1) \<Rightarrow> if \<not> ok then None else Some packet1)
      else Some packet)"

definition conn_send :: "timepoint \<Rightarrow> Packet \<Rightarrow> Address option \<Rightarrow> Connection \<Rightarrow> Connection" where
  "conn_send now packet address c =
     (let c1 = c\<lparr>c_statistics := stat_onSend packet (c_statistics c)\<rparr>
      in case ho_onSend (c_options c1) packet of
           None \<Rightarrow> c1
         | Some packet1 \<Rightarrow> send_packet now packet1 address c1)"

definition resend :: "timepoint \<Rightarrow> Packet \<Rightarrow> Address option \<Rightarrow> Connection \<Rightarrow> Connection" where
  "resend now packet address c =
     (let c1 = send_packet now packet address c
      in c1\<lparr>c_statistics := stat_onResend packet (c_statistics c1)\<rparr>)"

section \<open>What sending leaves alone\<close>

text \<open>Sending touches the probe, the statistics and the effects; \<open>rest\<close> is everything else.\<close>

definition rest :: "Connection \<Rightarrow> Connection" where
  "rest c = c\<lparr>c_probe := new_Probe, c_statistics := new_Statistics, c_out := []\<rparr>"

named_theorems conn_frame \<open>fields an operation leaves alone\<close>

lemma rest_sel:
  "c_id (rest c) = c_id c"
  "c_remoteID (rest c) = c_remoteID c"
  "c_localID (rest c) = c_localID c"
  "c_remoteAddress (rest c) = c_remoteAddress c"
  "c_options (rest c) = c_options c"
  "c_handshake (rest c) = c_handshake c"
  "c_sender (rest c) = c_sender c"
  "c_receiver (rest c) = c_receiver c"
  "c_userData (rest c) = c_userData c"
  "c_receiveHandler (rest c) = c_receiveHandler c"
  "c_closeHandler (rest c) = c_closeHandler c"
  "c_closeReason (rest c) = c_closeReason c"
  "c_closed (rest c) = c_closed c"
  "c_userDataDisposed (rest c) = c_userDataDisposed c"
  by (simp_all add: rest_def)

lemma rest_fields:
  assumes "rest c = rest d"
  shows "c_id c = c_id d" "c_remoteID c = c_remoteID d" "c_localID c = c_localID d"
    "c_remoteAddress c = c_remoteAddress d" "c_options c = c_options d" "c_handshake c = c_handshake d"
    "c_sender c = c_sender d" "c_receiver c = c_receiver d" "c_userData c = c_userData d"
    "c_receiveHandler c = c_receiveHandler d" "c_closeHandler c = c_closeHandler d"
    "c_closeReason c = c_closeReason d" "c_closed c = c_closed d" "c_userDataDisposed c = c_userDataDisposed d"
  using arg_cong [OF assms, of c_id]
    arg_cong [OF assms, of c_remoteID]
    arg_cong [OF assms, of c_localID]
    arg_cong [OF assms, of c_remoteAddress]
    arg_cong [OF assms, of c_options]
    arg_cong [OF assms, of c_handshake]
    arg_cong [OF assms, of c_sender]
    arg_cong [OF assms, of c_receiver]
    arg_cong [OF assms, of c_userData]
    arg_cong [OF assms, of c_receiveHandler]
    arg_cong [OF assms, of c_closeHandler]
    arg_cong [OF assms, of c_closeReason]
    arg_cong [OF assms, of c_closed]
    arg_cong [OF assms, of c_userDataDisposed]
  by (simp_all only: rest_sel)

lemma rest_emit [simp]: "rest (emit e c) = rest c"
  by (simp add: rest_def emit_def)

lemma rest_probe_on [simp]: "rest (probe_on now c) = rest c"
  by (simp add: probe_on_def registerTimeout_def recalculateProbeTimeout_def Let_def rest_def emit_def)

lemma rest_send_packet [simp]: "rest (send_packet now p a c) = rest c"
  by (simp add: send_packet_def Let_def)

lemma rest_conn_send [simp]: "rest (conn_send now p a c) = rest c"
proof -
  have "rest (c\<lparr>c_statistics := s\<rparr>) = rest c" for s by (simp add: rest_def)
  then show ?thesis by (simp add: conn_send_def Let_def split: option.splits)
qed

lemma rest_resend [simp]: "rest (resend now p a c) = rest c"
proof -
  have "rest (d\<lparr>c_statistics := s\<rparr>) = rest d" for s d by (simp add: rest_def)
  then show ?thesis by (simp add: resend_def Let_def)
qed

lemmas conn_send_frame [simp, conn_frame] = rest_fields [OF rest_conn_send]
lemmas resend_frame [simp, conn_frame] = rest_fields [OF rest_resend]
lemmas probe_on_frame [simp, conn_frame] = rest_fields [OF rest_probe_on]
lemmas emit_frame [simp, conn_frame] = rest_fields [OF rest_emit]
lemmas send_packet_frame [simp, conn_frame] = rest_fields [OF rest_send_packet]

end
