(* ===== verification/Sender.thy ===== *)
theory Sender
  imports Connection_State
begin

text \<open>
  \<^verbatim>\<open>mrudp/sender/Sender.cpp\<close>, up to the handlers that may close the connection (those are in
  theory \<^verbatim>\<open>Connection_Close\<close>): reliable sending, the processing of the data queues, their schedules, and the
  delayed acks. \<open>z\<close> is zlib's \<^verbatim>\<open>compress2\<close>.
\<close>

section \<open>The retrier in the connection\<close>

definition set_timeout :: "timer \<Rightarrow> timepoint option \<Rightarrow> Connection \<Rightarrow> Connection" where
  "set_timeout tm t c = (case t of None \<Rightarrow> c | Some w \<Rightarrow> emit (SetTimeout tm w) c)"

definition conn_recalculateRetryTimeout :: "Connection \<Rightarrow> Connection" where
  "conn_recalculateRetryTimeout c =
     (let (t, r) = recalculateRetryTimeout (sn_rtt (c_sender c)) (sn_retrier (c_sender c))
      in set_timeout RetryTimeout t (c\<lparr>c_sender := (c_sender c)\<lparr>sn_retrier := r\<rparr>\<rparr>))"

definition conn_insert :: "timepoint \<Rightarrow> MultiPacketPath \<Rightarrow> bool \<Rightarrow> Connection \<Rightarrow> Connection" where
  "conn_insert now paths priority c =
     (let (t, r) = re_insert (sn_rtt (c_sender c)) paths now priority (sn_retrier (c_sender c))
      in set_timeout RetryTimeout t (c\<lparr>c_sender := (c_sender c)\<lparr>sn_retrier := r\<rparr>\<rparr>))"

section \<open>Reliable sending\<close>

definition send_paths :: "timepoint \<Rightarrow> MultiPacketPath \<Rightarrow> Connection \<Rightarrow> Connection" where
  "send_paths now paths c = fold (\<lambda>(packet, address). conn_send now packet address) paths c"

definition sendReliablyMultipath :: "timepoint \<Rightarrow> MultiPacketPath \<Rightarrow> bool \<Rightarrow> Connection \<Rightarrow> Connection" where
  "sendReliablyMultipath now multipath priority c =
     (let i = nextID (sn_packetID (c_sender c));
          c1 = c\<lparr>c_sender := (c_sender c)\<lparr>sn_packetID := snd i\<rparr>\<rparr>;
          multipath1 = map (\<lambda>(packet, address). (set_id (fst i) packet, address)) multipath
      in send_paths now multipath1 (conn_insert now multipath1 priority c1))"

text \<open>
  \<^verbatim>\<open>multipath.front()\<close> of \<^verbatim>\<open>SimpleInPlaceArray\<close> returns a copy, so that the assignment of an address
  to it is lost; the packet goes to the connection's remote address.
\<close>

definition sendReliably :: "timepoint \<Rightarrow> Packet \<Rightarrow> Address option \<Rightarrow> Connection \<Rightarrow> Connection" where
  "sendReliably now packet address c = sendReliablyMultipath now [(packet, None)] False c"

definition isReadyToSend :: "Connection \<Rightarrow> bool" where
  "isReadyToSend c \<longleftrightarrow> sn_status (c_sender c) \<ge> OPEN \<and> canSend c"

definition sender_empty :: "Connection \<Rightarrow> bool" where
  "sender_empty c \<longleftrightarrow> re_empty (sn_retrier (c_sender c)) \<and> sq_empty (sn_dataQueue (c_sender c))"

lemma set_timeout_frame [simp, conn_frame]:
  "rest (set_timeout tm t c) = rest c" "c_sender (set_timeout tm t c) = c_sender c"
  by (simp_all add: set_timeout_def split: option.splits)

lemmas set_timeout_fields [simp, conn_frame] = rest_fields [OF set_timeout_frame(1)]

lemma send_paths_rest [simp]: "rest (send_paths now paths c) = rest c"
  by (induction paths arbitrary: c) (auto simp: send_paths_def)

lemmas send_paths_frame [simp, conn_frame] = rest_fields [OF send_paths_rest]

lemma conn_insert_sender:
  "c_sender (conn_insert now paths priority c) =
     (c_sender c)\<lparr>sn_retrier := snd (re_insert (sn_rtt (c_sender c)) paths now priority (sn_retrier (c_sender c)))\<rparr>"
  by (simp add: conn_insert_def split: prod.splits)

lemma sendReliablyMultipath_sender:
  "c_sender (sendReliablyMultipath now multipath priority c) =
     (c_sender c)\<lparr>sn_packetID := sn_packetID (c_sender c) + 1,
       sn_retrier := snd (re_insert (sn_rtt (c_sender c))
         (map (\<lambda>(packet, address). (set_id (sn_packetID (c_sender c)) packet, address)) multipath)
         now priority (sn_retrier (c_sender c)))\<rparr>"
  by (simp add: sendReliablyMultipath_def Let_def conn_insert_sender)

section \<open>Processing the data queues\<close>

lemma sq_dequeue_shrinks:
  assumes "sq_dequeue z level q = (Some p, q')"
  shows "length (sq_buffer q') < length (sq_buffer q)
    \<or> length (sq_buffer q') = length (sq_buffer q) \<and> length (sq_queue q') < length (sq_queue q)"
  using assms
  by (auto simp: sq_dequeue_def sq_compress_def Let_def split: if_splits list.splits)

abbreviation reliable_level :: "Connection \<Rightarrow> int" where
  "reliable_level c \<equiv> co_compression_level (opt_coalesce_reliable (c_options c))"

abbreviation unreliable_level :: "Connection \<Rightarrow> int" where
  "unreliable_level c \<equiv> co_compression_level (opt_coalesce_unreliable (c_options c))"

definition set_dataQueue :: "SendQueue \<Rightarrow> Connection \<Rightarrow> Connection" where
  "set_dataQueue q c = c\<lparr>c_sender := (c_sender c)\<lparr>sn_dataQueue := q\<rparr>\<rparr>"

definition set_unreliableDataQueue :: "SendQueue \<Rightarrow> Connection \<Rightarrow> Connection" where
  "set_unreliableDataQueue q c = c\<lparr>c_sender := (c_sender c)\<lparr>sn_unreliableDataQueue := q\<rparr>\<rparr>"

lemma dataQueue_after_send [simp]:
  "sn_dataQueue (c_sender (sendReliably now p a c)) = sn_dataQueue (c_sender c)"
  by (simp add: sendReliably_def sendReliablyMultipath_sender)

function processReliable_loop :: "compressor \<Rightarrow> timepoint \<Rightarrow> Connection \<Rightarrow> Connection" where
  "processReliable_loop z now c =
     (if numUnacked (sn_retrier (c_sender c)) < sn_windowSize (c_sender c)
      then (case sq_dequeue z (reliable_level c) (sn_dataQueue (c_sender c)) of
              (None, q) \<Rightarrow> set_dataQueue q c
            | (Some packet, q) \<Rightarrow>
                processReliable_loop z now
                  (sendReliably now (set_type DATA_RELIABLE packet) None (set_dataQueue q c)))
      else c)"
  by pat_completeness auto
termination
proof (relation "inv_image (less_than <*lex*> less_than)
    (\<lambda>(z, now, c). (length (sq_buffer (sn_dataQueue (c_sender c))), length (sq_queue (sn_dataQueue (c_sender c)))))", goal_cases)
  case (2 z now c x y packet)
  then have "sq_dequeue z (reliable_level c) (sn_dataQueue (c_sender c)) = (Some packet, y)" by simp
  from sq_dequeue_shrinks [OF this] show ?case by (auto simp: set_dataQueue_def)
qed auto

declare processReliable_loop.simps [simp del]

definition processReliableDataQueue :: "compressor \<Rightarrow> timepoint \<Rightarrow> Connection \<Rightarrow> Connection" where
  "processReliableDataQueue z now c = (if \<not> isReadyToSend c then c else processReliable_loop z now c)"

text \<open>\<^verbatim>\<open>Ack\<close>: the packet identifier and the delay in milliseconds, truncated to 16 bits.\<close>

definition enc_ack :: "PacketID \<Rightarrow> u16 \<Rightarrow> bytes" where
  "enc_ack i delayedMS = enc_word 2 i @ enc_word 2 delayedMS"

definition delayed_ms :: "timepoint \<Rightarrow> timepoint \<Rightarrow> u16" where
  "delayed_ms now w = word_of_int (if now < w then - ((w - now) div 1000000) else (now - w) div 1000000)"

definition queueDelayedAcks :: "timepoint \<Rightarrow> Connection \<Rightarrow> Connection" where
  "queueDelayedAcks now c =
     (let s = c_sender c
      in if sn_delayedAcks s = [] then c
         else c\<lparr>c_sender := s\<lparr>sn_lastDelayedAcksSend := now,
             sn_delayedAcks := [],
             sn_unreliableDataQueue :=
               fold (\<lambda>(i, w) q. sq_enqueue q ACK_FRAME (enc_ack i (delayed_ms now w)) MRUDP_COALESCE_PACKET)
                 (sn_delayedAcks s) (sn_unreliableDataQueue s)\<rparr>\<rparr>)"

function processUnreliable_loop :: "compressor \<Rightarrow> timepoint \<Rightarrow> Connection \<Rightarrow> Connection" where
  "processUnreliable_loop z now c =
     (case sq_dequeue z (unreliable_level c) (sn_unreliableDataQueue (c_sender c)) of
        (None, q) \<Rightarrow> set_unreliableDataQueue q c
      | (Some packet, q) \<Rightarrow>
          processUnreliable_loop z now
            (conn_send now (set_type DATA_UNRELIABLE packet) None (set_unreliableDataQueue q c)))"
  by pat_completeness auto
termination
proof (relation "inv_image (less_than <*lex*> less_than)
    (\<lambda>(z, now, c). (length (sq_buffer (sn_unreliableDataQueue (c_sender c))),
      length (sq_queue (sn_unreliableDataQueue (c_sender c)))))", goal_cases)
  case (2 z now c x y packet)
  then have "sq_dequeue z (unreliable_level c) (sn_unreliableDataQueue (c_sender c)) = (Some packet, y)" by simp
  from sq_dequeue_shrinks [OF this] show ?case by (auto simp: set_unreliableDataQueue_def)
qed auto

declare processUnreliable_loop.simps [simp del]

definition processUnreliableDataQueue :: "compressor \<Rightarrow> timepoint \<Rightarrow> Connection \<Rightarrow> Connection" where
  "processUnreliableDataQueue z now c =
     (if isReadyToSend c then processUnreliable_loop z now (queueDelayedAcks now c)
      else set_unreliableDataQueue (sq_clear (sn_unreliableDataQueue (c_sender c))) c)"

definition processDataQueue :: "compressor \<Rightarrow> timepoint \<Rightarrow> Reliability \<Rightarrow> Connection \<Rightarrow> Connection" where
  "processDataQueue z now reliability c =
     (if reliability = RELIABLE then processReliableDataQueue z now c else processUnreliableDataQueue z now c)"

section \<open>Schedules\<close>

definition schedule_of :: "Reliability \<Rightarrow> Connection \<Rightarrow> Schedule" where
  "schedule_of reliability c =
     (if reliability = RELIABLE then sn_reliableSchedule (c_sender c) else sn_unreliableSchedule (c_sender c))"

definition set_schedule :: "Reliability \<Rightarrow> Schedule \<Rightarrow> Connection \<Rightarrow> Connection" where
  "set_schedule reliability s c =
     c\<lparr>c_sender := (if reliability = RELIABLE then (c_sender c)\<lparr>sn_reliableSchedule := s\<rparr>
                    else (c_sender c)\<lparr>sn_unreliableSchedule := s\<rparr>)\<rparr>"

definition coalesce_of :: "Reliability \<Rightarrow> Connection \<Rightarrow> CoalesceOptions" where
  "coalesce_of reliability c =
     (if reliability = RELIABLE then opt_coalesce_reliable (c_options c) else opt_coalesce_unreliable (c_options c))"

definition scheduleDataQueueProcessing ::
  "compressor \<Rightarrow> timepoint \<Rightarrow> Reliability \<Rightarrow> bool \<Rightarrow> Connection \<Rightarrow> Connection" where
  "scheduleDataQueueProcessing z now reliability immediate c =
     (let options = coalesce_of reliability c
      in if co_mode options = MRUDP_COALESCE_NONE then processDataQueue z now reliability c
         else let schedule = schedule_of reliability c;
                  delay = (if immediate then 0 else co_delay_ms options);
                  thn = now + millis delay
              in if (case sc_when schedule of None \<Rightarrow> True | Some w \<Rightarrow> thn < w)
                 then let c1 = set_schedule reliability (schedule\<lparr>sc_when := Some thn\<rparr>) c
                      in if \<not> sc_running schedule then emit (SetTimeout (ScheduleTimeout reliability) thn) c1 else c1
                 else c)"

definition processSchedule :: "compressor \<Rightarrow> timepoint \<Rightarrow> Reliability \<Rightarrow> Connection \<Rightarrow> Connection" where
  "processSchedule z now mode c =
     (if sc_running (schedule_of mode c) then c
      else let c1 = set_schedule mode \<lparr>sc_when = None, sc_running = True\<rparr> c;
               c2 = processDataQueue z now mode c1;
               c3 = set_schedule mode ((schedule_of mode c2)\<lparr>sc_running := False\<rparr>) c2
           in case sc_when (schedule_of mode c3) of
                None \<Rightarrow> c3
              | Some w \<Rightarrow> emit (SetTimeout (ScheduleTimeout mode) w) c3)"

section \<open>Entry points\<close>

definition sender_enqueue ::
  "compressor \<Rightarrow> timepoint \<Rightarrow> FrameTypeID \<Rightarrow> bytes \<Rightarrow> Reliability \<Rightarrow> int \<Rightarrow> Connection \<Rightarrow> Connection" where
  "sender_enqueue z now typeID data reliability mode c =
     (let c1 = (if reliability = RELIABLE
                then set_dataQueue (sq_enqueue (sn_dataQueue (c_sender c)) typeID data mode) c
                else set_unreliableDataQueue (sq_enqueue (sn_unreliableDataQueue (c_sender c)) typeID data mode) c)
      in if isReadyToSend c1 then scheduleDataQueueProcessing z now reliability False c1 else c1)"

definition sender_send ::
  "compressor \<Rightarrow> timepoint \<Rightarrow> bytes \<Rightarrow> Reliability \<Rightarrow> Connection \<Rightarrow> int \<times> Connection" where
  "sender_send z now data reliability c =
     (if sn_status (c_sender c) \<noteq> CLOSED
      then let mode = co_mode (coalesce_of reliability c)
           in if length data > MAX_PACKET_DATA_SIZE \<and> mode \<noteq> MRUDP_COALESCE_STREAM
                  \<and> mode \<noteq> MRUDP_COALESCE_STREAM_COMPRESSED
              then (ERROR_PACKET_SIZE_TOO_LARGE, c)
              else (OK, sender_enqueue z now DATA data reliability mode c)
      else (ERROR_CONNECTION_CLOSED, c))"

definition sender_open :: "compressor \<Rightarrow> timepoint \<Rightarrow> Connection \<Rightarrow> Connection" where
  "sender_open z now c =
     (let c1 = (if sn_status (c_sender c) = UNINITIALIZED then c\<lparr>c_sender := (c_sender c)\<lparr>sn_status := OPEN\<rparr>\<rparr> else c)
      in scheduleDataQueueProcessing z now UNRELIABLE False (scheduleDataQueueProcessing z now RELIABLE False c1))"

definition sender_close :: "compressor \<Rightarrow> timepoint \<Rightarrow> Connection \<Rightarrow> Connection" where
  "sender_close z now c =
     (if sn_status (c_sender c) \<noteq> CLOSED
      then let c1 = sender_enqueue z now CLOSE_WRITE [] RELIABLE MRUDP_COALESCE_PACKET c
           in c1\<lparr>c_sender := (c_sender c1)\<lparr>sn_status := CLOSED\<rparr>\<rparr>
      else c)"

definition sender_fail :: "Connection \<Rightarrow> Connection" where
  "sender_fail c =
     (let s = (if sn_status (c_sender c) \<noteq> CLOSED then (c_sender c)\<lparr>sn_status := CLOSED\<rparr> else c_sender c)
      in c\<lparr>c_sender := s\<lparr>sn_retrier := re_close (sn_retrier s), sn_dataQueue := sq_close (sn_dataQueue s),
             sn_unreliableDataQueue := sq_close (sn_unreliableDataQueue s)\<rparr>\<rparr>)"

definition sender_ack :: "compressor \<Rightarrow> timepoint \<Rightarrow> PacketID \<Rightarrow> Connection \<Rightarrow> Connection" where
  "sender_ack z now packetID c =
     scheduleDataQueueProcessing z now UNRELIABLE False
       (c\<lparr>c_sender := (c_sender c)\<lparr>sn_delayedAcks := sn_delayedAcks (c_sender c) @ [(packetID, now)]\<rparr>\<rparr>)"

end
