(* ===== verification/Connection_Close.thy ===== *)
theory Connection_Close
  imports Sender
begin

text \<open>
  The handlers that may close a connection: \<^verbatim>\<open>Connection::closeUser\<close>, \<^verbatim>\<open>possiblyClose\<close>, \<^verbatim>\<open>fail\<close>, \<^verbatim>\<open>close\<close>,
  \<^verbatim>\<open>finishWhenReady\<close> and \<^verbatim>\<open>finish\<close> of \<^verbatim>\<open>mrudp/Connection.cpp\<close>, \<^verbatim>\<open>Receiver::close\<close> and \<^verbatim>\<open>fail\<close>, \<^verbatim>\<open>Sender::onAck\<close> and
  \<^verbatim>\<open>onReceive\<close>, \<^verbatim>\<open>Retrier::onRetryTimeout\<close> and \<^verbatim>\<open>Probe::onTimeout\<close>.
\<close>

section \<open>Closing\<close>

definition set_rv_status :: "Status \<Rightarrow> Connection \<Rightarrow> Connection" where
  "set_rv_status st c = c\<lparr>c_receiver := (c_receiver c)\<lparr>rv_status := st\<rparr>\<rparr>"

definition receiver_close :: "timepoint \<Rightarrow> Connection \<Rightarrow> Connection" where
  "receiver_close now c =
     (if rv_status (c_receiver c) < CLOSED
      then let c1 = (if canSend c then sendReliably now (set_type CLOSE_READ new_packet) None c else c)
           in set_rv_status CLOSED c1
      else c)"

definition receiver_fail :: "Connection \<Rightarrow> Connection" where
  "receiver_fail c = (if rv_status (c_receiver c) < CLOSED then set_rv_status CLOSED c else c)"

definition closeUser :: "mrudp_event \<Rightarrow> Connection \<Rightarrow> Connection" where
  "closeUser event c =
     (if \<not> c_userDataDisposed c
      then let c1 = c\<lparr>c_userDataDisposed := True, c_userData := 0, c_closeHandler := False, c_receiveHandler := False\<rparr>
           in if c_closeHandler c then emit (UserClose (c_userData c) event) c1 else c1
      else c)"

definition finishWhenReady :: "timepoint \<Rightarrow> Connection \<Rightarrow> Connection" where
  "finishWhenReady now c =
     emit (SetTimeout FinishTimeout (now + millis (toDuration (f32 (sn_rtt (c_sender c) * 3))))) c"

definition finish :: "Connection \<Rightarrow> Connection" where
  "finish c = emit SocketErase c"

text \<open>\<^verbatim>\<open>Connection::close(mrudp_event_t)\<close>.\<close>

definition close_event :: "timepoint \<Rightarrow> mrudp_event \<Rightarrow> Connection \<Rightarrow> Connection" where
  "close_event now event c =
     (if \<not> c_closed c then finishWhenReady now (closeUser event (c\<lparr>c_closed := True\<rparr>)) else c)"

definition possiblyClose :: "timepoint \<Rightarrow> Connection \<Rightarrow> Connection" where
  "possiblyClose now c =
     (if c_closed c then c
      else if sn_status (c_sender c) = CLOSED \<and> rv_status (c_receiver c) = CLOSED \<and> sender_empty c
      then close_event now (c_closeReason c) c
      else c)"

definition fail :: "timepoint \<Rightarrow> mrudp_event \<Rightarrow> Connection \<Rightarrow> Connection" where
  "fail now event c =
     possiblyClose now (sender_fail (receiver_fail (probe_close (c\<lparr>c_closeReason := event\<rparr>))))"

text \<open>\<^verbatim>\<open>Connection::close()\<close>.\<close>

definition conn_close :: "compressor \<Rightarrow> timepoint \<Rightarrow> Connection \<Rightarrow> Connection" where
  "conn_close z now c = possiblyClose now (receiver_close now (sender_close z now c))"

section \<open>Acks\<close>

definition onAck :: "compressor \<Rightarrow> timepoint \<Rightarrow> PacketID \<Rightarrow> u16 \<Rightarrow> Connection \<Rightarrow> Connection" where
  "onAck z now packetID delayedMS c =
     (let (ackResult, r) = re_ack packetID now delayedMS (sn_retrier (c_sender c));
          c1 = c\<lparr>c_sender := (c_sender c)\<lparr>sn_retrier := r\<rparr>\<rparr>;
          c2 = (if ar_contained ackResult
                then let rtt = rtt_onSample (ar_rtt ackResult) (sn_rtt (c_sender c1));
                         c3 = c1\<lparr>c_sender := (c_sender c1)\<lparr>sn_rtt := rtt, sn_windowSize := window_onSample rtt\<rparr>\<rparr>
                     in if ar_needsRetryTimeoutRecalculation ackResult then conn_recalculateRetryTimeout c3 else c3
                else c1)
      in possiblyClose now (scheduleDataQueueProcessing z now RELIABLE True c2))"

definition sender_onReceive :: "compressor \<Rightarrow> timepoint \<Rightarrow> Packet \<Rightarrow> Connection \<Rightarrow> Connection" where
  "sender_onReceive z now packet c =
     (if isAck (pk_type packet) then onAck z now (pk_id packet) 0 c
      else if pk_type packet = CLOSE_READ then possiblyClose now (sender_fail c)
      else c)"

section \<open>Timeouts\<close>

definition onRetryTimeout :: "timepoint \<Rightarrow> Connection \<Rightarrow> Connection" where
  "onRetryTimeout now c =
     (case getNextRetry (sn_retrier (c_sender c)) of
        None \<Rightarrow> c
      | Some (i, retry) \<Rightarrow>
          if now > rt_retryAt retry
          then if attempts_exhausted (opt_maximum_retry_attempts (c_options c)) (rt_attempts retry)
               then fail now MRUDP_EVENT_TIMEOUT c
               else let retry1 = retry\<lparr>rt_attempts := rt_attempts retry + 1, rt_sentAt := now\<rparr>;
                        c1 = c\<lparr>c_sender := (c_sender c)\<lparr>sn_retrier := set_retry i retry1 (sn_retrier (c_sender c))\<rparr>\<rparr>;
                        c2 = fold (\<lambda>(packet, address). resend now packet address) (rt_paths retry1) c1;
                        rtt = rtt_onAckFailure (sn_rtt (c_sender c2));
                        c3 = c2\<lparr>c_sender := (c_sender c2)\<lparr>sn_rtt := rtt, sn_windowSize := window_onSample rtt\<rparr>\<rparr>
                    in conn_recalculateRetryTimeout c3
          else conn_recalculateRetryTimeout c)"

definition probe_onTimeout :: "timepoint \<Rightarrow> Connection \<Rightarrow> Connection" where
  "probe_onTimeout now c =
     (if pr_status (c_probe c) = IS_CLOSED then c
      else let nextProbe = pr_nextProbeTime (c_probe c);
               c1 = c\<lparr>c_probe := (c_probe c)\<lparr>pr_isRegistered := False\<rparr>\<rparr>
           in if now > nextProbe
              then let c2 = probe_on now c1
                   in if sn_status (c_sender c2) = OPEN
                      then sendReliably now (set_type PROBE new_packet) None c2
                      else fail now MRUDP_EVENT_TIMEOUT c2
              else registerTimeout nextProbe c1)"

end
