(* ===== verification/Decompress.thy ===== *)
theory Decompress
  imports Send_Queue
begin

text \<open>
  The receiving side of compressed streams: \<^verbatim>\<open>Receiver::processCompressed\<close> and
  \<^verbatim>\<open>Receiver::processCompressedSubframes\<close> of \<^verbatim>\<open>mrudp/receiver/Receiver.cpp\<close>, and their agreement with
  \<^verbatim>\<open>SendQueue::coalesceStreamCompressed\<close> and \<^verbatim>\<open>SendQueue::compress\<close>.

  \<^verbatim>\<open>uncompress\<close> is zlib's: \<open>u cap src\<close> are the bytes it leaves in a destination of \<open>cap\<close> bytes.
\<close>

type_synonym decompressor = "nat \<Rightarrow> bytes \<Rightarrow> bytes"

section \<open>Subframes\<close>

text \<open>
  The loop over the subframes of a block. The first result are the buffers given to
  \<^verbatim>\<open>Connection::receive\<close>. When fewer than five bytes are left the code reads past the end of the block:
  the loop stops and the second result is \<open>True\<close>.
\<close>

function subframes :: "bytes \<Rightarrow> bytes list \<times> bool" where
  "subframes data =
     (if data = [] then ([], False)
      else if length data < 5 then ([], True)
      else let frameSize = unat (dec_word (take 4 (drop 1 data)) :: u32)
           in if length data - 5 < frameSize then ([], False)
              else let r = subframes (drop (5 + frameSize) data)
                   in (take frameSize (drop 5 data) # fst r, snd r))"
  by pat_completeness auto
termination
  by (relation "measure length") auto

declare subframes.simps [simp del]

text \<open>The size is an \<^verbatim>\<open>int\<close>: of a block of 2 GiB or more only the part the converted size covers is read.\<close>

definition processCompressedSubframes :: "bytes \<Rightarrow> bytes list \<times> bool" where
  "processCompressedSubframes data = subframes (take (nat (sint (of_nat (length data) :: u32))) data)"

section \<open>Blocks\<close>

text \<open>
  One frame of a compressed stream: the buffers given to \<^verbatim>\<open>Connection::receive\<close>, whether the code
  read past the block, and the new contents of the compression buffer.
\<close>

definition processCompressed :: "decompressor \<Rightarrow> bytes \<Rightarrow> bytes \<Rightarrow> (bytes list \<times> bool) \<times> bytes" where
  "processCompressed u buffer data =
     (let compressed = buffer @ data
      in if length compressed < 4 then (([], False), compressed)
         else let bufferSize = unat (dec_word (take 4 compressed) :: u32)
              in if length compressed < bufferSize then (([], False), compressed)
                 else if length compressed < 5 then (([], True), [])
                 else let wasCompressed = compressed ! 4;
                          body = drop 5 compressed
                      in if wasCompressed = 0 then (processCompressedSubframes body, [])
                         else if length body < 4 then (([], True), [])
                         else let uncompressedSize = unat (dec_word (take 4 body) :: u32)
                              in (processCompressedSubframes (u uncompressedSize (drop 4 body)), []))"

fun processCompressed_frames :: "decompressor \<Rightarrow> bytes \<Rightarrow> bytes list \<Rightarrow> (bytes list \<times> bool) \<times> bytes" where
  "processCompressed_frames u buffer [] = (([], False), buffer)"
| "processCompressed_frames u buffer (d # ds) =
     (let r = processCompressed u buffer d;
          rs = processCompressed_frames u (snd r) ds
      in ((fst (fst r) @ fst (fst rs), snd (fst r) \<or> snd (fst rs)), snd rs))"

section \<open>Round trip\<close>

definition enc_subframe :: "FrameTypeID \<Rightarrow> bytes \<Rightarrow> bytes" where
  "enc_subframe t data = [t] @ enc_word 4 (of_nat (length data) :: u32) @ data"

lemma subframes_enc:
  assumes "length data < 2 ^ 32"
  shows "subframes (enc_subframe t data @ xs) = (data # fst (subframes xs), snd (subframes xs))"
proof -
  have "unat (dec_word (take 4 (drop 1 (enc_subframe t data @ xs))) :: u32) = length data"
    using assms by (simp add: enc_subframe_def unat_of_nat)
  moreover have "take (length data) (drop 5 (enc_subframe t data @ xs)) = data"
    "length (enc_subframe t data @ xs) = 5 + length data + length xs"
    by (simp_all add: enc_subframe_def)
  moreover have "drop (5 + length data) (enc_subframe t data @ xs) = xs"
    by (rule drop_append_exact) (simp add: enc_subframe_def)
  ultimately show ?thesis by (subst subframes.simps) (auto simp: Let_def simp del: append_is_Nil_conv)
qed

lemma subframes_concat:
  "length (concat (map (enc_subframe t) datas)) < 2 ^ 32 \<Longrightarrow>
   subframes (concat (map (enc_subframe t) datas)) = (datas, False)"
proof (induction datas)
  case (Cons d datas)
  then have "length d < 2 ^ 32" by (simp add: enc_subframe_def)
  with Cons subframes_enc show ?case by simp
qed (simp add: subframes.simps)

lemma processCompressedSubframes_small:
  assumes "length data < 2 ^ 31"
  shows "processCompressedSubframes data = subframes data"
proof -
  have "sint (of_nat (length data) :: u32) = int (length data)"
    using assms by (simp add: sint_uint uint_nat unat_of_nat signed_take_bit_int_eq_self)
  then show ?thesis by (simp add: processCompressedSubframes_def)
qed

text \<open>A block announces its own length, so that it is processed exactly when it is complete.\<close>

lemma block_incomplete:
  assumes "buffer @ data = take n block" and "n < length block"
    and "take 4 block = enc_word 4 (of_nat (length block) :: u32)" and "length block < 2 ^ 32"
  shows "processCompressed u buffer data = (([], False), buffer @ data)"
proof (cases "n < 4")
  case True
  then have "length (buffer @ data) < 4" unfolding assms(1) by simp
  then show ?thesis by (simp add: processCompressed_def Let_def)
next
  case False
  then have "take 4 (buffer @ data) = enc_word 4 (of_nat (length block) :: u32)"
    using assms(1,3) by (simp add: min_def)
  then have "unat (dec_word (take 4 (buffer @ data)) :: u32) = length block"
    using assms(4) by (simp add: unat_of_nat)
  moreover have "length (buffer @ data) = n" using assms(1,2) by simp
  ultimately show ?thesis using False assms(2) unfolding processCompressed_def Let_def by simp
qed

lemma processCompressed_frames_empty:
  "concat ds = [] \<Longrightarrow> processCompressed_frames u [] ds = (([], False), [])"
  by (induction ds) (simp_all add: processCompressed_def)

lemma block_frames:
  assumes "buffer @ concat ds = block" and "length buffer < length block"
    and "take 4 block = enc_word 4 (of_nat (length block) :: u32)" and "length block < 2 ^ 32"
    and "processCompressed u [] block = ((out, False), [])"
  shows "processCompressed_frames u buffer ds = ((out, False), [])"
  using assms(1,2)
proof (induction ds arbitrary: buffer)
  case (Cons d ds)
  show ?case
  proof (cases "concat ds = []")
    case True
    then have "buffer @ d = block" using Cons.prems(1) unfolding concat.simps True by simp
    then have "processCompressed u buffer d = ((out, False), [])"
      using assms(5) by (simp add: processCompressed_def)
    with True show ?thesis by (simp add: processCompressed_frames_empty)
  next
    case False
    have *: "buffer @ d = take (length (buffer @ d)) block" using Cons.prems(1) by auto
    moreover have lt: "length (buffer @ d) < length block"
      using False Cons.prems(1) by (auto simp flip: Cons.prems(1))
    ultimately have "processCompressed u buffer d = (([], False), buffer @ d)"
      using assms(3,4) by (intro block_incomplete)
    moreover have "processCompressed_frames u (buffer @ d) ds = ((out, False), [])"
      using Cons.IH [of "buffer @ d"] Cons.prems(1) lt by simp
    ultimately show ?thesis by simp
  qed
qed simp

text \<open>What the code relies on in zlib.\<close>

definition zlib_ok :: "compressor \<Rightarrow> decompressor \<Rightarrow> bool" where
  "zlib_ok z u \<longleftrightarrow> (\<forall>cap src level dest. z cap src level = Some dest \<longrightarrow>
     length dest \<le> cap \<and> u (length src) dest = src)"

lemma compressed_block_cases:
  assumes "zlib_ok z u" and "length src < 2 ^ 31 - 9"
  obtains (plain) "compressed_block z level src = enc_word 4 (of_nat (5 + length src) :: u32) @ [0] @ src"
  | (packed) dest where "compressed_block z level src
      = enc_word 4 (of_nat (9 + length dest) :: u32) @ [1] @ enc_word 4 (of_nat (length src) :: u32) @ dest"
      "length dest \<le> length src" "u (length src) dest = src"
proof (cases "level > 0 \<and> length src \<ge> minimumSizeToAttemptCompression \<and> z (length src) src level \<noteq> None")
  case True
  then obtain dest where d: "z (length src) src level = Some dest" by auto
  then have l: "length dest \<le> length src" "u (length src) dest = src" using assms(1) unfolding zlib_ok_def by blast+
  then have "unat (of_nat (9 + length dest) :: u32) = 9 + length dest"
    using assms(2) by (simp only: unat_of_nat) simp
  then show ?thesis using packed [of dest] True d l by (simp add: compressed_block_def Let_def)
next
  case False
  then have "(if level > 0 \<and> length src \<ge> minimumSizeToAttemptCompression then z (length src) src level else None) = None"
    by auto
  moreover have "unat (of_nat (5 + length src) :: u32) = 5 + length src"
    using assms(2) by (simp only: unat_of_nat) simp
  ultimately show ?thesis using plain by (simp add: compressed_block_def Let_def)
qed

lemma processCompressed_block:
  assumes "zlib_ok z u" and "length src < 2 ^ 31 - 9"
  shows "processCompressed u [] (compressed_block z level src) = (subframes src, [])"
    and "take 4 (compressed_block z level src) = enc_word 4 (of_nat (length (compressed_block z level src)) :: u32)"
    and "length (compressed_block z level src) < 2 ^ 32" and "0 < length (compressed_block z level src)"
proof -
  have s: "processCompressedSubframes src = subframes src"
    using assms(2) by (intro processCompressedSubframes_small) simp
  have "processCompressed u [] (compressed_block z level src) = (subframes src, [])
    \<and> take 4 (compressed_block z level src) = enc_word 4 (of_nat (length (compressed_block z level src)) :: u32)
    \<and> length (compressed_block z level src) < 2 ^ 32 \<and> 0 < length (compressed_block z level src)"
  proof (rule compressed_block_cases [OF assms, of level])
    assume plain: "compressed_block z level src = enc_word 4 (of_nat (5 + length src) :: u32) @ [0] @ src"
    have "unat (of_nat (5 + length src) :: u32) = 5 + length src"
      using assms(2) by (simp only: unat_of_nat) simp
    then show ?thesis using assms(2) s unfolding plain
      by (simp add: processCompressed_def Let_def nth_append del: of_nat_add of_nat_numeral)
  next
    fix dest
    assume packed: "compressed_block z level src
      = enc_word 4 (of_nat (9 + length dest) :: u32) @ [1] @ enc_word 4 (of_nat (length src) :: u32) @ dest"
      "length dest \<le> length src" "u (length src) dest = src"
    have "unat (of_nat (9 + length dest) :: u32) = 9 + length dest" "unat (of_nat (length src) :: u32) = length src"
      using assms(2) packed(2) by (simp_all only: unat_of_nat) simp_all
    then show ?thesis using assms(2) s packed(2,3) unfolding packed(1)
      by (simp add: processCompressed_def Let_def nth_append del: of_nat_add of_nat_numeral)
  qed
  then show "processCompressed u [] (compressed_block z level src) = (subframes src, [])"
    and "take 4 (compressed_block z level src) = enc_word 4 (of_nat (length (compressed_block z level src)) :: u32)"
    and "length (compressed_block z level src) < 2 ^ 32" and "0 < length (compressed_block z level src)"
    by blast+
qed

section \<open>Properties\<close>

definition enqueue_compressed :: "bytes list \<Rightarrow> SendQueue \<Rightarrow> SendQueue" where
  "enqueue_compressed datas q = fold (\<lambda>d q. sq_enqueue q DATA d MRUDP_COALESCE_STREAM_COMPRESSED) datas q"

lemma enqueue_compressed_state:
  "sq_status q = IS_OPEN \<Longrightarrow>
   enqueue_compressed datas q = q\<lparr>sq_buffer := sq_buffer q @ concat (map (enc_subframe DATA) datas)\<rparr>"
proof (induction datas arbitrary: q)
  case (Cons d datas)
  have step: "sq_enqueue q DATA d MRUDP_COALESCE_STREAM_COMPRESSED = q\<lparr>sq_buffer := sq_buffer q @ enc_subframe DATA d\<rparr>"
    using Cons.prems by (simp only: sq_enqueue_compressed enc_subframe_def)
  show ?case using Cons.IH [of "q\<lparr>sq_buffer := sq_buffer q @ enc_subframe DATA d\<rparr>"] Cons.prems
    by (simp add: enqueue_compressed_def step del: MRUDP_COALESCE_STREAM_COMPRESSED_def DATA_def)
qed (simp add: enqueue_compressed_def)

text \<open>
  C30: The messages enqueued in compressed-stream mode, compressed by the sender into one block and cut into
  frames, come out of the receiver one by one and unchanged when it processes the frames in order,
  and leave its compression buffer empty.
\<close>

theorem compressed_roundtrip:
  assumes "zlib_ok z u" and "sq_inv q" and "sq_status q = IS_OPEN" and "sq_buffer q = []"
    and "length (concat (map (enc_subframe DATA) datas)) < 2 ^ 31 - 9"
  shows "\<exists>new. sq_frames (sq_compress z level (enqueue_compressed datas q)) = sq_frames q @ new
    \<and> (\<forall>f \<in> set new. f_type f = DATA_COMPRESSED)
    \<and> processCompressed_frames u [] (map f_data new) = ((datas, False), [])"
proof -
  let ?src = "concat (map (enc_subframe DATA) datas)"
  have q: "enqueue_compressed datas q = q\<lparr>sq_buffer := ?src\<rparr>"
    using assms(3,4) by (simp add: enqueue_compressed_state)
  have "sq_inv (q\<lparr>sq_buffer := ?src\<rparr>)" using assms(2) by (simp add: sq_inv_def)
  from sq_compress_adds [OF this, of z level] obtain new where
    new: "adds_frames (q\<lparr>sq_buffer := ?src\<rparr>) DATA_COMPRESSED (compressed_block z level ?src) new
      ((sq_compress z level (q\<lparr>sq_buffer := ?src\<rparr>))\<lparr>sq_buffer := ?src\<rparr>)"
    by auto
  note blk = processCompressed_block [OF assms(1,5), of level]
  have "subframes ?src = (datas, False)" using assms(5) by (intro subframes_concat) simp
  then have "processCompressed_frames u [] (map f_data new) = ((datas, False), [])"
    using new blk by (intro block_frames [where block = "compressed_block z level ?src"])
      (simp_all add: adds_frames_def)
  with new show ?thesis unfolding q by (intro exI [of _ new]) (simp add: adds_frames_def sq_frames_def)
qed

definition example_z :: compressor where
  "example_z cap src level = (if length src \<le> cap then Some (rev src) else None)"

definition example_u :: decompressor where
  "example_u cap src = rev src"

theorem compressed_roundtrip_witness:
  "\<exists>new. sq_frames (sq_compress example_z 1 (enqueue_compressed [replicate 30 1, replicate 40 2] new_SendQueue)) = new
    \<and> processCompressed_frames example_u [] (map f_data new) = (([replicate 30 1, replicate 40 2], False), [])"
proof -
  have "zlib_ok example_z example_u"
    by (auto simp: zlib_ok_def example_z_def example_u_def split: if_splits)
  moreover have "sq_inv new_SendQueue" "sq_status new_SendQueue = IS_OPEN" "sq_buffer new_SendQueue = []"
    "sq_frames new_SendQueue = []"
    by (simp_all add: new_SendQueue_def sq_inv_def sq_frames_def)
  moreover have "length (concat (map (enc_subframe DATA) [replicate 30 1, replicate 40 2])) < 2 ^ 31 - 9"
    by (simp add: enc_subframe_def)
  ultimately show ?thesis
    using compressed_roundtrip [of example_z example_u new_SendQueue "[replicate 30 1, replicate 40 2]" 1] by auto
qed

end
