(* ===== verification/Connection_Receive.thy ===== *)
theory Connection_Receive
  imports Connection_Close Decompress
begin

text \<open>
  What a connection does with a packet that arrives: \<^verbatim>\<open>mrudp/receiver/Receiver.cpp\<close>,
  \<^verbatim>\<open>mrudp/Handshake.cpp\<close>, \<^verbatim>\<open>Handshake_Options::onReceive\<close>, \<^verbatim>\<open>mrudp/NetworkPath.cpp\<close> and
  \<^verbatim>\<open>Connection::receive\<close>, with the user's entry points \<^verbatim>\<open>openUser\<close>, \<^verbatim>\<open>open\<close> and \<^verbatim>\<open>send\<close>.
  \<open>z\<close> and \<open>u\<close> are zlib's \<^verbatim>\<open>compress2\<close> and \<^verbatim>\<open>uncompress\<close>.
\<close>

section \<open>Receiver\<close>

text \<open>\<^verbatim>\<open>Connection::receive(char *, int, Reliability)\<close>.\<close>

definition receive_data :: "bytes \<Rightarrow> Reliability \<Rightarrow> Connection \<Rightarrow> Connection" where
  "receive_data buffer reliability c =
     (let c1 = (if c_receiveHandler c then emit (UserReceive (c_userData c) buffer reliability) c else c)
      in c1\<lparr>c_statistics := stat_onReceiveDataFrame (length buffer) reliability (c_statistics c1)\<rparr>)"

definition over_read :: "bool \<Rightarrow> Connection \<Rightarrow> Connection" where
  "over_read over c = (if over then emit OverRead c else c)"

definition receive_compressed :: "decompressor \<Rightarrow> bytes \<Rightarrow> Connection \<Rightarrow> Connection" where
  "receive_compressed u data c =
     (let r = processCompressed u (rv_compressed (c_receiver c)) data;
          c1 = c\<lparr>c_receiver := (c_receiver c)\<lparr>rv_compressed := snd r\<rparr>\<rparr>
      in over_read (snd (fst r)) (fold (\<lambda>d. receive_data d RELIABLE) (fst (fst r)) c1))"

definition processReceived ::
  "compressor \<Rightarrow> decompressor \<Rightarrow> timepoint \<Rightarrow> Reliability \<Rightarrow> Frame \<Rightarrow> Connection \<Rightarrow> Connection" where
  "processReceived z u now reliability frame c =
     (if f_type frame = ACK_FRAME
      then if length (f_data frame) < 4 then over_read True c
           else onAck z now (dec_word (take 2 (f_data frame))) (dec_word (take 2 (drop 2 (f_data frame)))) c
      else if f_type frame = DATA then receive_data (f_data frame) reliability c
      else if f_type frame = DATA_COMPRESSED then receive_compressed u (f_data frame) c
      else if f_type frame = CLOSE_WRITE
      then if reliability = RELIABLE then possiblyClose now (receiver_close now c) else c
      else c)"

definition set_receiveQueue :: "ReceiveQueue \<Rightarrow> Connection \<Rightarrow> Connection" where
  "set_receiveQueue q c = c\<lparr>c_receiver := (c_receiver c)\<lparr>rv_receiveQueue := q\<rparr>\<rparr>"

text \<open>
  The frames a queue delivers are processed as they are delivered; no processing touches the
  receive queue.
\<close>

definition receiver_open :: "compressor \<Rightarrow> decompressor \<Rightarrow> timepoint \<Rightarrow> Connection \<Rightarrow> Connection" where
  "receiver_open z u now c =
     (let (frames, q) = processQueue (rv_receiveQueue (c_receiver c));
          c1 = fold (processReceived z u now RELIABLE) frames (set_receiveQueue q c)
      in if rv_status (c_receiver c1) = UNINITIALIZED then set_rv_status OPEN c1 else c1)"

definition requiresAck :: "TypeID \<Rightarrow> bool" where
  "requiresAck typeID \<longleftrightarrow> typeID = DATA_RELIABLE \<or> typeID = PROBE \<or> typeID = CLOSE_READ"

definition receiver_dispatch ::
  "compressor \<Rightarrow> decompressor \<Rightarrow> timepoint \<Rightarrow> Packet \<Rightarrow> Connection \<Rightarrow> Connection" where
  "receiver_dispatch z u now packet c =
     (if pk_type packet = DATA_RELIABLE
      then let (frames, q) = rq_onReceive (rv_receiveQueue (c_receiver c)) packet
           in fold (processReceived z u now RELIABLE) frames (set_receiveQueue q c)
      else if pk_type packet = DATA_UNRELIABLE
      then let (frames, over) = urq_onReceive packet
           in over_read over (fold (processReceived z u now UNRELIABLE) frames c)
      else c)"

definition receiver_onReceive ::
  "compressor \<Rightarrow> decompressor \<Rightarrow> timepoint \<Rightarrow> Packet \<Rightarrow> Connection \<Rightarrow> Connection" where
  "receiver_onReceive z u now packet c =
     (if rv_status (c_receiver c) \<noteq> OPEN then c
      else receiver_dispatch z u now packet
             (if requiresAck (pk_type packet) then sender_ack z now (pk_id packet) c else c))"

section \<open>Handshake\<close>

definition set_waitingFor :: "TypeID \<Rightarrow> Connection \<Rightarrow> Connection" where
  "set_waitingFor t c = c\<lparr>c_handshake := (c_handshake c)\<lparr>hs_waitingFor := t\<rparr>\<rparr>"

definition initiate :: "timepoint \<Rightarrow> Connection \<Rightarrow> Connection" where
  "initiate now c = set_waitingFor H1 (sendReliably now (set_type H0 new_packet) None c)"

definition readRemoteID :: "Packet \<Rightarrow> ShortConnectionID \<times> Packet" where
  "readRemoteID packet =
     (case popData packet 2 of None \<Rightarrow> (0, packet) | Some (bs, packet1) \<Rightarrow> (dec_word bs, packet1))"

definition onHandshakeComplete :: "compressor \<Rightarrow> decompressor \<Rightarrow> timepoint \<Rightarrow> Connection \<Rightarrow> Connection" where
  "onHandshakeComplete z u now c = sender_open z now (receiver_open z u now c)"

definition handshake_ack :: "TypeID \<Rightarrow> Packet \<Rightarrow> Packet" where
  "handshake_ack t packet = set_id (pk_id packet) (set_type t new_packet)"

definition handlePacket ::
  "compressor \<Rightarrow> decompressor \<Rightarrow> timepoint \<Rightarrow> Packet \<Rightarrow> Connection \<Rightarrow> Packet \<times> Connection" where
  "handlePacket z u now packet c =
     (let received = pk_type packet
      in if received = H0
         then let c1 = conn_send now (handshake_ack H1 packet) None c
              in (packet, if hs_waitingFor (c_handshake c1) = H0 then set_waitingFor H2 c1 else c1)
         else if received = H1
         then (packet,
               if hs_waitingFor (c_handshake c) = H1
               then sendReliably now (snd (pushT (set_type H2 new_packet) (enc_word 2 (c_localID c)))) None
                      (set_waitingFor H3 c)
               else c)
         else if received = H2
         then let (remoteID, packet1) = readRemoteID packet;
                  c1 = conn_send now (snd (pushT (handshake_ack H3 packet1) (enc_word 2 (c_localID c)))) None c
              in (packet1,
                  if hs_waitingFor (c_handshake c1) = H2
                  then let c2 = (set_waitingFor HANDSHAKE_COMPLETE c1)\<lparr>c_remoteID := remoteID\<rparr>
                       in onHandshakeComplete z u now
                            (c2\<lparr>c_handshake := (c_handshake c2)\<lparr>hs_firstNonHandshakePacketID := pk_id packet1 + 1\<rparr>\<rparr>)
                  else c1)
         else if received = H3
         then let (remoteID, packet1) = readRemoteID packet
              in (packet1,
                  if hs_waitingFor (c_handshake c) = H3
                  then onHandshakeComplete z u now ((set_waitingFor HANDSHAKE_COMPLETE c)\<lparr>c_remoteID := remoteID\<rparr>)
                  else c)
         else (packet, c))"

definition handshake_onReceive ::
  "compressor \<Rightarrow> decompressor \<Rightarrow> timepoint \<Rightarrow> Packet \<Rightarrow> Connection \<Rightarrow> Packet \<times> Connection" where
  "handshake_onReceive z u now packet c =
     (if \<not> isHandshake (pk_type packet) then (packet, c) else handlePacket z u now packet c)"

text \<open>\<^verbatim>\<open>Handshake_Options::onReceive\<close>: \<open>None\<close> is \<^verbatim>\<open>Discard\<close>.\<close>

definition ho_onReceive :: "Packet \<Rightarrow> Connection \<Rightarrow> (Packet \<times> Connection) option" where
  "ho_onReceive packet c =
     (if pk_type packet = H3
      then (case popData packet 6 of
              None \<Rightarrow> None
            | Some (bs, packet1) \<Rightarrow>
                Some (packet1, c\<lparr>c_options := (c_options c)\<lparr>
                  opt_probe_delay_ms := sint (dec_word (take 4 bs) :: u32),
                  opt_maximum_retry_attempts := sint (dec_word (drop 4 bs) :: u16)\<rparr>\<rparr>))
      else Some (packet, c))"

section \<open>Network path\<close>

definition time_seconds :: "timepoint \<Rightarrow> u64" where
  "time_seconds now = word_of_int (if now < 0 then - ((- now) div 1000000000) else now div 1000000000)"

definition challenge_packet :: "timepoint \<Rightarrow> Address option \<Rightarrow> Packet" where
  "challenge_packet now address =
     (let packet = set_type AUTHENTICATE_CHALLENGE new_packet;
          a = (case address of None \<Rightarrow> empty_address | Some a \<Rightarrow> a);
          basis = enc_word 8 (time_seconds now) @ a;
          packet1 = snd (pushSizedData packet basis)
      in snd (pushSizedData packet1 []))"

definition sendChallenge :: "timepoint \<Rightarrow> Address \<Rightarrow> Connection \<Rightarrow> Connection" where
  "sendChallenge now address c =
     sendReliablyMultipath now
       (map (\<lambda>a. (challenge_packet now a, a)) [None, Some address]) True c"

definition sendChallengeResponse :: "timepoint \<Rightarrow> Packet \<Rightarrow> Connection \<Rightarrow> Connection" where
  "sendChallengeResponse now packet c =
     conn_send now ((set_id (pk_id packet) (set_type AUTHENTICATE_RESPONSE new_packet))\<lparr>pk_data := pk_data packet\<rparr>) None c"

definition verifyChallengeResponse :: "timepoint \<Rightarrow> Packet \<Rightarrow> Address \<Rightarrow> Connection \<Rightarrow> bool \<times> Packet" where
  "verifyChallengeResponse now packet path c =
     (case popVector packet of
        (None, packet1) \<Rightarrow> (False, packet1)
      | (Some signature, packet1) \<Rightarrow>
          (case popVector packet1 of
             (None, packet2) \<Rightarrow> (False, packet2)
           | (Some basis, packet2) \<Rightarrow>
               if length basis \<noteq> address_size + 8 then (False, packet2)
               else let sentTime = dec_word (take 8 basis) :: u64;
                        address = drop 8 basis
                    in if time_seconds now - sentTime > 60 then (False, packet2)
                       else if address = empty_address
                       then (path = c_remoteAddress c, packet2)
                       else (address = path, packet2)))"

definition onRemoteAddressChanged :: "Address \<Rightarrow> Connection \<Rightarrow> Connection" where
  "onRemoteAddressChanged remoteAddress c = emit RemoteAddressChanged (c\<lparr>c_remoteAddress := remoteAddress\<rparr>)"

text \<open>\<^verbatim>\<open>NetworkPath::onReceive\<close>: whether the packet is kept, the packet, and the connection.\<close>

definition np_onReceive :: "timepoint \<Rightarrow> Packet \<Rightarrow> Address \<Rightarrow> Connection \<Rightarrow> bool \<times> Packet \<times> Connection" where
  "np_onReceive now packet from c =
     (if pk_type packet = AUTHENTICATE_CHALLENGE then (True, packet, sendChallengeResponse now packet c)
      else if from \<noteq> c_remoteAddress c
      then if pk_type packet = AUTHENTICATE_RESPONSE
           then (case verifyChallengeResponse now packet from c of
                   (True, packet1) \<Rightarrow> (True, packet1, onRemoteAddressChanged from c)
                 | (False, packet1) \<Rightarrow> (False, packet1, c))
           else (False, packet, sendChallenge now from c)
      else (True, packet, c))"

section \<open>The connection\<close>

definition conn_receive ::
  "compressor \<Rightarrow> decompressor \<Rightarrow> timepoint \<Rightarrow> Packet \<Rightarrow> Address \<Rightarrow> Connection \<Rightarrow> Connection" where
  "conn_receive z u now packet remoteAddress c =
     (case ho_onReceive packet c of
        None \<Rightarrow> c
      | Some (packet1, c1) \<Rightarrow>
          (let c2 = c1\<lparr>c_statistics := stat_onReceive packet1 (c_statistics c1)\<rparr>
           in case np_onReceive now packet1 remoteAddress c2 of
                (False, _, c3) \<Rightarrow> c3
              | (True, packet2, c3) \<Rightarrow>
                  (case handshake_onReceive z u now packet2 c3 of
                     (packet3, c4) \<Rightarrow>
                       receiver_onReceive z u now packet3 (sender_onReceive z now packet3 (probe_on now c4)))))"

definition openUser :: "ConnectionOptions option \<Rightarrow> nat \<Rightarrow> bool \<Rightarrow> bool \<Rightarrow> Connection \<Rightarrow> Connection" where
  "openUser opts userData receiveHandler closeHandler c =
     (let c1 = (case opts of None \<Rightarrow> c | Some o1 \<Rightarrow> c\<lparr>c_options := merge o1 (c_options c)\<rparr>)
      in if c_userDataDisposed c1
         then c1\<lparr>c_userDataDisposed := False, c_userData := userData, c_receiveHandler := receiveHandler,
                 c_closeHandler := closeHandler\<rparr>
         else c1)"

text \<open>\<open>imp_status\<close> is what the implementation's \<^verbatim>\<open>open\<close> returns.\<close>

definition conn_open :: "timepoint \<Rightarrow> int \<Rightarrow> Connection \<Rightarrow> int \<times> Connection" where
  "conn_open now imp_status c = (if imp_status \<noteq> MRUDP_OK then (imp_status, c) else (MRUDP_OK, probe_on now c))"

definition user_send ::
  "compressor \<Rightarrow> timepoint \<Rightarrow> bytes \<Rightarrow> Reliability \<Rightarrow> Connection \<Rightarrow> int \<times> Connection" where
  "user_send z now buffer reliability c =
     sender_send z now buffer reliability
       (c\<lparr>c_statistics := stat_onSendDataFrame (length buffer) reliability (c_statistics c)\<rparr>)"

end
