(* ===== verification/Connection_Inv.thy ===== *)
theory Connection_Inv
  imports Connection_Receive
begin

text \<open>
  The invariant of a connection and what any handler may emit. The shape of the handshake packets, the
  size of every packet given to the socket and the discipline of the user's callbacks are stated
  for one step and carried through every operation in the order of the code.
\<close>

section \<open>Effects\<close>

text \<open>The payload of a packet as it leaves: with the long identifier when the short one is not known.\<close>

definition id_suffix :: "LongConnectionID \<Rightarrow> Packet \<Rightarrow> bytes" where
  "id_suffix cid p = (if h_connection (pk_header p) = 0 then cid else [])"

text \<open>\<open>K\<close> is the set of handshake types the connection may send.\<close>

definition kind_ok :: "TypeID set \<Rightarrow> TypeID \<Rightarrow> bool" where
  "kind_ok K t \<longleftrightarrow> (isHandshake t \<longrightarrow> t \<in> K)"

definition sent_ok :: "TypeID set \<Rightarrow> ShortConnectionID \<Rightarrow> LongConnectionID \<Rightarrow> Packet \<Rightarrow> bool" where
  "sent_ok K lid cid p \<longleftrightarrow> wf_packet p \<and> kind_ok K (pk_type p)
     \<and> (pk_type p = H2 \<longrightarrow> pk_data p = enc_word 2 lid @ id_suffix cid p)
     \<and> (pk_type p = H3 \<longrightarrow> (\<exists>opts. length opts = 6 \<and> pk_data p = enc_word 2 lid @ opts @ id_suffix cid p))"

definition effect_ok :: "TypeID set \<Rightarrow> ShortConnectionID \<Rightarrow> LongConnectionID \<Rightarrow> effect \<Rightarrow> bool" where
  "effect_ok K lid cid e = (case e of SocketSend p a \<Rightarrow> sent_ok K lid cid p | _ \<Rightarrow> True)"

text \<open>
  The user's callbacks: any number of receives, then at most one close, then nothing. The state is
  whether the close has been seen.
\<close>

fun user_run :: "bool \<Rightarrow> effect list \<Rightarrow> bool option" where
  "user_run b [] = Some b"
| "user_run b (UserReceive d bs r # es) = (if b then None else user_run b es)"
| "user_run b (UserClose d ev # es) = (if b then None else user_run True es)"
| "user_run b (SocketSend p a # es) = user_run b es"
| "user_run b (SetTimeout t w # es) = user_run b es"
| "user_run b (SocketErase # es) = user_run b es"
| "user_run b (RemoteAddressChanged # es) = user_run b es"
| "user_run b (OverRead # es) = user_run b es"

definition is_io :: "effect \<Rightarrow> bool" where
  "is_io e = (case e of UserReceive _ _ _ \<Rightarrow> False | UserClose _ _ \<Rightarrow> False | _ \<Rightarrow> True)"

lemma user_run_append: "user_run b (es @ fs) = Option.bind (user_run b es) (\<lambda>b'. user_run b' fs)"
  by (induction b es rule: user_run.induct) auto

lemma user_run_True: "user_run True es = Some b \<Longrightarrow> list_all is_io es \<and> b"
  by (induction True es rule: user_run.induct) (auto simp: is_io_def)

lemma user_run_io: "list_all is_io es \<Longrightarrow> user_run b es = Some b"
  by (induction b es rule: user_run.induct) (auto simp: is_io_def)

section \<open>The invariant\<close>

definition storable :: "TypeID set \<Rightarrow> ShortConnectionID \<Rightarrow> Packet \<Rightarrow> bool" where
  "storable K lid p \<longleftrightarrow> wf_packet p \<and> kind_ok K (pk_type p) \<and> pk_type p \<noteq> H3 \<and> (pk_type p = H2 \<longrightarrow> pk_data p = enc_word 2 lid)"

definition retries_ok :: "TypeID set \<Rightarrow> ShortConnectionID \<Rightarrow> Retrier \<Rightarrow> bool" where
  "retries_ok K lid r \<longleftrightarrow> om_inv (re_window r) \<and>
     (\<forall>(i, retry) \<in> set (re_window r). \<forall>pa \<in> set (rt_paths retry). storable K lid (fst pa))"

definition user_inv :: "Connection \<Rightarrow> bool" where
  "user_inv c \<longleftrightarrow> (c_userDataDisposed c \<longrightarrow> \<not> c_receiveHandler c \<and> \<not> c_closeHandler c) \<and> (c_closed c \<longrightarrow> c_userDataDisposed c)"

definition conn_inv :: "TypeID set \<Rightarrow> Connection \<Rightarrow> bool" where
  "conn_inv K c \<longleftrightarrow> length (c_id c) = 16 \<and> sq_inv (sn_dataQueue (c_sender c))
     \<and> sq_inv (sn_unreliableDataQueue (c_sender c)) \<and> retries_ok K (c_localID c) (sn_retrier (c_sender c)) \<and> user_inv c"

text \<open>
  What the user gave to \<^verbatim>\<open>openUser\<close> stays until it is disposed of, and it is disposed of with a close
  callback when there is a handler for it.
\<close>

definition session :: "Connection \<Rightarrow> nat \<times> bool \<times> bool" where
  "session c = (c_userData c, c_receiveHandler c, c_closeHandler c)"

definition session_step :: "bool \<Rightarrow> Connection \<Rightarrow> Connection \<Rightarrow> bool" where
  "session_step b c c' \<longleftrightarrow> (b \<longrightarrow> c_userDataDisposed c') \<and> (c_userDataDisposed c \<longrightarrow> c_userDataDisposed c')
     \<and> (c_userDataDisposed c' \<and> \<not> c_userDataDisposed c \<and> c_closeHandler c \<longrightarrow> b)
     \<and> (\<not> c_userDataDisposed c' \<longrightarrow> session c' = session c)"

definition callback_to :: "nat \<Rightarrow> effect \<Rightarrow> bool" where
  "callback_to d e = (case e of UserReceive d' _ _ \<Rightarrow> d' = d | UserClose d' _ \<Rightarrow> d' = d | _ \<Rightarrow> True)"

definition conn_step0 :: "TypeID set \<Rightarrow> Connection \<Rightarrow> Connection \<Rightarrow> bool" where
  "conn_step0 K c c' \<longleftrightarrow> conn_inv K c' \<and> c_id c' = c_id c \<and> c_localID c' = c_localID c
     \<and> (\<exists>es b. c_out c' = c_out c @ es \<and> list_all (effect_ok K (c_localID c) (c_id c)) es
          \<and> list_all (callback_to (c_userData c)) es \<and> user_run (c_userDataDisposed c) es = Some b \<and> session_step b c c')"

lemma conn_step0D: "conn_step0 K c c' \<Longrightarrow> conn_inv K c'"
  by (simp add: conn_step0_def)

lemma conn_step0_refl: "conn_inv K c \<Longrightarrow> conn_step0 K c c"
  by (auto simp: conn_step0_def session_step_def intro: exI [of _ "[]"])

lemma callback_to_io: "list_all is_io es \<Longrightarrow> list_all (callback_to d) es"
  by (induction es) (auto simp: is_io_def callback_to_def split: effect.splits)

lemma session_run_trans:
  assumes "user_run (c_userDataDisposed a) es1 = Some b1" and "session_step b1 a b"
    and "user_run (c_userDataDisposed b) es2 = Some b2" and "session_step b2 b c"
  shows "\<exists>b3. user_run (c_userDataDisposed a) (es1 @ es2) = Some b3 \<and> session_step b3 a c"
proof (cases "b1 = c_userDataDisposed b")
  case True
  with assms have "user_run (c_userDataDisposed a) (es1 @ es2) = Some b2" by (simp add: user_run_append)
  moreover have "b1 \<Longrightarrow> b2" using True assms(3) user_run_True [of es2 b2] by simp
  with True have "session_step b2 a c" using assms(2,4) by (auto simp: session_step_def session_def)
  ultimately show ?thesis by blast
next
  case False
  with assms(2) have b: "c_userDataDisposed b" "\<not> b1" by (auto simp: session_step_def)
  with assms(3) user_run_True [of es2 b2] have "list_all is_io es2" by simp
  with b(2) have "user_run (c_userDataDisposed a) (es1 @ es2) = Some False"
    using assms(1) by (simp add: user_run_append user_run_io)
  moreover have "session_step False a c" using assms(2,4) b by (auto simp: session_step_def)
  ultimately show ?thesis by blast
qed

lemma conn_step0_trans:
  assumes "conn_step0 K a b" and "conn_step0 K b c"
  shows "conn_step0 K a c"
proof -
  obtain es1 b1 where 1: "c_out b = c_out a @ es1" "list_all (effect_ok K (c_localID a) (c_id a)) es1"
    "list_all (callback_to (c_userData a)) es1" "user_run (c_userDataDisposed a) es1 = Some b1" "session_step b1 a b"
    using assms(1) unfolding conn_step0_def by blast
  obtain es2 b2 where 2: "c_out c = c_out b @ es2" "list_all (effect_ok K (c_localID b) (c_id b)) es2"
    "list_all (callback_to (c_userData b)) es2" "user_run (c_userDataDisposed b) es2 = Some b2" "session_step b2 b c"
    using assms(2) unfolding conn_step0_def by blast
  obtain b3 where "user_run (c_userDataDisposed a) (es1 @ es2) = Some b3" "session_step b3 a c"
    using session_run_trans [OF 1(4,5) 2(4,5)] by blast
  moreover have "list_all (callback_to (c_userData a)) es2"
  proof (cases "c_userDataDisposed b")
    case True
    then show ?thesis using 2(4) user_run_True [of es2 b2] by (simp add: callback_to_io)
  next
    case False
    then show ?thesis using 1(5) 2(3) by (simp add: session_step_def session_def)
  qed
  moreover have "c_out c = c_out a @ es1 @ es2" "list_all (effect_ok K (c_localID a) (c_id a)) (es1 @ es2)"
    using 1 2 assms(1) by (simp_all add: conn_step0_def)
  moreover have "conn_inv K c" "c_id c = c_id a" "c_localID c = c_localID a"
    using assms by (simp_all add: conn_step0_def)
  ultimately show ?thesis using 1(3) unfolding conn_step0_def
    by (intro conjI exI [of _ "es1 @ es2"] exI [of _ b3]) simp_all
qed

text \<open>
  What only the handshake and the network path may change: the remote identifier and address, the state
  of the handshake, and the options.
\<close>

definition fixed :: "Connection \<Rightarrow> ShortConnectionID \<times> Handshake \<times> Address \<times> ConnectionOptions" where
  "fixed c = (c_remoteID c, c_handshake c, c_remoteAddress c, c_options c)"

definition conn_step :: "TypeID set \<Rightarrow> Connection \<Rightarrow> Connection \<Rightarrow> bool" where
  "conn_step K c c' \<longleftrightarrow> conn_step0 K c c' \<and> fixed c' = fixed c"

lemma conn_step_weak: "conn_step K c c' \<Longrightarrow> conn_step0 K c c'"
  by (simp add: conn_step_def)

lemma conn_stepD [dest]: "conn_step K c c' \<Longrightarrow> conn_inv K c'"
  by (simp add: conn_step_def conn_step0D [of K c])

lemma conn_step_refl: "conn_inv K c \<Longrightarrow> conn_step K c c"
  by (simp add: conn_step_def conn_step0_refl)

lemma conn_step_trans: "conn_step K a b \<Longrightarrow> conn_step K b c \<Longrightarrow> conn_step K a c"
  using conn_step0_trans [of K a b c] by (simp add: conn_step_def)

lemma conn_step_fold:
  assumes "conn_inv K c" and "\<And>x c. x \<in> set xs \<Longrightarrow> conn_inv K c \<Longrightarrow> conn_step K c (f x c)"
  shows "conn_step K c (fold f xs c)"
  using assms
proof (induction xs arbitrary: c)
  case (Cons x xs)
  have "conn_step K c (f x c)" using Cons.prems by simp
  moreover have "conn_step K (f x c) (fold f xs (f x c))"
    using Cons.prems(2) conn_stepD [OF calculation] by (intro Cons.IH) simp_all
  ultimately show ?case by (simp add: conn_step_trans)
qed (simp add: conn_step_refl)

text \<open>A step that emits one harmless effect, or none.\<close>

lemma conn_step0_emit:
  assumes "conn_inv K c" and "conn_inv K c'" and "c_id c' = c_id c" and "c_localID c' = c_localID c"
    and "c_userDataDisposed c' = c_userDataDisposed c" and "session c' = session c"
    and "c_out c' = c_out c @ es" and "list_all is_io es" and "list_all (effect_ok K (c_localID c) (c_id c)) es"
  shows "conn_step0 K c c'"
proof -
  have "user_run (c_userDataDisposed c) es = Some (c_userDataDisposed c)" using assms by (simp add: user_run_io)
  moreover have "session_step (c_userDataDisposed c) c c'" using assms by (simp add: session_step_def)
  ultimately show ?thesis using assms callback_to_io unfolding conn_step0_def by blast
qed

lemma conn_inv_rest:
  assumes "rest c' = rest c"
  shows "conn_inv K c' = conn_inv K c"
  by (simp add: conn_inv_def user_inv_def rest_fields [OF assms])

lemma conn_step0_upd:
  assumes "conn_inv K c" and "conn_inv K c'" and "c_id c' = c_id c" and "c_localID c' = c_localID c"
    and "c_userDataDisposed c' = c_userDataDisposed c" and "session c' = session c" and "c_out c' = c_out c"
  shows "conn_step0 K c c'"
  using conn_step0_emit [OF assms(1-6), of "[]"] assms(7) by simp

lemma conn_step_upd:
  assumes "conn_inv K c" and "conn_inv K c'" and "c_id c' = c_id c" and "c_localID c' = c_localID c"
    and "c_userDataDisposed c' = c_userDataDisposed c" and "session c' = session c" and "c_out c' = c_out c"
    and "fixed c' = fixed c"
  shows "conn_step K c c'"
  using conn_step0_upd [OF assms(1-7)] assms(8) by (simp add: conn_step_def)

lemma fixed_rest:
  assumes "rest c' = rest c"
  shows "fixed c' = fixed c"
  by (simp add: fixed_def rest_fields [OF assms])

lemma session_rest:
  assumes "rest c' = rest c"
  shows "session c' = session c"
  by (simp add: session_def rest_fields [OF assms])

lemma emit_step:
  assumes "conn_inv K c" and "is_io e" and "effect_ok K (c_localID c) (c_id c) e"
  shows "conn_step K c (emit e c)"
proof -
  have "conn_step0 K c (emit e c)" using assms conn_inv_rest [OF rest_emit, of K e c] session_rest [OF rest_emit, of e c]
    by (intro conn_step0_emit [where es = "[e]"]) (simp_all, simp add: emit_def)
  then show ?thesis by (simp add: conn_step_def fixed_rest [OF rest_emit])
qed

lemma timeout_step: "conn_inv K c \<Longrightarrow> conn_step K c (emit (SetTimeout t w) c)"
  by (rule emit_step) (simp_all add: is_io_def effect_ok_def)

lemma set_timeout_step: "conn_inv K c \<Longrightarrow> conn_step K c (set_timeout t w c)"
  by (simp add: set_timeout_def conn_step_refl timeout_step split: option.splits)

text \<open>Fields that neither the invariant nor the steps look at.\<close>

lemma conn_inv_upds [simp]:
  "conn_inv K (c\<lparr>c_probe := x1\<rparr>) = conn_inv K c" "conn_inv K (c\<lparr>c_statistics := x2\<rparr>) = conn_inv K c"
  "conn_inv K (c\<lparr>c_receiver := x3\<rparr>) = conn_inv K c" "conn_inv K (c\<lparr>c_handshake := x4\<rparr>) = conn_inv K c"
  "conn_inv K (c\<lparr>c_options := x5\<rparr>) = conn_inv K c" "conn_inv K (c\<lparr>c_remoteID := x6\<rparr>) = conn_inv K c"
  "conn_inv K (c\<lparr>c_closeReason := x7\<rparr>) = conn_inv K c"
  "conn_inv K (c\<lparr>c_remoteAddress := x9\<rparr>) = conn_inv K c"
  by (simp_all add: conn_inv_def user_inv_def)

lemma upd_steps [simp]:
  "conn_inv K c \<Longrightarrow> conn_step K c (c\<lparr>c_probe := x1\<rparr>)" "conn_inv K c \<Longrightarrow> conn_step K c (c\<lparr>c_statistics := x2\<rparr>)"
  "conn_inv K c \<Longrightarrow> conn_step K c (c\<lparr>c_receiver := x3\<rparr>)"
  "conn_inv K c \<Longrightarrow> conn_step K c (c\<lparr>c_closeReason := x7\<rparr>)"
  by (rule conn_step_upd; simp add: fixed_def session_def)+

lemma upd_steps0 [simp]:
  "conn_inv K c \<Longrightarrow> conn_step0 K c (c\<lparr>c_handshake := x4\<rparr>)" "conn_inv K c \<Longrightarrow> conn_step0 K c (c\<lparr>c_options := x5\<rparr>)"
  "conn_inv K c \<Longrightarrow> conn_step0 K c (c\<lparr>c_remoteID := x6\<rparr>)" "conn_inv K c \<Longrightarrow> conn_step0 K c (c\<lparr>c_remoteAddress := x9\<rparr>)"
  by (rule conn_step0_upd; simp add: session_def)+

lemma conn_step0_if:
  "(b \<Longrightarrow> conn_step0 K c x) \<Longrightarrow> (\<not> b \<Longrightarrow> conn_step0 K c y) \<Longrightarrow> conn_step0 K c (if b then x else y)"
  by simp

lemma conn_step0_then:
  "conn_step0 K a b \<Longrightarrow> (conn_inv K b \<Longrightarrow> conn_step0 K b c) \<Longrightarrow> conn_step0 K a c"
  by (rule conn_step0_trans [of K a b c], assumption) (blast intro: conn_step0D)

lemma conn_step0_then':
  "conn_step0 K a b \<Longrightarrow> (conn_inv K b \<Longrightarrow> conn_step K b c) \<Longrightarrow> conn_step0 K a c"
  by (rule conn_step0_then [of K a b c]) (simp_all add: conn_step_weak)

lemma conn_step_if:
  "(b \<Longrightarrow> conn_step K c x) \<Longrightarrow> (\<not> b \<Longrightarrow> conn_step K c y) \<Longrightarrow> conn_step K c (if b then x else y)"
  by simp

lemma conn_step_then:
  "conn_step K a b \<Longrightarrow> (conn_inv K b \<Longrightarrow> conn_step K b c) \<Longrightarrow> conn_step K a c"
  by (rule conn_step_trans [of K a b c], assumption) (blast intro: conn_stepD)

section \<open>Sending a packet\<close>

definition sendable :: "TypeID set \<Rightarrow> ShortConnectionID \<Rightarrow> Packet \<Rightarrow> bool" where
  "sendable K lid p \<longleftrightarrow> wf_packet p \<and> kind_ok K (pk_type p) \<and> (pk_type p = H2 \<longrightarrow> pk_data p = enc_word 2 lid)
     \<and> (pk_type p = H3 \<longrightarrow> (\<exists>opts. length opts = 6 \<and> pk_data p = enc_word 2 lid @ opts))"

definition presend :: "TypeID set \<Rightarrow> ShortConnectionID \<Rightarrow> Packet \<Rightarrow> bool" where
  "presend K lid p \<longleftrightarrow> wf_packet p \<and> kind_ok K (pk_type p) \<and> (pk_type p = H2 \<or> pk_type p = H3 \<longrightarrow> pk_data p = enc_word 2 lid)"

lemma storable_presend: "storable K lid p \<Longrightarrow> presend K lid p" and storable_sendable: "storable K lid p \<Longrightarrow> sendable K lid p"
  by (auto simp: storable_def presend_def sendable_def)

lemma registerTimeout_step: "conn_inv K c \<Longrightarrow> conn_step K c (registerTimeout t c)"
  unfolding registerTimeout_def Let_def
  by (auto intro!: conn_step_then [OF _ timeout_step] conn_step_upd simp: fixed_def session_def)

lemma probe_on_step: "conn_inv K c \<Longrightarrow> conn_step K c (probe_on now c)"
  unfolding probe_on_def Let_def recalculateProbeTimeout_def
  by (rule conn_step_then [OF _ registerTimeout_step]) simp_all

lemma pk_type_pushT [simp]: "pk_type (snd (pushT p bs)) = pk_type p" "pk_header (snd (pushT p bs)) = pk_header p"
  by (simp_all add: pushT_def pushData_def pk_type_def)

lemma pushT_small: "length (pk_data p) + length bs \<le> MAX_PACKET_SIZE \<Longrightarrow> pk_data (snd (pushT p bs)) = pk_data p @ bs"
  by (simp add: pushT_fits dataSize_def)

lemma send_packet_sent_ok:
  assumes "sendable K lid p" and "length cid = 16"
  shows "sent_ok K lid cid (let p1 = set_connection rid p
     in if h_connection (pk_header p1) = 0 then snd (pushT p1 cid) else p1)"
proof -
  let ?p = "set_connection rid p"
  have wf: "wf_packet (snd (pushT ?p cid))" "wf_packet ?p"
    using assms pushData_wf [of ?p cid] by (simp_all add: sendable_def pushT_def)
  have push: "pk_data (snd (pushT ?p cid)) = pk_data p @ cid" if "length (pk_data p) \<le> 8"
    using that assms(2) pushT_small [of ?p cid] by simp
  from assms(1) wf push show ?thesis
    by (auto simp: sent_ok_def sendable_def Let_def id_suffix_def)
qed

lemma send_packet_step:
  assumes "conn_inv K c" and "sendable K (c_localID c) p"
  shows "conn_step K c (send_packet now p a c)"
proof -
  have "length (c_id c) = 16" using assms(1) by (simp add: conn_inv_def)
  note ok = send_packet_sent_ok [OF assms(2) this, of "c_remoteID c", unfolded Let_def]
  show ?thesis unfolding send_packet_def Let_def
    using assms(1) ok by (intro conn_step_then [OF emit_step probe_on_step]) (simp_all add: is_io_def effect_ok_def)
qed

lemma ho_onSend_sendable:
  assumes "presend K lid p"
  shows "\<exists>p'. ho_onSend opts p = Some p' \<and> sendable K lid p'"
proof (cases "pk_type p = H3")
  case True
  have len: "length (enc_options opts) = 6" by (simp add: enc_options_def)
  from True assms have p: "pk_data p = enc_word 2 lid" "kind_ok K (pk_type p)" by (simp_all add: presend_def)
  then have "pushT p (enc_options opts) = (True, p\<lparr>pk_data := enc_word 2 lid @ enc_options opts\<rparr>)"
    using len by (simp add: pushT_fits dataSize_def)
  moreover have "pk_type (p\<lparr>pk_data := x\<rparr>) = pk_type p" for x by (simp add: pk_type_def)
  ultimately show ?thesis using True len p(2)
    by (auto simp: ho_onSend_def sendable_def wf_packet_def intro: exI [of _ "enc_options opts"])
next
  case False
  with assms show ?thesis by (auto simp: ho_onSend_def sendable_def presend_def)
qed

lemma conn_send_step:
  assumes "conn_inv K c" and "presend K (c_localID c) p"
  shows "conn_step K c (conn_send now p a c)"
proof -
  let ?c = "c\<lparr>c_statistics := stat_onSend p (c_statistics c)\<rparr>"
  obtain p' where p': "ho_onSend (c_options c) p = Some p'" "sendable K (c_localID c) p'"
    using ho_onSend_sendable [OF assms(2)] by blast
  have "conn_step K c (send_packet now p' a ?c)"
    using assms(1) p' by (intro conn_step_then [OF _ send_packet_step]) simp_all
  then show ?thesis by (simp add: conn_send_def p')
qed

lemma resend_step:
  assumes "conn_inv K c" and "sendable K (c_localID c) p"
  shows "conn_step K c (resend now p a c)"
  unfolding resend_def Let_def
  by (rule conn_step_then [OF send_packet_step [OF assms, of now a]]) simp

section \<open>The retry window\<close>

lemma set_om_emplace_sub: "x \<in> set (om_emplace k v m) \<Longrightarrow> x = (k, v) \<or> x \<in> set m"
  by (induction k v m rule: om_emplace.induct) (auto split: if_splits)

lemma set_om_assign_sub: "x \<in> set (om_assign k v m) \<Longrightarrow> x = (k, v) \<or> x \<in> set m"
  by (induction k v m rule: om_assign.induct) (auto split: if_splits)

definition paths_ok :: "TypeID set \<Rightarrow> ShortConnectionID \<Rightarrow> MultiPacketPath \<Rightarrow> bool" where
  "paths_ok K lid paths \<longleftrightarrow> (\<forall>pa \<in> set paths. storable K lid (fst pa))"

lemma retries_ok_alt:
  "retries_ok K lid r \<longleftrightarrow> om_inv (re_window r) \<and> (\<forall>i retry. (i, retry) \<in> set (re_window r) \<longrightarrow> paths_ok K lid (rt_paths retry))"
  by (auto simp: retries_ok_def paths_ok_def)

lemma om_find_in: "om_find m i = Some v \<Longrightarrow> (i, v) \<in> set m"
  by (simp add: om_find_def map_of_SomeD)

lemma getNextRetry_in_window: "getNextRetry r = Some (i, retry) \<Longrightarrow> (i, retry) \<in> set (re_window r)"
  by (auto simp: getNextRetry_def dest!: om_find_in split: list.splits option.splits)

lemma retries_ok_set_retry:
  "retries_ok K lid r \<Longrightarrow> paths_ok K lid (rt_paths retry) \<Longrightarrow> retries_ok K lid (set_retry i retry r)"
  by (auto simp: retries_ok_alt set_retry_def om.om_invs dest!: set_om_assign_sub)

lemma retries_ok_getNext: "retries_ok K lid r \<Longrightarrow> getNextRetry r = Some (i, retry) \<Longrightarrow> paths_ok K lid (rt_paths retry)"
  using getNextRetry_in_window unfolding retries_ok_alt by blast

lemma retries_ok_recalculate: "retries_ok K lid r \<Longrightarrow> retries_ok K lid (snd (recalculateRetryTimeout rtt r))"
  by (auto simp: recalculateRetryTimeout_def Let_def split: option.splits
      intro!: retries_ok_set_retry dest: retries_ok_getNext)

lemma retries_ok_insert:
  assumes "retries_ok K lid r" and "paths_ok K lid paths"
  shows "retries_ok K lid (snd (re_insert rtt paths now priority r))"
proof -
  have "retries_ok K lid r1" if "re_window r1 = om_emplace i retry (re_window r)" "rt_paths retry = paths" for r1 i retry
    using assms that by (auto simp: retries_ok_alt om.om_invs dest!: set_om_emplace_sub)
  then show ?thesis using assms(1) retries_ok_recalculate by (simp add: re_insert_def Let_def)
qed

lemma retries_ok_ack: "retries_ok K lid r \<Longrightarrow> retries_ok K lid (snd (re_ack i now d r))"
  by (auto simp: re_ack_def retries_ok_alt om.om_invs dest: set_om_erase split: option.splits)

lemma retries_ok_close: "retries_ok K lid r \<Longrightarrow> retries_ok K lid (re_close r)"
  by (simp add: retries_ok_alt re_close_def om_inv_Nil)

lemma set_sender_step:
  assumes "conn_inv K c" and "sq_inv (sn_dataQueue s)" and "sq_inv (sn_unreliableDataQueue s)"
    and "retries_ok K (c_localID c) (sn_retrier s)"
  shows "conn_step K c (c\<lparr>c_sender := s\<rparr>)"
  using assms by (intro conn_step_upd) (simp_all add: conn_inv_def user_inv_def fixed_def session_def)

lemma conn_invD:
  "conn_inv K c \<Longrightarrow> sq_inv (sn_dataQueue (c_sender c))" "conn_inv K c \<Longrightarrow> sq_inv (sn_unreliableDataQueue (c_sender c))"
  "conn_inv K c \<Longrightarrow> retries_ok K (c_localID c) (sn_retrier (c_sender c))"
  by (simp_all add: conn_inv_def)

lemma conn_recalculate_step: "conn_inv K c \<Longrightarrow> conn_step K c (conn_recalculateRetryTimeout c)"
  unfolding conn_recalculateRetryTimeout_def case_prod_beta Let_def
  by (rule conn_step_then [OF set_sender_step set_timeout_step]) (simp_all add: conn_invD retries_ok_recalculate)

lemma conn_insert_step: "conn_inv K c \<Longrightarrow> paths_ok K (c_localID c) paths \<Longrightarrow> conn_step K c (conn_insert now paths priority c)"
  unfolding conn_insert_def case_prod_beta Let_def
  by (rule conn_step_then [OF set_sender_step set_timeout_step]) (simp_all add: conn_invD retries_ok_insert)

section \<open>Reliable sending\<close>

lemma storable_set_id [simp]: "storable K lid (set_id i p) = storable K lid p"
  by (simp add: storable_def)

lemma send_paths_step: "conn_inv K c \<Longrightarrow> paths_ok K (c_localID c) paths \<Longrightarrow> conn_step K c (send_paths now paths c)"
proof (induction paths arbitrary: c)
  case (Cons pa paths)
  obtain p a where pa: "pa = (p, a)" by (cases pa)
  have p: "presend K (c_localID c) p" and ps: "paths_ok K (c_localID c) paths"
    using Cons.prems(2) pa by (simp_all add: paths_ok_def storable_presend)
  have "conn_step K c (send_paths now paths (conn_send now p a c))"
    using Cons.IH [of "conn_send now p a c"] ps by (intro conn_step_then [OF conn_send_step [OF Cons.prems(1) p]]) simp_all
  then show ?case by (simp add: send_paths_def pa)
qed (simp add: send_paths_def conn_step_refl)

lemma localID_conn_insert [simp]: "c_localID (conn_insert now paths priority c) = c_localID c"
proof -
  have "c_localID (set_timeout tm t d) = c_localID d" for tm t d
    by (simp add: set_timeout_def split: option.splits)
  then show ?thesis by (simp add: conn_insert_def split: prod.splits)
qed

lemma sendReliablyMultipath_step:
  assumes "conn_inv K c" and "paths_ok K (c_localID c) paths"
  shows "conn_step K c (sendReliablyMultipath now paths priority c)"
proof -
  define paths1 where "paths1 = map (\<lambda>(packet, address). (set_id (sn_packetID (c_sender c)) packet, address)) paths"
  define c1 where "c1 = c\<lparr>c_sender := (c_sender c)\<lparr>sn_packetID := sn_packetID (c_sender c) + 1\<rparr>\<rparr>"
  have p1: "paths_ok K (c_localID c) paths1" using assms(2) by (auto simp: paths1_def paths_ok_def)
  have 1: "conn_step K c c1" using assms(1) unfolding c1_def by (intro set_sender_step) (simp_all add: conn_invD)
  have "conn_step K c1 (send_paths now paths1 (conn_insert now paths1 priority c1))"
    using 1 p1 by (intro conn_step_then [OF conn_insert_step send_paths_step]) (auto simp: c1_def)
  with 1 show ?thesis
    unfolding sendReliablyMultipath_def Let_def nextID_simps paths1_def [symmetric] c1_def [symmetric]
    by (rule conn_step_trans)
qed

lemma sendReliably_step:
  "conn_inv K c \<Longrightarrow> storable K (c_localID c) p \<Longrightarrow> conn_step K c (sendReliably now p a c)"
  unfolding sendReliably_def by (rule sendReliablyMultipath_step) (simp_all add: paths_ok_def)

lemma conn_step_ids: "conn_step K a b \<Longrightarrow> c_localID b = c_localID a" "conn_step K a b \<Longrightarrow> c_id b = c_id a"
  by (simp_all add: conn_step_def conn_step0_def)

section \<open>Data queues\<close>

lemma good_packet_storable:
  "good_packet p \<Longrightarrow> storable K lid (set_type DATA_RELIABLE p)" "good_packet p \<Longrightarrow> presend K lid (set_type DATA_UNRELIABLE p)"
  by (simp_all add: good_packet_def storable_def presend_def wf_packet_def dataSize_def kind_ok_def isHandshake_def)

lemma set_dataQueue_step: "conn_inv K c \<Longrightarrow> sq_inv q \<Longrightarrow> conn_step K c (set_dataQueue q c)"
  unfolding set_dataQueue_def by (rule set_sender_step) (simp_all add: conn_invD)

lemma set_unreliableDataQueue_step: "conn_inv K c \<Longrightarrow> sq_inv q \<Longrightarrow> conn_step K c (set_unreliableDataQueue q c)"
  unfolding set_unreliableDataQueue_def by (rule set_sender_step) (simp_all add: conn_invD)

lemma localID_queues [simp]:
  "c_localID (set_dataQueue q c) = c_localID c" "c_localID (set_unreliableDataQueue q c) = c_localID c"
  by (simp_all add: set_dataQueue_def set_unreliableDataQueue_def)

lemma processReliable_loop_step: "conn_inv K c \<Longrightarrow> conn_step K c (processReliable_loop z now c)"
proof (induction z now c rule: processReliable_loop.induct)
  case (1 z now c)
  show ?case
  proof (cases "numUnacked (sn_retrier (c_sender c)) < sn_windowSize (c_sender c)")
    case room: True
    obtain r q where d: "sq_dequeue z (reliable_level c) (sn_dataQueue (c_sender c)) = (r, q)" by fastforce
    note dq = sq_dequeue_extends [OF conn_invD(1) [OF "1.prems"] d]
    then have q: "conn_step K c (set_dataQueue q c)" using "1.prems" by (intro set_dataQueue_step) blast+
    show ?thesis
    proof (cases r)
      case None
      then show ?thesis using room d q by (subst processReliable_loop.simps) simp
    next
      case (Some p)
      let ?c = "sendReliably now (set_type DATA_RELIABLE p) None (set_dataQueue q c)"
      have "good_packet p" using dq Some by blast
      then have s: "conn_step K c ?c"
        using q by (intro conn_step_then [OF q sendReliably_step]) (simp_all add: good_packet_storable del: DATA_RELIABLE_def)
      have "conn_step K c (processReliable_loop z now ?c)"
        using s "1.IH" [OF room d [symmetric] Some] by (intro conn_step_then [OF s]) blast
      then show ?thesis using room d Some by (subst processReliable_loop.simps) (simp del: DATA_RELIABLE_def)
    qed
  qed (use "1.prems" in \<open>simp add: processReliable_loop.simps conn_step_refl\<close>)
qed

lemma processUnreliable_loop_step: "conn_inv K c \<Longrightarrow> conn_step K c (processUnreliable_loop z now c)"
proof (induction z now c rule: processUnreliable_loop.induct)
  case (1 z now c)
  obtain r q where d: "sq_dequeue z (unreliable_level c) (sn_unreliableDataQueue (c_sender c)) = (r, q)" by fastforce
  note dq = sq_dequeue_extends [OF conn_invD(2) [OF "1.prems"] d]
  then have q: "conn_step K c (set_unreliableDataQueue q c)" using "1.prems" by (intro set_unreliableDataQueue_step) blast+
  show ?case
  proof (cases r)
    case None
    then show ?thesis using d q by (subst processUnreliable_loop.simps) simp
  next
    case (Some p)
    let ?c = "conn_send now (set_type DATA_UNRELIABLE p) None (set_unreliableDataQueue q c)"
    have "good_packet p" using dq Some by blast
    then have s: "conn_step K c ?c"
      by (intro conn_step_then [OF q conn_send_step]) (simp_all add: good_packet_storable del: DATA_UNRELIABLE_def)
    have "conn_step K c (processUnreliable_loop z now ?c)"
      using "1.IH" [OF d [symmetric] Some] by (intro conn_step_then [OF s]) blast
    then show ?thesis using d Some by (subst processUnreliable_loop.simps) (simp del: DATA_UNRELIABLE_def)
  qed
qed

lemma sq_inv_clear: "sq_inv (sq_clear q)"
  by (simp add: sq_inv_def sq_clear_def)

lemma sq_inv_close: "sq_inv q \<Longrightarrow> sq_inv (sq_close q)"
  by (simp add: sq_inv_def sq_close_def)

lemma length_enc_ack [simp]: "length (enc_ack i d) = 4"
  by (simp add: enc_ack_def)

lemma sq_inv_enqueue_acks:
  "sq_inv q \<Longrightarrow> sq_inv (fold (\<lambda>(i, w) q. sq_enqueue q ACK_FRAME (enc_ack i (delayed_ms now w)) MRUDP_COALESCE_PACKET) acks q)"
proof (induction acks arbitrary: q)
  case (Cons a acks)
  have "admissible (enc_ack i d) m" for i d m by (simp add: admissible_def)
  with Cons sq_enqueue_extends [of q] show ?case by (auto simp: case_prod_beta)
qed simp

lemma queueDelayedAcks_step: "conn_inv K c \<Longrightarrow> conn_step K c (queueDelayedAcks now c)"
  unfolding queueDelayedAcks_def Let_def
  using set_sender_step sq_inv_enqueue_acks conn_invD by (simp add: conn_step_refl)

lemma processReliableDataQueue_step: "conn_inv K c \<Longrightarrow> conn_step K c (processReliableDataQueue z now c)"
  by (simp add: processReliableDataQueue_def conn_step_refl processReliable_loop_step)

lemma processUnreliableDataQueue_step: "conn_inv K c \<Longrightarrow> conn_step K c (processUnreliableDataQueue z now c)"
  unfolding processUnreliableDataQueue_def
  by (simp add: set_unreliableDataQueue_step sq_inv_clear
      conn_step_then [OF queueDelayedAcks_step processUnreliable_loop_step])

lemma processDataQueue_step: "conn_inv K c \<Longrightarrow> conn_step K c (processDataQueue z now r c)"
  by (simp add: processDataQueue_def processReliableDataQueue_step processUnreliableDataQueue_step)

lemma set_schedule_step: "conn_inv K c \<Longrightarrow> conn_step K c (set_schedule r s c)"
  unfolding set_schedule_def by (rule set_sender_step) (simp_all add: conn_invD)

lemma scheduleDataQueueProcessing_step: "conn_inv K c \<Longrightarrow> conn_step K c (scheduleDataQueueProcessing z now r im c)"
  unfolding scheduleDataQueueProcessing_def Let_def
  by (auto simp: processDataQueue_step conn_step_refl set_schedule_step split: option.splits
      intro: conn_step_then [OF set_schedule_step timeout_step])

lemma processSchedule_step:
  assumes "conn_inv K c"
  shows "conn_step K c (processSchedule z now mode c)"
proof (cases "sc_running (schedule_of mode c)")
  case False
  let ?c1 = "set_schedule mode \<lparr>sc_when = None, sc_running = True\<rparr> c"
  let ?c2 = "processDataQueue z now mode ?c1"
  let ?c3 = "set_schedule mode ((schedule_of mode ?c2)\<lparr>sc_running := False\<rparr>) ?c2"
  have s: "conn_step K c ?c3"
    by (intro conn_step_then [OF conn_step_then [OF set_schedule_step [OF assms] processDataQueue_step] set_schedule_step])
  then have "conn_step K c (emit (SetTimeout t w) ?c3)" for t w by (intro conn_step_then [OF s timeout_step])
  with s False show ?thesis by (simp add: processSchedule_def Let_def split: option.splits)
qed (use assms in \<open>simp add: processSchedule_def conn_step_refl\<close>)

section \<open>Sender entry points\<close>

lemma sender_enqueue_step:
  assumes "conn_inv K c" and "admissible data mode"
  shows "conn_step K c (sender_enqueue z now t data r mode c)"
proof -
  let ?c = "if r = RELIABLE then set_dataQueue (sq_enqueue (sn_dataQueue (c_sender c)) t data mode) c
    else set_unreliableDataQueue (sq_enqueue (sn_unreliableDataQueue (c_sender c)) t data mode) c"
  have s: "conn_step K c ?c"
    using assms sq_enqueue_extends [OF conn_invD(1) [OF assms(1)] assms(2), of t]
      sq_enqueue_extends [OF conn_invD(2) [OF assms(1)] assms(2), of t]
    by (simp add: set_dataQueue_step set_unreliableDataQueue_step)
  then have "conn_step K c (scheduleDataQueueProcessing z now r False ?c)"
    by (intro conn_step_then [OF s scheduleDataQueueProcessing_step])
  with s show ?thesis by (simp add: sender_enqueue_def Let_def)
qed

lemma sender_send_step:
  assumes "conn_inv K c"
  shows "conn_step K c (snd (sender_send z now data r c))"
proof (cases "admissible data (co_mode (coalesce_of r c))")
  case True
  with assms show ?thesis by (simp add: sender_send_def Let_def conn_step_refl sender_enqueue_step)
next
  case False
  with assms show ?thesis by (simp add: sender_send_def Let_def conn_step_refl admissible_def)
qed

lemma sender_open_step: "conn_inv K c \<Longrightarrow> conn_step K c (sender_open z now c)"
  unfolding sender_open_def Let_def
  by (intro conn_step_then [OF conn_step_then [OF _ scheduleDataQueueProcessing_step] scheduleDataQueueProcessing_step])
    (simp_all add: set_sender_step conn_invD conn_step_refl)

lemma sender_close_step:
  assumes "conn_inv K c"
  shows "conn_step K c (sender_close z now c)"
proof -
  have "admissible [] MRUDP_COALESCE_PACKET" by (simp add: admissible_def)
  note s = sender_enqueue_step [OF assms this, of z now CLOSE_WRITE RELIABLE]
  have "conn_step K c ((sender_enqueue z now CLOSE_WRITE [] RELIABLE MRUDP_COALESCE_PACKET c)\<lparr>c_sender :=
      (c_sender (sender_enqueue z now CLOSE_WRITE [] RELIABLE MRUDP_COALESCE_PACKET c))\<lparr>sn_status := CLOSED\<rparr>\<rparr>)"
    by (intro conn_step_then [OF s set_sender_step]) (simp_all add: conn_invD)
  then show ?thesis using assms by (simp add: sender_close_def Let_def conn_step_refl)
qed

lemma sender_fail_step: "conn_inv K c \<Longrightarrow> conn_step K c (sender_fail c)"
  unfolding sender_fail_def Let_def
  by (intro set_sender_step) (simp_all add: conn_invD sq_inv_close retries_ok_close)

lemma sender_ack_step: "conn_inv K c \<Longrightarrow> conn_step K c (sender_ack z now i c)"
  unfolding sender_ack_def
  by (intro conn_step_then [OF set_sender_step scheduleDataQueueProcessing_step]) (simp_all add: conn_invD)

section \<open>Closing\<close>

lemma set_rv_status_step: "conn_inv K c \<Longrightarrow> conn_step K c (set_rv_status st c)"
  by (simp add: set_rv_status_def)

lemma storable_control [simp]:
  "storable K lid (set_type CLOSE_READ new_packet)" "storable K lid (set_type PROBE new_packet)"
  by (simp_all add: storable_def wf_packet_def kind_ok_def isHandshake_def)

lemma receiver_close_step:
  assumes "conn_inv K c"
  shows "conn_step K c (receiver_close now c)"
proof -
  have "conn_step K c (set_rv_status CLOSED (sendReliably now (set_type CLOSE_READ new_packet) None c))"
    using assms by (intro conn_step_then [OF sendReliably_step set_rv_status_step]) (simp_all del: CLOSE_READ_def)
  then show ?thesis using assms
    by (simp add: receiver_close_def Let_def conn_step_refl set_rv_status_step del: CLOSE_READ_def)
qed

lemma receiver_fail_step: "conn_inv K c \<Longrightarrow> conn_step K c (receiver_fail c)"
  by (simp add: receiver_fail_def conn_step_refl set_rv_status_step)

lemma closeUser_step:
  assumes "conn_inv K c"
  shows "conn_step K c (closeUser event c) \<and> c_userDataDisposed (closeUser event c)"
proof (cases "c_userDataDisposed c")
  case False
  let ?es = "if c_closeHandler c then [UserClose (c_userData c) event] else []"
  have "c_out (closeUser event c) = c_out c @ ?es" "c_userDataDisposed (closeUser event c)"
    "conn_inv K (closeUser event c)" "c_id (closeUser event c) = c_id c" "c_localID (closeUser event c) = c_localID c"
    using False assms by (simp_all add: closeUser_def Let_def emit_def conn_inv_def user_inv_def)
  moreover have "list_all (effect_ok K (c_localID c) (c_id c)) ?es" "user_run False ?es = Some (c_closeHandler c)"
    "list_all (callback_to (c_userData c)) ?es"
    by (simp_all add: effect_ok_def callback_to_def)
  moreover have "session_step (c_closeHandler c) c (closeUser event c)"
    using False calculation(2) by (simp add: session_step_def)
  moreover have "fixed (closeUser event c) = fixed c" by (simp add: closeUser_def Let_def emit_def fixed_def)
  ultimately show ?thesis using False unfolding conn_step_def conn_step0_def by auto
qed (use assms in \<open>simp add: closeUser_def conn_step_refl\<close>)

lemma closeUser_closed: "closeUser event (c\<lparr>c_closed := True\<rparr>) = (closeUser event c)\<lparr>c_closed := True\<rparr>"
  by (simp add: closeUser_def Let_def emit_def)

lemma closed_step: "conn_inv K c \<Longrightarrow> c_userDataDisposed c \<Longrightarrow> conn_step K c (c\<lparr>c_closed := True\<rparr>)"
  by (rule conn_step_upd) (simp_all add: fixed_def session_def conn_inv_def user_inv_def)

lemma close_event_step:
  assumes "conn_inv K c"
  shows "conn_step K c (close_event now event c)"
proof -
  have "conn_step K c (finishWhenReady now (closeUser event (c\<lparr>c_closed := True\<rparr>)))"
    unfolding finishWhenReady_def closeUser_closed using closeUser_step [OF assms]
    by (intro conn_step_then [OF conn_step_then [OF _ closed_step] timeout_step]) blast+
  then show ?thesis using assms by (simp add: close_event_def conn_step_refl)
qed

lemma possiblyClose_step: "conn_inv K c \<Longrightarrow> conn_step K c (possiblyClose now c)"
  by (simp add: possiblyClose_def conn_step_refl close_event_step)

lemma fail_step: "conn_inv K c \<Longrightarrow> conn_step K c (fail now event c)"
  unfolding fail_def probe_close_def
  by (intro conn_step_then [OF conn_step_then [OF conn_step_then [OF conn_step_then [OF upd_steps(4) upd_steps(1)]
        receiver_fail_step] sender_fail_step] possiblyClose_step])

lemma conn_close_step: "conn_inv K c \<Longrightarrow> conn_step K c (conn_close z now c)"
  unfolding conn_close_def
  by (intro conn_step_then [OF conn_step_then [OF sender_close_step receiver_close_step] possiblyClose_step])

lemma finish_step: "conn_inv K c \<Longrightarrow> conn_step K c (finish c)"
  unfolding finish_def by (rule emit_step) (simp_all add: is_io_def effect_ok_def)

section \<open>Acks and timeouts\<close>

lemma onAck_step:
  assumes "conn_inv K c"
  shows "conn_step K c (onAck z now i d c)"
proof -
  obtain res r where ack: "re_ack i now d (sn_retrier (c_sender c)) = (res, r)" by fastforce
  then have r: "retries_ok K (c_localID c) r" using retries_ok_ack [OF conn_invD(3) [OF assms], of i now d] by simp
  define c1 where "c1 = c\<lparr>c_sender := (c_sender c)\<lparr>sn_retrier := r\<rparr>\<rparr>"
  have 1: "conn_step K c c1" unfolding c1_def using assms r by (intro set_sender_step) (simp_all add: conn_invD)
  define rtt where "rtt = rtt_onSample (ar_rtt res) (sn_rtt (c_sender c1))"
  define c3 where "c3 = c1\<lparr>c_sender := (c_sender c1)\<lparr>sn_rtt := rtt, sn_windowSize := window_onSample rtt\<rparr>\<rparr>"
  have 3: "conn_step K c c3" unfolding c3_def by (intro conn_step_then [OF 1 set_sender_step]) (simp_all add: conn_invD)
  have 4: "conn_step K c (conn_recalculateRetryTimeout c3)" by (intro conn_step_then [OF 3 conn_recalculate_step])
  define c2 where "c2 = (if ar_contained res
     then if ar_needsRetryTimeoutRecalculation res then conn_recalculateRetryTimeout c3 else c3 else c1)"
  have 2: "conn_step K c c2" using 1 3 4 by (simp add: c2_def)
  have "onAck z now i d c = possiblyClose now (scheduleDataQueueProcessing z now RELIABLE True c2)"
    by (simp add: onAck_def ack Let_def c1_def c2_def c3_def rtt_def)
  then show ?thesis
    by (simp only:) (intro conn_step_then [OF conn_step_then [OF 2 scheduleDataQueueProcessing_step] possiblyClose_step])
qed

lemma sender_onReceive_step: "conn_inv K c \<Longrightarrow> conn_step K c (sender_onReceive z now p c)"
  using conn_step_then [OF sender_fail_step possiblyClose_step]
  by (simp add: sender_onReceive_def onAck_step conn_step_refl)

lemma resend_paths_step:
  "conn_inv K c \<Longrightarrow> paths_ok K (c_localID c) paths \<Longrightarrow>
   conn_step K c (fold (\<lambda>(packet, address). resend now packet address) paths c)"
proof (induction paths arbitrary: c)
  case (Cons pa paths)
  obtain p a where pa: "pa = (p, a)" by (cases pa)
  have p: "sendable K (c_localID c) p" and ps: "paths_ok K (c_localID c) paths"
    using Cons.prems(2) pa by (simp_all add: paths_ok_def storable_sendable)
  have "conn_step K c (fold (\<lambda>(packet, address). resend now packet address) paths (resend now p a c))"
    using Cons.IH [of "resend now p a c"] ps by (intro conn_step_then [OF resend_step [OF Cons.prems(1) p]]) simp_all
  then show ?case by (simp add: pa)
qed (simp add: conn_step_refl)

lemma onRetryTimeout_step:
  assumes "conn_inv K c"
  shows "conn_step K c (onRetryTimeout now c)"
proof (cases "getNextRetry (sn_retrier (c_sender c))")
  case (Some e)
  obtain i retry where e: "e = (i, retry)" by (cases e)
  have p: "paths_ok K (c_localID c) (rt_paths retry)"
    using retries_ok_getNext [OF conn_invD(3) [OF assms]] Some e by simp
  define c1 where "c1 = c\<lparr>c_sender := (c_sender c)\<lparr>sn_retrier :=
      set_retry i (retry\<lparr>rt_attempts := rt_attempts retry + 1, rt_sentAt := now\<rparr>) (sn_retrier (c_sender c))\<rparr>\<rparr>"
  have 1: "conn_step K c c1" unfolding c1_def
    using assms p by (intro set_sender_step) (simp_all add: conn_invD retries_ok_set_retry)
  define c2 where "c2 = fold (\<lambda>(packet, address). resend now packet address) (rt_paths retry) c1"
  have 2: "conn_step K c c2" unfolding c2_def using p
    by (intro conn_step_then [OF 1 resend_paths_step]) (simp_all add: c1_def)
  define c3 where "c3 = c2\<lparr>c_sender := (c_sender c2)\<lparr>sn_rtt := rtt_onAckFailure (sn_rtt (c_sender c2)),
      sn_windowSize := window_onSample (rtt_onAckFailure (sn_rtt (c_sender c2)))\<rparr>\<rparr>"
  have 3: "conn_step K c c3" unfolding c3_def by (intro conn_step_then [OF 2 set_sender_step]) (simp_all add: conn_invD)
  have "conn_step K c (conn_recalculateRetryTimeout c3)" by (intro conn_step_then [OF 3 conn_recalculate_step])
  then show ?thesis using assms Some e
    by (simp add: onRetryTimeout_def Let_def fail_step conn_recalculate_step c1_def c2_def c3_def)
qed (use assms in \<open>simp add: onRetryTimeout_def conn_step_refl\<close>)

lemma probe_onTimeout_step:
  assumes "conn_inv K c"
  shows "conn_step K c (probe_onTimeout now c)"
proof -
  let ?c1 = "c\<lparr>c_probe := (c_probe c)\<lparr>pr_isRegistered := False\<rparr>\<rparr>"
  have 1: "conn_step K c ?c1" using assms by simp
  have 2: "conn_step K c (probe_on now ?c1)" by (intro conn_step_then [OF 1 probe_on_step])
  have "conn_step K c (sendReliably now (set_type PROBE new_packet) None (probe_on now ?c1))"
    by (intro conn_step_then [OF 2 sendReliably_step]) (simp_all del: PROBE_def)
  moreover have "conn_step K c (fail now MRUDP_EVENT_TIMEOUT (probe_on now ?c1))" by (intro conn_step_then [OF 2 fail_step])
  moreover have "conn_step K c (registerTimeout t ?c1)" for t by (intro conn_step_then [OF 1 registerTimeout_step])
  ultimately show ?thesis using assms by (simp add: probe_onTimeout_def Let_def conn_step_refl del: PROBE_def)
qed

section \<open>Receiving\<close>

lemma receive_data_step:
  assumes "conn_inv K c"
  shows "conn_step K c (receive_data bs r c)"
proof -
  let ?es = "if c_receiveHandler c then [UserReceive (c_userData c) bs r] else []"
  have "conn_inv K (emit e c)" for e using assms conn_inv_rest [OF rest_emit] by simp
  then have "c_out (receive_data bs r c) = c_out c @ ?es" "c_userDataDisposed (receive_data bs r c) = c_userDataDisposed c"
    "conn_inv K (receive_data bs r c)" "c_id (receive_data bs r c) = c_id c" "c_localID (receive_data bs r c) = c_localID c"
    using assms by (simp_all add: receive_data_def Let_def) (simp_all add: emit_def)
  moreover have "list_all (effect_ok K (c_localID c) (c_id c)) ?es" "list_all (callback_to (c_userData c)) ?es"
    by (simp_all add: effect_ok_def callback_to_def)
  moreover have "user_run (c_userDataDisposed c) ?es = Some (c_userDataDisposed c)"
    using assms by (auto simp: conn_inv_def user_inv_def)
  moreover have "session_step (c_userDataDisposed c) c (receive_data bs r c)"
    using calculation(2) by (simp add: session_step_def) (simp add: receive_data_def emit_def session_def Let_def)
  moreover have "fixed (receive_data bs r c) = fixed c" by (simp add: receive_data_def Let_def emit_def fixed_def)
  ultimately show ?thesis unfolding conn_step_def conn_step0_def by blast
qed

lemma over_read_step: "conn_inv K c \<Longrightarrow> conn_step K c (over_read b c)"
  unfolding over_read_def using emit_step [of K c OverRead] by (simp add: conn_step_refl is_io_def effect_ok_def)

lemma receive_compressed_step:
  assumes "conn_inv K c"
  shows "conn_step K c (receive_compressed u bs c)"
proof -
  have "conn_step K c (over_read b (fold (\<lambda>d. receive_data d RELIABLE) ds (c\<lparr>c_receiver := r\<rparr>)))" for b ds r
  proof -
    have "conn_step K c (fold (\<lambda>d. receive_data d RELIABLE) ds (c\<lparr>c_receiver := r\<rparr>))"
      using assms by (intro conn_step_then [OF upd_steps(3) conn_step_fold]) (simp_all add: receive_data_step)
    then show ?thesis by (rule conn_step_then) (rule over_read_step)
  qed
  then show ?thesis by (simp add: receive_compressed_def Let_def)
qed

lemma processReceived_step:
  assumes "conn_inv K c"
  shows "conn_step K c (processReceived z u now r f c)"
proof -
  have "conn_step K c (possiblyClose now (receiver_close now c))"
    by (rule conn_step_then [OF receiver_close_step [OF assms] possiblyClose_step])
  with assms show ?thesis
    unfolding processReceived_def
    by (simp add: over_read_step onAck_step receive_data_step receive_compressed_step conn_step_refl)
qed

lemma processReceived_fold_step: "conn_inv K c \<Longrightarrow> conn_step K c (fold (processReceived z u now r) fs c)"
  by (rule conn_step_fold) (simp_all add: processReceived_step)

lemma set_receiveQueue_step: "conn_inv K c \<Longrightarrow> conn_step K c (set_receiveQueue q c)"
  by (simp add: set_receiveQueue_def)

lemma receiver_open_step:
  assumes "conn_inv K c"
  shows "conn_step K c (receiver_open z u now c)"
proof -
  have s: "conn_step K c (fold (processReceived z u now RELIABLE) fs (set_receiveQueue q c))" for fs q
    by (rule conn_step_then [OF set_receiveQueue_step [OF assms] processReceived_fold_step])
  then have "conn_step K c (set_rv_status OPEN (fold (processReceived z u now RELIABLE) fs (set_receiveQueue q c)))" for fs q
    by (rule conn_step_then) (rule set_rv_status_step)
  with s show ?thesis by (simp add: receiver_open_def Let_def case_prod_beta)
qed

lemma receiver_dispatch_step:
  assumes "conn_inv K c"
  shows "conn_step K c (receiver_dispatch z u now p c)"
proof -
  have "conn_step K c (fold (processReceived z u now RELIABLE) fs (set_receiveQueue q c))" for fs q
    by (rule conn_step_then [OF set_receiveQueue_step [OF assms] processReceived_fold_step])
  moreover have "conn_step K c (over_read b (fold (processReceived z u now UNRELIABLE) fs c))" for fs b
    by (rule conn_step_then [OF processReceived_fold_step [OF assms] over_read_step])
  ultimately show ?thesis using assms by (simp add: receiver_dispatch_def case_prod_beta conn_step_refl)
qed

lemma receiver_onReceive_step:
  assumes "conn_inv K c"
  shows "conn_step K c (receiver_onReceive z u now p c)"
  unfolding receiver_onReceive_def
  by (intro conn_step_if conn_step_then [OF _ receiver_dispatch_step] conn_step_refl sender_ack_step assms)

section \<open>Handshake and network path\<close>

lemma set_waitingFor_step: "conn_inv K c \<Longrightarrow> conn_step0 K c (set_waitingFor t c)"
  by (simp add: set_waitingFor_def)

lemma localID_waitingFor [simp]: "c_localID (set_waitingFor t c) = c_localID c"
  by (simp add: set_waitingFor_def)

lemma initiate_step:
  assumes "conn_inv K c" and "H0 \<in> K"
  shows "conn_step0 K c (initiate now c)"
proof -
  have "storable K lid (set_type H0 new_packet)" for lid using assms(2) by (simp add: storable_def wf_packet_def kind_ok_def)
  with assms(1) show ?thesis unfolding initiate_def
    by (intro conn_step0_then [OF conn_step_weak [OF sendReliably_step] set_waitingFor_step])
qed

lemma onHandshakeComplete_step: "conn_inv K c \<Longrightarrow> conn_step K c (onHandshakeComplete z u now c)"
  unfolding onHandshakeComplete_def by (rule conn_step_then [OF receiver_open_step sender_open_step])

lemma handshake_packets:
  "H2 \<in> K \<Longrightarrow> storable K lid (snd (pushT (set_type H2 new_packet) (enc_word 2 lid)))"
  "H1 \<in> K \<Longrightarrow> presend K lid (handshake_ack H1 p)"
  "H3 \<in> K \<Longrightarrow> presend K lid (snd (pushT (handshake_ack H3 p) (enc_word 2 lid)))"
  by (simp_all add: storable_def presend_def handshake_ack_def pushT_small wf_packet_def kind_ok_def)

text \<open>The handshake types a connection that waits for \<open>w\<close> sends when it receives the type \<open>t\<close>.\<close>

definition hs_reply :: "TypeID \<Rightarrow> TypeID \<Rightarrow> TypeID set" where
  "hs_reply w t = (if t = H0 then {H1} else if t = H1 \<and> w = H1 then {H2} else if t = H2 then {H3} else {})"

lemma hs_reply_simps [simp]:
  "hs_reply w H0 = {H1}" "hs_reply H1 H1 = {H2}" "hs_reply w H2 = {H3}"
  by (simp_all add: hs_reply_def)

abbreviation waiting :: "Connection \<Rightarrow> TypeID" where
  "waiting c \<equiv> hs_waitingFor (c_handshake c)"

lemma handle_H0_step:
  assumes "conn_inv K c" and "H1 \<in> K"
  shows "conn_step K c (conn_send now (handshake_ack H1 p) None c)"
  using assms handshake_packets(2) by (intro conn_send_step)

lemma handle_H1_step:
  assumes "conn_inv K c" and "H2 \<in> K"
  shows "conn_step0 K c (sendReliably now (snd (pushT (set_type H2 new_packet) (enc_word 2 (c_localID c)))) None (set_waitingFor H3 c))"
  using handshake_packets(1) [OF assms(2), of "c_localID c"]
  by (intro conn_step0_then' [OF set_waitingFor_step [OF assms(1)] sendReliably_step]) (simp_all only: localID_waitingFor)

lemma handle_H2_step:
  assumes "conn_inv K c" and "H3 \<in> K"
  shows "conn_step K c (conn_send now (snd (pushT (handshake_ack H3 p) (enc_word 2 (c_localID c)))) None c)"
  using assms handshake_packets(3) by (intro conn_send_step)

lemma complete_step:
  "conn_inv K c \<Longrightarrow> conn_step0 K c (onHandshakeComplete z u now ((set_waitingFor HANDSHAKE_COMPLETE c)\<lparr>c_remoteID := i\<rparr>))"
  "conn_inv K c \<Longrightarrow> conn_step0 K c (onHandshakeComplete z u now ((set_waitingFor HANDSHAKE_COMPLETE c)\<lparr>c_remoteID := i, c_handshake := h\<rparr>))"
  by (rule conn_step0_then' [OF conn_step0_then [OF set_waitingFor_step upd_steps0(3)] onHandshakeComplete_step], assumption+)
    (rule conn_step0_then' [OF conn_step0_then [OF conn_step0_then [OF set_waitingFor_step upd_steps0(3)] upd_steps0(1)]
        onHandshakeComplete_step], assumption+)

lemma handlePacket_step:
  assumes "conn_inv K c" and "hs_reply (waiting c) (pk_type p) \<subseteq> K"
  shows "conn_step0 K c (snd (handlePacket z u now p c))"
proof -
  consider "pk_type p = H0" | "pk_type p = H1" | "pk_type p = H2" | "pk_type p = H3"
    | "pk_type p \<notin> {H0, H1, H2, H3}" by blast
  then show ?thesis
  proof cases
    case 1
    then have "H1 \<in> K" using assms(2) by (simp del: H0_def H1_def)
    note s = conn_step_weak [OF handle_H0_step [OF assms(1) this, of now p]]
    show ?thesis using 1 s conn_step0_then [OF s set_waitingFor_step]
      by (simp add: handlePacket_def Let_def)
  next
    case 2
    show ?thesis
    proof (cases "waiting c = H1")
      case True
      with 2 have "H2 \<in> K" using assms(2) by (simp del: H1_def H2_def)
      from handle_H1_step [OF assms(1) this] show ?thesis using 2 True by (simp add: handlePacket_def Let_def)
    qed (use 2 assms(1) in \<open>simp add: handlePacket_def Let_def conn_step0_refl\<close>)
  next
    case 3
    then have "H3 \<in> K" using assms(2) by (simp del: H2_def H3_def)
    note s = conn_step_weak [OF handle_H2_step [OF assms(1) this, of now "snd (readRemoteID p)"]]
    show ?thesis using 3 s conn_step0_then [OF s complete_step(2)]
      by (simp add: handlePacket_def Let_def case_prod_beta)
  next
    case 4
    then show ?thesis using complete_step(1) [OF assms(1)] assms(1)
      by (simp add: handlePacket_def Let_def case_prod_beta conn_step0_refl)
  qed (use assms(1) in \<open>simp add: handlePacket_def Let_def conn_step0_refl\<close>)
qed

lemma handshake_onReceive_step:
  "conn_inv K c \<Longrightarrow> hs_reply (waiting c) (pk_type p) \<subseteq> K \<Longrightarrow> conn_step0 K c (snd (handshake_onReceive z u now p c))"
  by (simp add: handshake_onReceive_def conn_step0_refl handlePacket_step)

lemma ho_onReceive_step: "conn_inv K c \<Longrightarrow> ho_onReceive p c = Some (p', c') \<Longrightarrow> conn_step0 K c c'"
  by (auto simp: ho_onReceive_def conn_step0_refl split: if_splits option.splits)

lemma ho_onReceive_wf: "wf_packet p \<Longrightarrow> ho_onReceive p c = Some (p', c') \<Longrightarrow> wf_packet p'"
  by (auto simp: ho_onReceive_def split: if_splits option.splits dest: popData_wf)

lemma pushSizedData_wf [wf_intros]: "wf_packet p \<Longrightarrow> length bs \<le> MAX_PACKET_SIZE \<Longrightarrow> wf_packet (snd (pushSizedData p bs))"
  using pushData_wf [of p bs] pushData_wf [of "snd (pushData p bs)" "enc_word 2 (of_nat (length bs) :: u16)"]
  by (simp add: pushSizedData_def pushT_def Let_def case_prod_beta)

lemma pk_type_pushSizedData [simp]: "pk_type (snd (pushSizedData p bs)) = pk_type p"
  by (simp add: pushSizedData_def pushT_def pushData_def pk_type_def Let_def)

lemma challenge_storable: "\<forall>x. a = Some x \<longrightarrow> length x = address_size \<Longrightarrow> storable K lid (challenge_packet now a)"
proof -
  assume "\<forall>x. a = Some x \<longrightarrow> length x = address_size"
  then have "length (case a of None \<Rightarrow> empty_address | Some a \<Rightarrow> a) = 28"
    by (simp add: empty_address_def split: option.splits)
  then have "wf_packet (challenge_packet now a)"
    unfolding challenge_packet_def Let_def by (intro pushSizedData_wf) simp_all
  moreover have "pk_type (challenge_packet now a) = AUTHENTICATE_CHALLENGE"
    by (simp add: challenge_packet_def Let_def)
  ultimately show ?thesis by (simp add: storable_def kind_ok_def isHandshake_def)
qed

lemma sendChallenge_step: "conn_inv K c \<Longrightarrow> length a = address_size \<Longrightarrow> conn_step K c (sendChallenge now a c)"
  unfolding sendChallenge_def
  by (rule sendReliablyMultipath_step) (simp_all add: paths_ok_def challenge_storable)

lemma np_onReceive_step:
  assumes "conn_inv K c" and "wf_packet p" and "length from = address_size"
  shows "conn_step0 K c (snd (snd (np_onReceive now p from c)))"
proof -
  have "presend K lid ((set_id (pk_id p) (set_type AUTHENTICATE_RESPONSE new_packet))\<lparr>pk_data := pk_data p\<rparr>)" for lid
    using assms(2) by (simp add: presend_def wf_packet_def pk_type_def set_id_def set_type_def kind_ok_def isHandshake_def)
  then have 1: "conn_step0 K c (sendChallengeResponse now p c)"
    unfolding sendChallengeResponse_def using assms(1) by (intro conn_step_weak conn_send_step)
  have 2: "conn_step0 K c (onRemoteAddressChanged from c)"
    unfolding onRemoteAddressChanged_def using assms(1)
    by (intro conn_step0_then' [OF upd_steps0(4) emit_step]) (simp_all add: is_io_def effect_ok_def)
  show ?thesis using assms 1 2 conn_step_weak [OF sendChallenge_step [OF assms(1,3)]]
    by (simp add: np_onReceive_def conn_step0_refl split: prod.splits bool.splits)
qed

section \<open>The handshake as an automaton\<close>

text \<open>
  What the handshake waits for and the identifier it has learnt change only with the four handshake
  packets, as \<open>hs_next\<close> says; every other operation leaves them alone.
\<close>

definition hs_abs :: "Connection \<Rightarrow> TypeID \<times> ShortConnectionID" where
  "hs_abs c = (waiting c, c_remoteID c)"

definition hs_next :: "Packet \<Rightarrow> TypeID \<times> ShortConnectionID \<Rightarrow> TypeID \<times> ShortConnectionID" where
  "hs_next p s = (case s of (w, r) \<Rightarrow>
     if pk_type p = H0 \<and> w = H0 then (H2, r)
     else if pk_type p = H1 \<and> w = H1 then (H3, r)
     else if pk_type p = H2 \<and> w = H2 \<or> pk_type p = H3 \<and> w = H3 then (HANDSHAKE_COMPLETE, fst (readRemoteID p))
     else s)"

lemma conn_step_abs: "conn_step K c c' \<Longrightarrow> hs_abs c' = hs_abs c"
  by (simp add: conn_step_def hs_abs_def fixed_def)

lemma conn_step_handshake: "conn_step K c c' \<Longrightarrow> c_handshake c' = c_handshake c"
  by (simp add: conn_step_def fixed_def)

lemma conn_inv_mono:
  assumes "conn_inv K c" and "K \<subseteq> L"
  shows "conn_inv L c"
proof -
  have "storable K lid p \<Longrightarrow> storable L lid p" for lid p using assms(2) by (auto simp: storable_def kind_ok_def)
  then have "paths_ok K lid ps \<Longrightarrow> paths_ok L lid ps" for lid ps by (auto simp: paths_ok_def)
  with assms(1) show ?thesis by (auto simp: conn_inv_def retries_ok_alt)
qed

lemma pk_type_readRemoteID [simp]: "pk_type (snd (readRemoteID p)) = pk_type p"
  by (auto simp: readRemoteID_def popData_def pk_type_def Let_def split: option.splits if_splits)

lemma onHandshakeComplete_abs: "conn_inv K c \<Longrightarrow> hs_abs (onHandshakeComplete z u now c) = hs_abs c"
  by (rule conn_step_abs [OF onHandshakeComplete_step])

lemma handlePacket_abs:
  assumes "conn_inv K c"
  shows "hs_abs (snd (handlePacket z u now p c)) = hs_next p (hs_abs c)"
proof -
  have inv: "conn_inv UNIV c" by (rule conn_inv_mono [OF assms]) simp
  have w: "conn_inv UNIV (set_waitingFor t c')" if "conn_inv UNIV c'" for t c'
    using that by (simp add: set_waitingFor_def)
  note h0 = handle_H0_step [OF inv UNIV_I, of now p]
  note h2 = handle_H2_step [OF inv UNIV_I, of now "snd (readRemoteID p)"]
  have h1: "hs_abs (sendReliably now q None (set_waitingFor H3 c)) = (H3, c_remoteID c)"
    if "storable UNIV (c_localID c) q" for q
    using conn_step_abs [OF sendReliably_step [OF w [OF inv], of H3]] that
    by (simp add: hs_abs_def set_waitingFor_def)
  have H1: "storable UNIV (c_localID c) (snd (pushT (set_type H2 new_packet) (enc_word 2 (c_localID c))))"
    by (rule handshake_packets) simp
  have wait: "hs_abs (set_waitingFor t c') = (t, c_remoteID c')" for t c' by (simp add: hs_abs_def set_waitingFor_def)
  show ?thesis
    using conn_step_abs [OF h0] conn_step_abs [OF h2] h1 [OF H1] conn_stepD [OF h0] conn_stepD [OF h2] inv
    by (auto simp: handlePacket_def hs_next_def Let_def case_prod_beta wait onHandshakeComplete_abs [where K = UNIV] w)
      (simp_all add: hs_abs_def set_waitingFor_def)
qed

lemma handshake_onReceive_abs:
  assumes "conn_inv K c"
  shows "hs_abs (snd (handshake_onReceive z u now p c)) = hs_next p (hs_abs c)"
  using handlePacket_abs [OF assms]
  by (auto simp: handshake_onReceive_def isHandshake_def hs_next_def split: prod.splits)

lemma popData_type: "popData p n = Some (bs, p') \<Longrightarrow> pk_type p' = pk_type p"
  by (auto simp: popData_def pk_type_def Let_def split: if_splits)

lemma ho_onReceive_abs: "ho_onReceive p c = Some (p', c') \<Longrightarrow> hs_abs c' = hs_abs c \<and> pk_type p' = pk_type p \<and> c_remoteAddress c' = c_remoteAddress c"
  by (auto simp: ho_onReceive_def hs_abs_def popData_type split: if_splits option.splits)

lemma popVector_type: "pk_type (snd (popVector p)) = pk_type p"
  by (auto simp: popVector_def popData_type split: option.splits)

lemma verify_type: "pk_type (snd (verifyChallengeResponse now p path c)) = pk_type p"
proof -
  obtain s1 p1 where 1: "popVector p = (s1, p1)" by fastforce
  obtain s2 p2 where 2: "popVector p1 = (s2, p2)" by fastforce
  have "pk_type p1 = pk_type p" "pk_type p2 = pk_type p" using popVector_type [of p] popVector_type [of p1] 1 2 by simp_all
  then show ?thesis by (simp add: verifyChallengeResponse_def 1 2 Let_def split: option.splits)
qed

lemma np_onReceive_abs:
  assumes "conn_inv K c" and "wf_packet p" and "length from = address_size" and "np_onReceive now p from c = (k, p', c')"
  shows "hs_abs c' = hs_abs c" "pk_type p' = pk_type p" "isHandshake (pk_type p) \<Longrightarrow> p' = p"
    "from = c_remoteAddress c \<Longrightarrow> k"
proof -
  have "presend K (c_localID c) ((set_id (pk_id p) (set_type AUTHENTICATE_RESPONSE new_packet))\<lparr>pk_data := pk_data p\<rparr>)"
    using assms(2) by (simp add: presend_def wf_packet_def pk_type_def set_id_def set_type_def kind_ok_def isHandshake_def)
  then have "hs_abs (sendChallengeResponse now p c) = hs_abs c"
    unfolding sendChallengeResponse_def using assms(1) by (intro conn_step_abs [OF conn_send_step])
  moreover have "hs_abs (onRemoteAddressChanged from c) = hs_abs c"
    by (simp add: onRemoteAddressChanged_def hs_abs_def emit_def)
  moreover note conn_step_abs [OF sendChallenge_step [OF assms(1,3), of now]]
  ultimately show "hs_abs c' = hs_abs c" using assms(4)
    by (auto simp: np_onReceive_def split: if_splits prod.splits bool.splits)
  show "pk_type p' = pk_type p" using assms(4) verify_type [of now p "from" c]
    by (auto simp: np_onReceive_def split: if_splits prod.splits bool.splits)
  show "p' = p" if "isHandshake (pk_type p)" using assms(4) that
    by (auto simp: np_onReceive_def isHandshake_def split: if_splits prod.splits bool.splits)
  show k if "from = c_remoteAddress c" using assms(4) that by (auto simp: np_onReceive_def split: if_splits)
qed

text \<open>The stages of \<^verbatim>\<open>Connection::receive\<close> up to the handshake.\<close>

definition accept_packet :: "timepoint \<Rightarrow> Packet \<Rightarrow> Address \<Rightarrow> Connection \<Rightarrow> bool \<times> Packet \<times> Connection" where
  "accept_packet now p from c =
     (case ho_onReceive p c of
        None \<Rightarrow> (False, p, c)
      | Some (p1, c1) \<Rightarrow> np_onReceive now p1 from (c1\<lparr>c_statistics := stat_onReceive p1 (c_statistics c1)\<rparr>))"

lemma conn_receive_accept:
  "conn_receive z u now p from c =
     (case accept_packet now p from c of
        (False, _, c1) \<Rightarrow> c1
      | (True, p1, c1) \<Rightarrow>
          (case handshake_onReceive z u now p1 c1 of
             (p2, c2) \<Rightarrow> receiver_onReceive z u now p2 (sender_onReceive z now p2 (probe_on now c2))))"
  by (simp add: conn_receive_def accept_packet_def Let_def split: option.splits)

lemma accept_packet_step:
  assumes "conn_inv K c" and "wf_packet p" and "length from = address_size"
    and "accept_packet now p from c = (k, p', c')"
  shows "conn_step0 K c c'" "hs_abs c' = hs_abs c" "pk_type p' = pk_type p"
proof -
  have "conn_step0 K c c' \<and> hs_abs c' = hs_abs c \<and> pk_type p' = pk_type p"
  proof (cases "ho_onReceive p c")
    case None
    with assms show ?thesis by (simp add: accept_packet_def conn_step0_refl)
  next
    case (Some e)
    obtain p1 c1 where e: "e = (p1, c1)" by (cases e)
    define c2 where "c2 = c1\<lparr>c_statistics := stat_onReceive p1 (c_statistics c1)\<rparr>"
    have 1: "conn_step0 K c c1" using ho_onReceive_step assms(1) Some e by blast
    have 2: "conn_step0 K c c2" unfolding c2_def by (rule conn_step0_then' [OF 1]) simp
    have wf: "wf_packet p1" using ho_onReceive_wf assms(2) Some e by blast
    have np: "np_onReceive now p1 from c2 = (k, p', c')"
      using assms(4) Some e by (simp add: accept_packet_def c2_def)
    have "conn_step0 K c c'"
      using np_onReceive_step [OF conn_step0D [OF 2] wf assms(3), of now] np by (intro conn_step0_trans [OF 2]) simp
    moreover have "hs_abs c2 = hs_abs c" "pk_type p1 = pk_type p"
      using ho_onReceive_abs [of p c p1 c1] Some e by (simp_all add: c2_def hs_abs_def)
    ultimately show ?thesis using np_onReceive_abs(1,2) [OF conn_step0D [OF 2] wf assms(3) np] by simp
  qed
  then show "conn_step0 K c c'" "hs_abs c' = hs_abs c" "pk_type p' = pk_type p" by auto
qed

text \<open>After the handshake: the probe, the sender and the receiver.\<close>

lemma after_handshake_step:
  "conn_inv K c \<Longrightarrow> conn_step K c (receiver_onReceive z u now p (sender_onReceive z now p (probe_on now c)))"
  by (rule conn_step_then [OF conn_step_then [OF probe_on_step sender_onReceive_step] receiver_onReceive_step])

lemma conn_receive_step:
  assumes "conn_inv K c" and "wf_packet p" and "length from = address_size" and "hs_reply (waiting c) (pk_type p) \<subseteq> K"
  shows "conn_step0 K c (conn_receive z u now p from c)"
proof -
  obtain k p1 c1 where a: "accept_packet now p from c = (k, p1, c1)" by (metis surj_pair)
  note s = accept_packet_step [OF assms(1-3) a]
  have reply: "hs_reply (waiting c1) (pk_type p1) \<subseteq> K" using s(2,3) assms(4) by (simp add: hs_abs_def)
  obtain p2 c2 where h: "handshake_onReceive z u now p1 c1 = (p2, c2)" by fastforce
  have "conn_step0 K c1 c2" using handshake_onReceive_step [OF conn_step0D [OF s(1)] reply, of z u now] h by simp
  then have 2: "conn_step0 K c c2" by (rule conn_step0_trans [OF s(1)])
  have "conn_step0 K c (receiver_onReceive z u now p2 (sender_onReceive z now p2 (probe_on now c2)))"
    by (rule conn_step0_then' [OF 2 after_handshake_step])
  with s(1) show ?thesis by (simp add: conn_receive_accept a h split: bool.splits)
qed

lemma conn_receive_abs:
  assumes "conn_inv K c" and "wf_packet p" and "length from = address_size"
  shows "hs_abs (conn_receive z u now p from c) =
    (case accept_packet now p from c of (k, p1, c1) \<Rightarrow> if k then hs_next p1 (hs_abs c) else hs_abs c)"
proof -
  obtain k p1 c1 where a: "accept_packet now p from c = (k, p1, c1)" by (metis surj_pair)
  have inv: "conn_inv UNIV c" by (rule conn_inv_mono [OF assms(1)]) simp
  note s = accept_packet_step [OF inv assms(2,3) a]
  obtain p2 c2 where h: "handshake_onReceive z u now p1 c1 = (p2, c2)" by fastforce
  have "conn_inv UNIV c2"
    using conn_step0D [OF handshake_onReceive_step [OF conn_step0D [OF s(1)], of p1 z u now]] h by simp
  then have "hs_abs (receiver_onReceive z u now p2 (sender_onReceive z now p2 (probe_on now c2))) = hs_abs c2"
    by (rule conn_step_abs [OF after_handshake_step])
  moreover have "hs_abs c2 = hs_next p1 (hs_abs c)"
    using handshake_onReceive_abs [OF conn_step0D [OF s(1)], of z u now p1] h s(2) by simp
  ultimately show ?thesis using s(2) by (simp add: conn_receive_accept a h split: bool.splits)
qed

end
