(* ===== verification/Transition_Systems.thy ===== *)
theory Transition_Systems
  imports Main
begin

text \<open>
  Systems that move by steps. A component gives its step relation and an invariant, and gets the
  invariant for every reachable state; a component that also gives a relation between the state before and
  the state after a step gets that relation for whole runs.
\<close>

locale invariant_system =
  fixes step :: "'s \<Rightarrow> 's \<Rightarrow> bool" and inv :: "'s \<Rightarrow> bool"
  assumes inv_step: "inv s \<Longrightarrow> step s t \<Longrightarrow> inv t"
begin

lemma inv_run:
  assumes "step\<^sup>*\<^sup>* s t" and "inv s"
  shows "inv t"
  using assms by (induction rule: rtranclp_induct) (auto intro: inv_step)

end

locale related_system = invariant_system step inv
  for step :: "'s \<Rightarrow> 's \<Rightarrow> bool" and inv :: "'s \<Rightarrow> bool" +
  fixes rel :: "'s \<Rightarrow> 's \<Rightarrow> bool"
  assumes rel_step: "inv s \<Longrightarrow> step s t \<Longrightarrow> rel s t"
    and rel_refl: "inv s \<Longrightarrow> rel s s"
    and rel_trans: "rel r s \<Longrightarrow> rel s t \<Longrightarrow> rel r t"
begin

lemma rel_run:
  assumes "step\<^sup>*\<^sup>* s t" and "inv s"
  shows "rel s t"
  using assms
proof (induction rule: rtranclp_induct)
  case (step t r)
  then show ?case using rel_step [OF inv_run [OF step.hyps(1) step.prems] step.hyps(2)] by (blast intro: rel_trans)
qed (rule rel_refl)

end

end
