(* ===== verification/Connection_Events.thy ===== *)
theory Connection_Events
  imports Connection_Inv Transition_Systems
begin

text \<open>
  A connection as it runs: the socket, the scheduler and the user call its handlers in any order and
  at any times (\<open>conn_trans\<close>), on the states \<^verbatim>\<open>Connection\<close> and its mechanisms build up. What holds for one
  handler by theory \<^verbatim>\<open>Connection_Inv\<close> holds for every run.
\<close>

section \<open>Handlers\<close>

text \<open>
  A handler the user or a timeout calls: the user sends or closes, or one of the timeouts the connection
  has set runs. The user's close is \<^verbatim>\<open>Connection::close\<close> followed by \<^verbatim>\<open>closeUser\<close>.
\<close>

inductive conn_local :: "compressor \<Rightarrow> Connection \<Rightarrow> Connection \<Rightarrow> bool" for z where
  send: "conn_local z c (snd (user_send z now data reliability c))"
| close: "conn_local z c (conn_close z now c)"
| close_user: "conn_local z c (closeUser event c)"
| close_now: "conn_local z c (close_event now event c)"
| retry: "conn_local z c (onRetryTimeout now c)"
| schedule: "conn_local z c (processSchedule z now reliability c)"
| probe: "conn_local z c (probe_onTimeout now c)"
| finish: "conn_local z c (finish c)"
| opened: "conn_local z c (snd (conn_open now status c))"

text \<open>Any handler: also a packet the socket delivers, and the start of the handshake.\<close>

inductive conn_trans :: "compressor \<Rightarrow> decompressor \<Rightarrow> Connection \<Rightarrow> Connection \<Rightarrow> bool" for z u where
  internal: "conn_local z c c' \<Longrightarrow> conn_trans z u c c'"
| receive: "wf_packet p \<Longrightarrow> length from = address_size \<Longrightarrow> conn_trans z u c (conn_receive z u now p from c)"
| connect: "conn_trans z u c (initiate now c)"

inductive_cases conn_localE: "conn_local z c c'"
inductive_cases conn_transE: "conn_trans z u c c'"

lemma user_send_step: "conn_inv K c \<Longrightarrow> conn_step K c (snd (user_send z now data r c))"
  unfolding user_send_def by (rule conn_step_then [OF upd_steps(2) sender_send_step])

lemma conn_open_step: "conn_inv K c \<Longrightarrow> conn_step K c (snd (conn_open now st c))"
  by (simp add: conn_open_def conn_step_refl probe_on_step)

lemmas handler_steps = user_send_step conn_close_step close_event_step onRetryTimeout_step processSchedule_step
  probe_onTimeout_step finish_step conn_open_step

lemma conn_local_step:
  assumes "conn_local z c c'" and "conn_inv K c"
  shows "conn_step K c c'"
  using assms(1) closeUser_step [OF assms(2)] by cases (simp_all add: handler_steps [OF assms(2)])

lemma conn_trans_step:
  assumes "conn_trans z u c c'" and "conn_inv UNIV c"
  shows "conn_step0 UNIV c c'"
  using assms(1)
proof cases
  case internal
  then show ?thesis by (rule conn_step_weak [OF conn_local_step [OF _ assms(2)]])
qed (use assms(2) in \<open>simp_all add: conn_receive_step initiate_step\<close>)

interpretation conn: related_system "conn_trans z u" "conn_inv UNIV" "conn_step0 UNIV" for z u
proof
  fix r s t
  show "conn_inv UNIV s \<Longrightarrow> conn_trans z u s t \<Longrightarrow> conn_inv UNIV t"
    by (rule conn_step0D [OF conn_trans_step])
  show "conn_inv UNIV s \<Longrightarrow> conn_trans z u s t \<Longrightarrow> conn_step0 UNIV s t" by (rule conn_trans_step)
  show "conn_inv UNIV s \<Longrightarrow> conn_step0 UNIV s s" by (rule conn_step0_refl)
  show "conn_step0 UNIV r s \<Longrightarrow> conn_step0 UNIV s t \<Longrightarrow> conn_step0 UNIV r t" by (rule conn_step0_trans)
qed

section \<open>Runs from the start\<close>

lemma new_SendQueue_inv: "sq_inv new_SendQueue"
  by (simp add: new_SendQueue_def sq_inv_def)

lemma new_Connection_inv: "length i = 16 \<Longrightarrow> conn_inv K (new_Connection opts i a l)"
  by (simp add: conn_inv_def new_Connection_def new_Sender_def user_inv_def retries_ok_def new_Retrier_def
      new_SendQueue_inv om_inv_def)

lemma openUser_inv: "conn_inv K c \<Longrightarrow> \<not> c_closed c \<Longrightarrow> conn_inv K (openUser o1 ud rh ch c)"
  by (simp add: openUser_def conn_inv_def user_inv_def Let_def split: option.splits)

text \<open>A connection the user has just opened, by \<^verbatim>\<open>connect\<close> or in the accept callback.\<close>

definition opened_connection ::
  "ConnectionOptions \<Rightarrow> LongConnectionID \<Rightarrow> Address \<Rightarrow> ShortConnectionID \<Rightarrow> ConnectionOptions option \<Rightarrow> nat \<Rightarrow> bool \<Rightarrow> bool \<Rightarrow> Connection" where
  "opened_connection o1 i a l o2 ud rh ch = openUser o2 ud rh ch (new_Connection o1 i a l)"

lemma opened_connection_inv: "length i = 16 \<Longrightarrow> conn_inv K (opened_connection o1 i a l o2 ud rh ch)"
  unfolding opened_connection_def
  by (rule openUser_inv [OF new_Connection_inv]) (simp_all add: new_Connection_def)

lemma opened_connection_fields:
  "c_out (opened_connection o1 i a l o2 ud rh ch) = []" "c_userDataDisposed (opened_connection o1 i a l o2 ud rh ch) = False"
  "c_userData (opened_connection o1 i a l o2 ud rh ch) = ud" "c_closeHandler (opened_connection o1 i a l o2 ud rh ch) = ch"
  "c_closed (opened_connection o1 i a l o2 ud rh ch) = False" "c_localID (opened_connection o1 i a l o2 ud rh ch) = l"
  "c_id (opened_connection o1 i a l o2 ud rh ch) = i" "hs_abs (opened_connection o1 i a l o2 ud rh ch) = (H0, 0)"
  "c_remoteAddress (opened_connection o1 i a l o2 ud rh ch) = a"
  by (simp_all add: opened_connection_def openUser_def new_Connection_def hs_abs_def new_Handshake_def Let_def split: option.splits)

lemma run_step0:
  assumes "length i = 16" and "(conn_trans z u)\<^sup>*\<^sup>* (opened_connection o1 i a l o2 ud rh ch) c"
  shows "conn_step0 UNIV (opened_connection o1 i a l o2 ud rh ch) c"
  by (rule conn.rel_run [OF assms(2) opened_connection_inv [OF assms(1)]])

section \<open>Callbacks\<close>

definition callbacks :: "Connection \<Rightarrow> effect list" where
  "callbacks c = filter (\<lambda>e. \<not> is_io e) (c_out c)"

definition is_receive :: "nat \<Rightarrow> effect \<Rightarrow> bool" where
  "is_receive ud e = (case e of UserReceive d _ _ \<Rightarrow> d = ud | _ \<Rightarrow> False)"

lemma callback_simps [simp]:
  "\<not> is_io (UserReceive d bs r)" "\<not> is_io (UserClose d ev)" "is_receive ud (UserReceive d bs r) = (d = ud)"
  "callback_to ud (UserReceive d bs r) = (d = ud)" "callback_to ud (UserClose d ev) = (d = ud)"
  by (simp_all add: is_io_def is_receive_def callback_to_def)

lemma user_run_shape:
  assumes "user_run False es = Some b" and "list_all (callback_to ud) es"
  shows "\<exists>rs cl. filter (\<lambda>e. \<not> is_io e) es = rs @ cl \<and> list_all (is_receive ud) rs
    \<and> (cl = [] \<and> \<not> b \<or> b \<and> (\<exists>ev. cl = [UserClose ud ev]))"
  using assms
proof (induction es)
  case (Cons e es)
  show ?case
  proof (cases e)
    case (UserReceive d bs r)
    with Cons obtain rs cl where "filter (\<lambda>e. \<not> is_io e) es = rs @ cl" "list_all (is_receive ud) rs"
      "cl = [] \<and> \<not> b \<or> b \<and> (\<exists>ev. cl = [UserClose ud ev])" by auto
    then show ?thesis using UserReceive Cons.prems(2)
      by (intro exI [of _ "e # rs"] exI [of _ cl]) auto
  next
    case (UserClose d ev)
    then have "b" "list_all is_io es" using Cons.prems(1) user_run_True [of es b] by simp_all
    then have "filter (\<lambda>e. \<not> is_io e) es = []" by (induction es) auto
    then show ?thesis using UserClose Cons.prems(2) \<open>b\<close>
      by (intro exI [of _ "[]"] exI [of _ "[e]"]) auto
  qed (use Cons in \<open>simp_all add: is_io_def\<close>)
qed simp

text \<open>
  C20: Whatever the socket, the scheduler and the user do with an opened connection, the user gets receive callbacks
  with their own pointer, then at most one close callback, and nothing after it; when the
  connection has closed and the user gave a close handler, the close callback has been made.
\<close>

theorem callbacks_close_once:
  assumes "length i = 16" and "(conn_trans z u)\<^sup>*\<^sup>* (opened_connection o1 i a l o2 ud rh ch) c"
  shows "\<exists>rs cl. callbacks c = rs @ cl \<and> list_all (is_receive ud) rs
    \<and> (cl = [] \<or> (\<exists>event. cl = [UserClose ud event])) \<and> (ch \<and> c_closed c \<longrightarrow> cl \<noteq> [])"
proof -
  have step: "conn_step0 UNIV (opened_connection o1 i a l o2 ud rh ch) c" by (rule run_step0 [OF assms])
  then obtain b where run: "list_all (callback_to ud) (c_out c)" "user_run False (c_out c) = Some b"
    "session_step b (opened_connection o1 i a l o2 ud rh ch) c"
    unfolding conn_step0_def opened_connection_fields by auto
  have "c_closed c \<longrightarrow> c_userDataDisposed c"
    using conn_step0D [OF step] by (simp add: conn_inv_def user_inv_def)
  with run(3) have "ch \<and> c_closed c \<longrightarrow> b" by (simp add: session_step_def opened_connection_fields)
  with user_run_shape [OF run(2,1)] show ?thesis unfolding callbacks_def by blast
qed

theorem callbacks_close_once_witness:
  "\<exists>rs cl. callbacks (close_event 5 MRUDP_EVENT_TIMEOUT (opened_connection mrudp_default_connection_options
        (replicate 16 1) empty_address 9 None 7 True True)) = rs @ cl
    \<and> list_all (is_receive 7) rs \<and> (\<exists>event. cl = [UserClose 7 event])"
proof -
  let ?c = "opened_connection mrudp_default_connection_options (replicate 16 1) empty_address 9 None 7 True True"
  let ?z = "\<lambda>_ _ _. None" and ?u = "\<lambda>_ _. []"
  have "(conn_trans ?z ?u)\<^sup>*\<^sup>* ?c (close_event 5 MRUDP_EVENT_TIMEOUT ?c)"
    by (intro r_into_rtranclp conn_trans.internal conn_local.close_now)
  from callbacks_close_once [OF _ this] have "\<exists>rs cl. callbacks (close_event 5 MRUDP_EVENT_TIMEOUT ?c) = rs @ cl
      \<and> list_all (is_receive 7) rs \<and> (cl = [] \<or> (\<exists>event. cl = [UserClose 7 event]))
      \<and> (True \<and> c_closed (close_event 5 MRUDP_EVENT_TIMEOUT ?c) \<longrightarrow> cl \<noteq> [])" by simp
  moreover have "c_closed (close_event 5 MRUDP_EVENT_TIMEOUT ?c)"
    by (simp add: close_event_def opened_connection_fields finishWhenReady_def closeUser_closed)
  ultimately show ?thesis by blast
qed

section \<open>Packets\<close>

definition sent_packets :: "effect list \<Rightarrow> Packet list" where
  "sent_packets es = concat (map (\<lambda>e. case e of SocketSend p a \<Rightarrow> [p] | _ \<Rightarrow> []) es)"

lemma effect_ok_packets: "list_all (effect_ok K lid cid) es \<Longrightarrow> list_all (sent_ok K lid cid) (sent_packets es)"
  by (induction es) (auto simp: sent_packets_def effect_ok_def split: effect.splits)

text \<open>
  C22: In every reachable state a connection keeps its invariant (identifier of 16 bytes, well-formed send queues,
  retry window ordered and holding only packets that fit), keeps its identifiers, and every
  packet it has given to the socket fits in the packet buffer.
\<close>

theorem connection_well_formed:
  assumes "length i = 16" and "(conn_trans z u)\<^sup>*\<^sup>* (opened_connection o1 i a l o2 ud rh ch) c"
  shows "conn_inv UNIV c \<and> c_id c = i \<and> c_localID c = l \<and> list_all wf_packet (sent_packets (c_out c))"
proof -
  have step: "conn_step0 UNIV (opened_connection o1 i a l o2 ud rh ch) c" by (rule run_step0 [OF assms])
  have "list_all (sent_ok UNIV l i) (sent_packets (c_out c))"
    using step unfolding conn_step0_def opened_connection_fields by (auto dest: effect_ok_packets)
  then have "list_all wf_packet (sent_packets (c_out c))"
    by (rule list.pred_mono_strong) (simp add: sent_ok_def)
  with step show ?thesis by (simp add: conn_step0_def opened_connection_fields)
qed

theorem connection_well_formed_witness:
  "list_all wf_packet (sent_packets (c_out (initiate 0 (opened_connection mrudp_default_connection_options
     (replicate 16 1) empty_address 9 None 7 True True))))"
proof -
  let ?c = "opened_connection mrudp_default_connection_options (replicate 16 1) empty_address 9 None 7 True True"
  have "(conn_trans (\<lambda>_ _ _. None) (\<lambda>_ _. []))\<^sup>*\<^sup>* ?c (initiate 0 ?c)"
    by (rule r_into_rtranclp, rule conn_trans.connect)
  from connection_well_formed [OF _ this] show ?thesis by simp
qed

end
