(* ===== verification/Handshake_Path.thy ===== *)
theory Handshake_Path
  imports Connection_Events
begin

text \<open>
  What the handshake and the network path do to a connection, over \<^verbatim>\<open>Connection::receive\<close>: the handshake
  implements the automaton \<open>hs_next\<close>, the options travel with it, and the remote address
  changes only to the sender of an echoed challenge.
\<close>

section \<open>The handshake\<close>

lemma conn_receive_refines:
  assumes "conn_inv K c" and "wf_packet p" and "length (c_remoteAddress c) = address_size"
  shows "hs_abs (conn_receive z u now p (c_remoteAddress c) c) =
    (case ho_onReceive p c of None \<Rightarrow> hs_abs c | Some (p1, c1) \<Rightarrow> hs_next p1 (hs_abs c))"
proof (cases "ho_onReceive p c")
  case None
  then show ?thesis by (simp add: conn_receive_def)
next
  case (Some e)
  obtain p1 c1 where e: "e = (p1, c1)" by (cases e)
  define c2 where "c2 = c1\<lparr>c_statistics := stat_onReceive p1 (c_statistics c1)\<rparr>"
  have addr: "c_remoteAddress c2 = c_remoteAddress c" using ho_onReceive_abs [of p c p1 c1] Some e by (simp add: c2_def)
  obtain k p2 c3 where np: "np_onReceive now p1 (c_remoteAddress c) c2 = (k, p2, c3)" by (metis surj_pair)
  have inv: "conn_inv K c2"
    using conn_step0D [OF ho_onReceive_step [OF assms(1)], of p p1 c1] Some e by (simp add: c2_def)
  have wf: "wf_packet p1" using ho_onReceive_wf assms(2) Some e by blast
  note np_abs = np_onReceive_abs [OF inv wf assms(3) np]
  have k: k using np_abs(4) addr by simp
  have "hs_next p2 s = hs_next p1 s" for s
  proof (cases "isHandshake (pk_type p1)")
    case False
    with np_abs(2) show ?thesis by (cases s) (auto simp: hs_next_def isHandshake_def)
  qed (simp add: np_abs(3))
  moreover have "accept_packet now p (c_remoteAddress c) c = (k, p2, c3)"
    using Some e np by (simp add: accept_packet_def c2_def)
  ultimately show ?thesis using conn_receive_abs [OF assms, of z u now] k Some e by simp
qed

text \<open>
  C26: Receiving a packet from the established address moves the handshake exactly as the four-state automaton
  does: a packet the handshake does not wait for changes nothing, H2 and H3 complete it with the
  identifier they announce, and a truncated H3 is dropped.
\<close>

theorem handshake_refines:
  assumes "conn_inv K c" and "wf_packet p" and "length (c_remoteAddress c) = address_size"
  shows "hs_abs (conn_receive z u now p (c_remoteAddress c) c) =
    (case ho_onReceive p c of None \<Rightarrow> hs_abs c | Some (p1, c1) \<Rightarrow> hs_next p1 (hs_abs c))"
  by (rule conn_receive_refines [OF assms])

theorem handshake_refines_witness:
  "hs_abs (conn_receive (\<lambda>_ _ _. None) (\<lambda>_ _. []) 5 (set_type H0 new_packet) empty_address
     (opened_connection mrudp_default_connection_options (replicate 16 1) empty_address 9 None 7 True True)) = (H2, 0)"
proof -
  let ?c = "opened_connection mrudp_default_connection_options (replicate 16 1) empty_address 9 None 7 True True"
  have "conn_inv UNIV ?c" by (rule opened_connection_inv) simp
  moreover have "wf_packet (set_type H0 new_packet)" by (simp add: wf_packet_def)
  moreover have "length (c_remoteAddress ?c) = address_size" by (simp add: opened_connection_fields empty_address_def)
  ultimately show ?thesis
    using handshake_refines [of UNIV ?c "set_type H0 new_packet" "\<lambda>_ _ _. None" "\<lambda>_ _. []" 5]
    by (simp add: ho_onReceive_def hs_next_def opened_connection_fields)
qed

text \<open>
  The options a connection attaches to its H3 are the options the peer adopts: what \<^verbatim>\<open>onReceive\<close> reads is
  the non-negative part of the probe delay and the attempt limit of the sender, and the
  packet is as it was before they were attached.
\<close>

theorem options_roundtrip:
  assumes "ho_onSend opts p = Some p'" and "pk_type p = H3" and "length (pk_data p) + 6 \<le> MAX_PACKET_SIZE"
    and "opt_probe_delay_ms opts < 2 ^ 31" and "- (2 ^ 15) \<le> opt_maximum_retry_attempts opts"
    and "opt_maximum_retry_attempts opts < 2 ^ 15"
  shows "ho_onReceive p' c = Some (p, c\<lparr>c_options := (c_options c)\<lparr>
    opt_probe_delay_ms := max (opt_probe_delay_ms opts) 0,
    opt_maximum_retry_attempts := opt_maximum_retry_attempts opts\<rparr>\<rparr>)"
proof -
  have len: "length (enc_options opts) = 6" by (simp add: enc_options_def)
  have p': "p' = p\<lparr>pk_data := pk_data p @ enc_options opts\<rparr>"
    using assms(1-3) len by (simp add: ho_onSend_def pushT_fits dataSize_def)
  have pop: "popData p' 6 = Some (enc_options opts, p)"
    using popData_append [OF len, of "pk_data p" p] by (simp add: p')
  have delay: "sint (word_of_int (max (opt_probe_delay_ms opts) 0) :: u32) = max (opt_probe_delay_ms opts) 0"
    using assms(4) by (simp add: sint_sbintrunc' signed_take_bit_int_eq_self)
  have attempts: "sint (word_of_int (opt_maximum_retry_attempts opts) :: u16) = opt_maximum_retry_attempts opts"
    using assms(5,6) by (simp add: sint_sbintrunc' signed_take_bit_int_eq_self)
  have "pk_type p' = H3" using assms(2) by (simp add: p' pk_type_def)
  then show ?thesis using pop delay attempts by (simp add: ho_onReceive_def enc_options_def)
qed

theorem options_roundtrip_witness:
  "ho_onReceive (the (ho_onSend (mrudp_default_connection_options\<lparr>opt_probe_delay_ms := 250, opt_maximum_retry_attempts := 10\<rparr>)
      (set_type H3 new_packet))) (new_Connection mrudp_default_connection_options [] [] 3)
   = Some (set_type H3 new_packet, (new_Connection mrudp_default_connection_options [] [] 3)\<lparr>c_options :=
       mrudp_default_connection_options\<lparr>opt_probe_delay_ms := 250, opt_maximum_retry_attempts := 10\<rparr>\<rparr>)"
proof -
  let ?o = "mrudp_default_connection_options\<lparr>opt_probe_delay_ms := 250, opt_maximum_retry_attempts := 10\<rparr>"
  obtain p' where p': "ho_onSend ?o (set_type H3 new_packet) = Some p'"
    using ho_onSend_sendable [of UNIV 0 "set_type H3 new_packet" ?o]
    by (auto simp: ho_onSend_def pushT_fits dataSize_def enc_options_def)
  have "new_Connection mrudp_default_connection_options [] [] 3\<lparr>c_options := c_options (new_Connection mrudp_default_connection_options [] [] 3)
      \<lparr>opt_probe_delay_ms := 250, opt_maximum_retry_attempts := 10\<rparr>\<rparr>
    = new_Connection mrudp_default_connection_options [] [] 3\<lparr>c_options := ?o\<rparr>" by (simp add: new_Connection_def)
  then show ?thesis
    using options_roundtrip [OF p', of "new_Connection mrudp_default_connection_options [] [] 3"] by (simp add: p' del: H3_def)
qed

section \<open>The remote address\<close>

lemma handlePacket_address:
  assumes "conn_inv K c"
  shows "c_remoteAddress (snd (handlePacket z u now p c)) = c_remoteAddress c"
proof -
  have inv: "conn_inv UNIV c" by (rule conn_inv_mono [OF assms]) simp
  have w: "conn_inv UNIV (set_waitingFor t c')" if "conn_inv UNIV c'" for t c'
    using that by (simp add: set_waitingFor_def)
  have addr: "c_remoteAddress c2 = c_remoteAddress c1" if "conn_step UNIV c1 c2" for c1 c2
    using that by (simp add: conn_step_def fixed_def)
  note h0 = handle_H0_step [OF inv UNIV_I, of now p]
  note h2 = handle_H2_step [OF inv UNIV_I, of now "snd (readRemoteID p)"]
  have H1: "storable UNIV (c_localID c) (snd (pushT (set_type H2 new_packet) (enc_word 2 (c_localID c))))"
    by (rule handshake_packets) simp
  have h1: "c_remoteAddress (sendReliably now q None (set_waitingFor H3 c)) = c_remoteAddress c"
    if "storable UNIV (c_localID c) q" for q
    using addr [OF sendReliably_step [OF w [OF inv], of H3]] that by (simp add: set_waitingFor_def)
  have wait: "c_remoteAddress (set_waitingFor t c') = c_remoteAddress c'" for t c' by (simp add: set_waitingFor_def)
  show ?thesis
    using addr [OF h0] addr [OF h2] h1 [OF H1] conn_stepD [OF h0] conn_stepD [OF h2] inv
    by (auto simp: handlePacket_def Let_def case_prod_beta wait w addr [OF onHandshakeComplete_step])
qed

lemma verifyChallengeResponse_basis:
  assumes "fst (verifyChallengeResponse now p path c)" and "path \<noteq> c_remoteAddress c"
  shows "\<exists>signature p1 basis p2. popVector p = (Some signature, p1) \<and> popVector p1 = (Some basis, p2)
    \<and> length basis = address_size + 8 \<and> drop 8 basis = path \<and> time_seconds now - dec_word (take 8 basis) \<le> 60"
  using assms by (auto simp: verifyChallengeResponse_def Let_def split: option.splits prod.splits if_splits)

lemma np_onReceive_address:
  assumes "np_onReceive now p from c = (k, p', c')" and "conn_inv K c" and "wf_packet p" and "length from = address_size"
  shows "c_remoteAddress c' = c_remoteAddress c \<or>
    pk_type p = AUTHENTICATE_RESPONSE \<and> c_remoteAddress c' = from \<and> from \<noteq> c_remoteAddress c \<and> fst (verifyChallengeResponse now p from c)"
proof -
  have addr: "c_remoteAddress c2 = c_remoteAddress c1" if "conn_step UNIV c1 c2" for c1 c2
    using that by (simp add: conn_step_def fixed_def)
  have inv: "conn_inv UNIV c" by (rule conn_inv_mono [OF assms(2)]) simp
  have "c_remoteAddress (sendChallengeResponse now p c) = c_remoteAddress c"
    unfolding sendChallengeResponse_def by simp
  moreover have "c_remoteAddress (sendChallenge now from c) = c_remoteAddress c"
    by (rule addr [OF sendChallenge_step [OF inv assms(4)]])
  moreover have "c_remoteAddress (onRemoteAddressChanged from c) = from"
    by (simp add: onRemoteAddressChanged_def)
  ultimately show ?thesis using assms(1)
    by (auto simp: np_onReceive_def split: if_splits prod.splits bool.splits)
qed

lemma conn_receive_address:
  assumes "conn_inv K c" and "wf_packet p" and "length from = address_size"
  shows "c_remoteAddress (conn_receive z u now p from c) = c_remoteAddress (snd (snd (accept_packet now p from c)))"
proof -
  obtain k p1 c1 where a: "accept_packet now p from c = (k, p1, c1)" by (metis surj_pair)
  have inv: "conn_inv UNIV c" by (rule conn_inv_mono [OF assms(1)]) simp
  have inv1: "conn_inv UNIV c1" by (rule conn_step0D [OF accept_packet_step(1) [OF inv assms(2,3) a]])
  obtain p2 c2 where h: "handshake_onReceive z u now p1 c1 = (p2, c2)" by fastforce
  have c2: "c_remoteAddress c2 = c_remoteAddress c1"
    using h handlePacket_address [OF inv1, of z u now p1] by (auto simp: handshake_onReceive_def split: if_splits)
  have "conn_inv UNIV c2" using conn_step0D [OF handshake_onReceive_step [OF inv1, of p1 z u now]] h by simp
  from after_handshake_step [OF this, of z u now p2] c2 show ?thesis
    using a h by (simp add: conn_receive_accept conn_step_def fixed_def split: bool.splits)
qed

lemma accept_packet_address:
  assumes "conn_inv K c" and "wf_packet p" and "length from = address_size"
    and "c_remoteAddress (snd (snd (accept_packet now p from c))) \<noteq> c_remoteAddress c"
  shows "pk_type p = AUTHENTICATE_RESPONSE \<and> c_remoteAddress (snd (snd (accept_packet now p from c))) = from
    \<and> (\<exists>signature p1 basis p2. popVector p = (Some signature, p1) \<and> popVector p1 = (Some basis, p2)
         \<and> drop 8 basis = from \<and> time_seconds now - dec_word (take 8 basis) \<le> 60)"
proof (cases "ho_onReceive p c")
  case None
  with assms(4) show ?thesis by (simp add: accept_packet_def)
next
  case (Some e)
  obtain p1 c1 where e: "e = (p1, c1)" by (cases e)
  define c2 where "c2 = c1\<lparr>c_statistics := stat_onReceive p1 (c_statistics c1)\<rparr>"
  have same: "c_remoteAddress c2 = c_remoteAddress c" "pk_type p1 = pk_type p"
    using ho_onReceive_abs [of p c p1 c1] Some e by (simp_all add: c2_def)
  obtain k p2 c3 where np: "np_onReceive now p1 from c2 = (k, p2, c3)" by (metis surj_pair)
  have inv2: "conn_inv K c2"
    using conn_step0D [OF ho_onReceive_step [OF assms(1)], of p p1 c1] Some e by (simp add: c2_def)
  have wf: "wf_packet p1" using ho_onReceive_wf assms(2) Some e by blast
  have a: "accept_packet now p from c = (k, p2, c3)" using Some e np by (simp add: accept_packet_def c2_def)
  with np_onReceive_address [OF np inv2 wf assms(3)] assms(4) same
  have r: "pk_type p = AUTHENTICATE_RESPONSE" "c_remoteAddress c3 = from" "fst (verifyChallengeResponse now p1 from c2)"
    "from \<noteq> c_remoteAddress c2" by simp_all
  from r(1) Some e have "p1 = p" by (simp add: ho_onReceive_def split: option.splits)
  with verifyChallengeResponse_basis [OF r(3,4)] r(1,2) a show ?thesis by auto
qed

text \<open>
  C33: The remote address of a connection changes only on an AUTHENTICATE_RESPONSE, only to the address that
  response came from, and only when the challenge it echoes names that address and is at
  most 60 seconds old.
\<close>

theorem address_change_verified:
  assumes "conn_inv K c" and "wf_packet p" and "length from = address_size"
    and "c_remoteAddress (conn_receive z u now p from c) \<noteq> c_remoteAddress c"
  shows "pk_type p = AUTHENTICATE_RESPONSE \<and> c_remoteAddress (conn_receive z u now p from c) = from
    \<and> (\<exists>signature p1 basis p2. popVector p = (Some signature, p1) \<and> popVector p1 = (Some basis, p2)
         \<and> drop 8 basis = from \<and> time_seconds now - dec_word (take 8 basis) \<le> 60)"
  using accept_packet_address [OF assms(1-3), of now] assms(4) conn_receive_address [OF assms(1-3), of z u now] by simp

definition example_basis :: bytes where
  "example_basis = enc_word 8 (0 :: u64) @ replicate 28 2"

definition example_response :: Packet where
  "example_response = (set_id 4 (set_type AUTHENTICATE_RESPONSE new_packet))\<lparr>pk_data :=
     (example_basis @ enc_word 2 (of_nat 36 :: u16)) @ [] @ enc_word 2 (of_nat 0 :: u16)\<rparr>"

theorem address_change_verified_witness:
  "c_remoteAddress (conn_receive (\<lambda>_ _ _. None) (\<lambda>_ _. []) 7 example_response (replicate 28 2)
     (opened_connection mrudp_default_connection_options (replicate 16 1) (replicate 28 1) 9 None 7 True True)) = replicate 28 2"
proof -
  let ?c = "opened_connection mrudp_default_connection_options (replicate 16 1) (replicate 28 1) 9 None 7 True True"
  let ?from = "replicate 28 2 :: Address" and ?p = "set_id 4 (set_type AUTHENTICATE_RESPONSE new_packet)"
  have inv: "conn_inv UNIV ?c" by (rule opened_connection_inv) simp
  have len: "length example_basis = 36" by (simp add: example_basis_def)
  have wf: "wf_packet example_response" by (simp add: wf_packet_def example_response_def len)
  have fr: "length ?from = address_size" by simp
  have "popVector example_response = (Some [], ?p\<lparr>pk_data := [] @ example_basis @ enc_word 2 (of_nat 36 :: u16)\<rparr>)"
    using popVector_append [of "[]" "example_basis @ enc_word 2 (of_nat 36 :: u16)" ?p] by (simp add: example_response_def)
  moreover have "popVector (?p\<lparr>pk_data := [] @ example_basis @ enc_word 2 (of_nat 36 :: u16)\<rparr>) = (Some example_basis, ?p\<lparr>pk_data := []\<rparr>)"
    using popVector_append [of example_basis "[]" ?p] len by simp
  moreover have "replicate 28 2 \<noteq> empty_address" by (simp add: empty_address_def)
  ultimately have "\<exists>q. verifyChallengeResponse 7 example_response ?from c = (True, q)" for c
    by (simp add: verifyChallengeResponse_def len Let_def) (simp add: example_basis_def time_seconds_def)
  then obtain q where "verifyChallengeResponse 7 example_response ?from (?c\<lparr>c_statistics :=
      stat_onReceive example_response (c_statistics ?c)\<rparr>) = (True, q)" by blast
  moreover have "pk_type example_response = AUTHENTICATE_RESPONSE" by (simp add: example_response_def pk_type_def set_id_def set_type_def)
  ultimately have "c_remoteAddress (snd (snd (accept_packet 7 example_response ?from ?c))) = ?from"
    by (auto simp: accept_packet_def ho_onReceive_def np_onReceive_def opened_connection_fields onRemoteAddressChanged_def)
  moreover have "?from \<noteq> c_remoteAddress ?c" by (simp add: opened_connection_fields)
  ultimately have "c_remoteAddress (conn_receive (\<lambda>_ _ _. None) (\<lambda>_ _. []) 7 example_response ?from ?c) \<noteq> c_remoteAddress ?c"
    by (simp only: conn_receive_address [OF inv wf fr] not_False_eq_True)
  from address_change_verified [OF inv wf fr this] show ?thesis by blast
qed

end
