(* ===== verification/Socket.thy ===== *)
theory Socket
  imports Handshake_Path "HOL-Library.Monad_Syntax"
begin

text \<open>
  The socket: \<^verbatim>\<open>mrudp/Socket.h\<close> and \<^verbatim>\<open>mrudp/Socket.cpp\<close>. A socket owns the short identifiers, the two look-up
  tables and the connections, which live in a store and are shared by the tables; a
  reference is an index of the store. The random generator, the implementation's \<^verbatim>\<open>open\<close> and the user's
  callbacks are parameters (\<open>Env\<close>).

  \<^verbatim>\<open>acquireShortConnectionID\<close> loops until it finds a free identifier; an operation that calls it returns
  \<open>None\<close> when that loop never ends.
\<close>

section \<open>State\<close>

type_synonym conn_ref = nat

datatype sk_effect = SkClosed nat mrudp_event | SkShouldAccept nat Address | SkAccepted nat conn_ref

record Socket =
  sk_shortConnectionIDs :: "ShortConnectionID set"
  sk_userDataDisposed :: bool
  sk_userData :: nat
  sk_shouldAccept :: bool
  sk_acceptHandler :: bool
  sk_closeHandler :: bool
  sk_connections :: "LongConnectionID \<Rightarrow> conn_ref option"
  sk_receiveConnections :: "ShortConnectionID \<Rightarrow> conn_ref option"
  sk_store :: "Connection list"
  sk_out :: "sk_effect list"

definition new_Socket :: Socket where
  "new_Socket = \<lparr>sk_shortConnectionIDs = {}, sk_userDataDisposed = True, sk_userData = 0, sk_shouldAccept = False,
     sk_acceptHandler = False, sk_closeHandler = False, sk_connections = (\<lambda>_. None), sk_receiveConnections = (\<lambda>_. None),
     sk_store = [], sk_out = []\<rparr>"

text \<open>
  What the socket gets from outside: the identifier \<^verbatim>\<open>random.next\<close> draws, the options of the service, the result of
  the implementation's \<^verbatim>\<open>open\<close>, and the answers of the user's callbacks; the accept callback may
  act on the connection it is given.
\<close>

record Env =
  env_random :: ShortConnectionID
  env_options :: ConnectionOptions
  env_open :: int
  env_shouldAccept :: "nat \<Rightarrow> Address \<Rightarrow> int"
  env_accept :: "nat \<Rightarrow> Connection \<Rightarrow> int \<times> Connection"

definition conn_at :: "Socket \<Rightarrow> conn_ref \<Rightarrow> Connection" where
  "conn_at s r = sk_store s ! r"

definition set_conn :: "conn_ref \<Rightarrow> Connection \<Rightarrow> Socket \<Rightarrow> Socket" where
  "set_conn r c s = s\<lparr>sk_store := (sk_store s)[r := c]\<rparr>"

definition alloc_conn :: "Connection \<Rightarrow> Socket \<Rightarrow> conn_ref \<times> Socket" where
  "alloc_conn c s = (length (sk_store s), s\<lparr>sk_store := sk_store s @ [c]\<rparr>)"

section \<open>Identifiers\<close>

definition isFull :: "Socket \<Rightarrow> bool" where
  "isFull s \<longleftrightarrow> card (sk_shortConnectionIDs s) = 65534"

partial_function (option) acquire_loop :: "ShortConnectionID set \<Rightarrow> ShortConnectionID \<Rightarrow> ShortConnectionID option" where
  "acquire_loop ids i = (if i = 0 \<or> i \<in> ids then acquire_loop ids (i + 1) else Some i)"

definition acquireShortConnectionID :: "ShortConnectionID \<Rightarrow> Socket \<Rightarrow> (ShortConnectionID \<times> Socket) option" where
  "acquireShortConnectionID start s =
     do { i \<leftarrow> acquire_loop (sk_shortConnectionIDs s) start;
          Some (i, s\<lparr>sk_shortConnectionIDs := insert i (sk_shortConnectionIDs s)\<rparr>) }"

definition releaseShortConnectionID :: "ShortConnectionID \<Rightarrow> Socket \<Rightarrow> Socket" where
  "releaseShortConnectionID i s =
     (if i \<in> sk_shortConnectionIDs s then s\<lparr>sk_shortConnectionIDs := sk_shortConnectionIDs s - {i}\<rparr> else s)"

section \<open>The tables\<close>

definition sk_insert :: "conn_ref \<Rightarrow> Socket \<Rightarrow> Socket" where
  "sk_insert r s = s\<lparr>sk_connections := (sk_connections s)(c_id (conn_at s r) \<mapsto> r),
     sk_receiveConnections := (sk_receiveConnections s)(c_localID (conn_at s r) \<mapsto> r)\<rparr>"

definition sk_erase :: "conn_ref \<Rightarrow> Socket \<Rightarrow> Socket" where
  "sk_erase r s = releaseShortConnectionID (c_localID (conn_at s r))
     (s\<lparr>sk_receiveConnections := (sk_receiveConnections s)(c_localID (conn_at s r) := None),
        sk_connections := (sk_connections s)(c_id (conn_at s r) := None)\<rparr>)"

text \<open>\<^verbatim>\<open>Connection::finish\<close> with the erase it asks the socket for.\<close>

definition sk_finish :: "conn_ref \<Rightarrow> Socket \<Rightarrow> Socket" where
  "sk_finish r s = sk_erase r (set_conn r (finish (conn_at s r)) s)"

record LookUp =
  lu_shortID :: ShortConnectionID
  lu_longID :: LongConnectionID

definition getLookUp :: "Packet \<Rightarrow> LookUp \<times> Packet" where
  "getLookUp packet =
     (let shortID = h_connection (pk_header packet)
      in if shortID = 0
         then (case popData packet 16 of
                 None \<Rightarrow> (\<lparr>lu_shortID = shortID, lu_longID = NullLongConnectionID\<rparr>, packet)
               | Some (longID, packet1) \<Rightarrow> (\<lparr>lu_shortID = shortID, lu_longID = longID\<rparr>, packet1))
         else (\<lparr>lu_shortID = shortID, lu_longID = NullLongConnectionID\<rparr>, packet))"

definition findConnection :: "LookUp \<Rightarrow> Socket \<Rightarrow> conn_ref option" where
  "findConnection lookup s =
     (if lu_longID lookup \<noteq> NullLongConnectionID then sk_connections s (lu_longID lookup)
      else if lu_shortID lookup \<noteq> 0 then sk_receiveConnections s (lu_shortID lookup)
      else None)"

section \<open>Opening and closing\<close>

definition sk_listen :: "nat \<Rightarrow> bool \<Rightarrow> bool \<Rightarrow> bool \<Rightarrow> Socket \<Rightarrow> Socket" where
  "sk_listen userData shouldAccept acceptHandler closeHandler s =
     (if sk_userDataDisposed s
      then s\<lparr>sk_userDataDisposed := False, sk_userData := userData, sk_shouldAccept := shouldAccept,
             sk_acceptHandler := acceptHandler, sk_closeHandler := closeHandler\<rparr>
      else s)"

text \<open>\<^verbatim>\<open>Socket::close\<close> is \<^verbatim>\<open>closeUser\<close>.\<close>

definition sk_closeUser :: "Socket \<Rightarrow> Socket" where
  "sk_closeUser s =
     (if \<not> sk_userDataDisposed s
      then let s1 = (if sk_closeHandler s then s\<lparr>sk_out := sk_out s @ [SkClosed (sk_userData s) MRUDP_EVENT_CLOSED]\<rparr> else s)
           in s1\<lparr>sk_userDataDisposed := True, sk_userData := 0, sk_acceptHandler := False, sk_closeHandler := False\<rparr>
      else s)"

text \<open>\<open>longID\<close> is what \<^verbatim>\<open>generateLongConnectionID\<close> draws.\<close>

definition sk_connect ::
  "Env \<Rightarrow> timepoint \<Rightarrow> LongConnectionID \<Rightarrow> Address \<Rightarrow> ConnectionOptions option \<Rightarrow> nat \<Rightarrow> bool \<Rightarrow> bool \<Rightarrow> Socket
   \<Rightarrow> (conn_ref option \<times> Socket) option" where
  "sk_connect env now longID remoteAddress options userData receiveHandler closeHandler s =
     do { (localID, s1) \<leftarrow> acquireShortConnectionID (env_random env) s;
          let c = openUser options userData receiveHandler closeHandler
                    (new_Connection (env_options env) longID remoteAddress localID);
          let (r, s2) = alloc_conn c s1;
          let s3 = sk_insert r s2;
          let (status, c1) = conn_open now (env_open env) c;
          if status \<noteq> MRUDP_OK then Some (None, sk_finish r (set_conn r c1 s3))
          else Some (Some r, set_conn r (initiate now c1) s3) }"

definition generateConnection ::
  "Env \<Rightarrow> timepoint \<Rightarrow> LookUp \<Rightarrow> Packet \<Rightarrow> Address \<Rightarrow> Socket \<Rightarrow> (conn_ref option \<times> Socket) option" where
  "generateConnection env now lookup packet remoteAddress s =
     (if isFull s then Some (None, s)
      else if pk_type packet \<noteq> H0 then Some (None, s)
      else if lu_longID lookup = NullLongConnectionID then Some (None, s)
      else if \<not> sk_acceptHandler s then Some (None, s)
      else let s1 = (if sk_shouldAccept s
                     then s\<lparr>sk_out := sk_out s @ [SkShouldAccept (sk_userData s) remoteAddress]\<rparr> else s)
           in if sk_shouldAccept s \<and> env_shouldAccept env (sk_userData s) remoteAddress \<noteq> MRUDP_OK then Some (None, s1)
              else do { (localID, s2) \<leftarrow> acquireShortConnectionID (env_random env) s1;
                        let c = new_Connection (env_options env) (lu_longID lookup) remoteAddress localID;
                        let (r, s3) = alloc_conn c s2;
                        let s4 = sk_insert r s3;
                        let (status, c1) = conn_open now (env_open env) c;
                        if status \<noteq> MRUDP_OK then Some (None, sk_finish r (set_conn r c1 s4))
                        else let (accepted, c2) = env_accept env (sk_userData s) c1;
                                 s5 = (set_conn r c2 s4)\<lparr>sk_out := sk_out s4 @ [SkAccepted (sk_userData s) r]\<rparr>
                             in if accepted \<noteq> MRUDP_OK
                                then Some (None, set_conn r (close_event now MRUDP_EVENT_NOT_ACCEPTED c2) s5)
                                else Some (Some r, s5) })"

definition findOrGenerateConnection ::
  "Env \<Rightarrow> timepoint \<Rightarrow> LookUp \<Rightarrow> Packet \<Rightarrow> Address \<Rightarrow> Socket \<Rightarrow> (conn_ref option \<times> Socket) option" where
  "findOrGenerateConnection env now lookup packet remoteAddress s =
     (case findConnection lookup s of
        Some r \<Rightarrow> Some (Some r, s)
      | None \<Rightarrow> generateConnection env now lookup packet remoteAddress s)"

definition sk_receive ::
  "compressor \<Rightarrow> decompressor \<Rightarrow> Env \<Rightarrow> timepoint \<Rightarrow> Packet \<Rightarrow> Address \<Rightarrow> Socket \<Rightarrow> Socket option" where
  "sk_receive z u env now packet remoteAddress s =
     (case getLookUp packet of
        (lookup, packet1) \<Rightarrow>
          do { (found, s1) \<leftarrow> findOrGenerateConnection env now lookup packet1 remoteAddress s;
               case found of
                 None \<Rightarrow> Some s1
               | Some r \<Rightarrow> Some (set_conn r (conn_receive z u now packet1 remoteAddress (conn_at s1 r)) s1) })"

section \<open>Acquiring identifiers\<close>

lemma acquire_loop_sound: "acquire_loop ids i = Some j \<Longrightarrow> j \<noteq> 0 \<and> j \<notin> ids"
  by (rule acquire_loop.raw_induct [where P = "\<lambda>ids i j. j \<noteq> 0 \<and> j \<notin> ids"]) (fastforce split: if_splits)+

lemma acquire_loop_complete:
  assumes "f \<noteq> 0" and "f \<notin> ids"
  shows "\<exists>j. acquire_loop ids i = Some j"
proof (induction "unat (f - i)" arbitrary: i rule: less_induct)
  case less
  show ?case
  proof (cases "i = 0 \<or> i \<in> ids")
    case True
    with assms have "f - i \<noteq> 0" by auto
    then have "unat (f - (i + 1)) < unat (f - i)"
      using unat_minus_one [of "f - i"] by (simp add: diff_diff_add [symmetric] unat_gt_0)
    with less [of "i + 1"] True show ?thesis by (subst acquire_loop.simps) simp
  qed (subst acquire_loop.simps, simp)
qed

text \<open>
  C36: Acquiring a short identifier ends exactly when some non-zero identifier is free, whatever identifier the random
  generator starts it from; it then returns a free non-zero identifier and marks it used. With all
  65535 identifiers in use the loop never ends.
\<close>

theorem acquireShortConnectionID_total:
  "case acquireShortConnectionID start s of
     None \<Rightarrow> insert 0 (sk_shortConnectionIDs s) = UNIV
   | Some (i, s') \<Rightarrow> insert 0 (sk_shortConnectionIDs s) \<noteq> UNIV \<and> i \<noteq> 0 \<and> i \<notin> sk_shortConnectionIDs s
       \<and> s' = s\<lparr>sk_shortConnectionIDs := insert i (sk_shortConnectionIDs s)\<rparr>"
proof (cases "acquire_loop (sk_shortConnectionIDs s) start")
  case None
  then have "f = 0 \<or> f \<in> sk_shortConnectionIDs s" for f
    using acquire_loop_complete [of f "sk_shortConnectionIDs s" start] by auto
  with None show ?thesis by (auto simp: acquireShortConnectionID_def)
next
  case (Some i)
  with acquire_loop_sound [OF Some] show ?thesis by (auto simp: acquireShortConnectionID_def)
qed

lemma acquire_cases:
  assumes "acquireShortConnectionID start s = Some (i, s')"
  shows "i \<noteq> 0" "i \<notin> sk_shortConnectionIDs s" "s' = s\<lparr>sk_shortConnectionIDs := insert i (sk_shortConnectionIDs s)\<rparr>"
  using assms acquire_loop_sound [of "sk_shortConnectionIDs s" start i]
  by (auto simp: acquireShortConnectionID_def split: Option.bind_splits)

section \<open>Invariant\<close>

text \<open>
  The identifiers in use are those of the receive table; the two tables name the same connections,
  each under its own identifiers; every connection of the store is well formed.
\<close>

definition sock_inv :: "Socket \<Rightarrow> bool" where
  "sock_inv s \<longleftrightarrow> sk_shortConnectionIDs s = dom (sk_receiveConnections s) \<and> 0 \<notin> sk_shortConnectionIDs s
     \<and> (\<forall>l r. sk_receiveConnections s l = Some r \<longrightarrow>
          r < length (sk_store s) \<and> c_localID (conn_at s r) = l \<and> sk_connections s (c_id (conn_at s r)) = Some r)
     \<and> (\<forall>i r. sk_connections s i = Some r \<longrightarrow>
          r < length (sk_store s) \<and> c_id (conn_at s r) = i \<and> sk_receiveConnections s (c_localID (conn_at s r)) = Some r)
     \<and> (\<forall>c \<in> set (sk_store s). conn_inv UNIV c)"

lemma sock_invD:
  assumes "sock_inv s"
  shows "sk_shortConnectionIDs s = dom (sk_receiveConnections s)" "0 \<notin> sk_shortConnectionIDs s"
    "sk_receiveConnections s l = Some r \<Longrightarrow> r < length (sk_store s)"
    "sk_receiveConnections s l = Some r \<Longrightarrow> c_localID (conn_at s r) = l"
    "sk_receiveConnections s l = Some r \<Longrightarrow> sk_connections s (c_id (conn_at s r)) = Some r"
    "sk_connections s i = Some r \<Longrightarrow> r < length (sk_store s)"
    "sk_connections s i = Some r \<Longrightarrow> c_id (conn_at s r) = i"
    "sk_connections s i = Some r \<Longrightarrow> sk_receiveConnections s (c_localID (conn_at s r)) = Some r"
    "r < length (sk_store s) \<Longrightarrow> conn_inv UNIV (conn_at s r)"
  using assms by (auto simp: sock_inv_def conn_at_def)

lemma new_Socket_inv: "sock_inv new_Socket"
  by (simp add: sock_inv_def new_Socket_def)

text \<open>An update of a connection that keeps its identifiers.\<close>

lemma conn_at_set_conn: "conn_at (set_conn r c s) r' = (if r' = r \<and> r < length (sk_store s) then c else conn_at s r')"
  by (cases "r < length (sk_store s)") (auto simp: conn_at_def set_conn_def list_update_beyond)

lemma set_conn_inv:
  assumes "sock_inv s" and "conn_inv UNIV c" and "c_id c = c_id (conn_at s r)" and "c_localID c = c_localID (conn_at s r)"
  shows "sock_inv (set_conn r c s)"
proof -
  have ids: "c_id (conn_at (set_conn r c s) r') = c_id (conn_at s r')" "c_localID (conn_at (set_conn r c s) r') = c_localID (conn_at s r')" for r'
    using assms(3,4) by (simp_all add: conn_at_set_conn)
  have "\<forall>x \<in> set (sk_store (set_conn r c s)). conn_inv UNIV x"
    using assms(1,2) set_update_subset_insert [of "sk_store s" r c] by (auto simp: set_conn_def sock_inv_def)
  then show ?thesis using assms(1) unfolding sock_inv_def ids by (auto simp: set_conn_def)
qed

lemma step0_inv:
  assumes "sock_inv s" and "r < length (sk_store s)" and "conn_step0 UNIV (conn_at s r) c"
  shows "sock_inv (set_conn r c s)"
  using assms by (intro set_conn_inv) (simp_all add: conn_step0_def)

lemma sock_inv_user [simp]:
  "sock_inv (s\<lparr>sk_out := x1\<rparr>) = sock_inv s" "sock_inv (s\<lparr>sk_userDataDisposed := x2\<rparr>) = sock_inv s"
  "sock_inv (s\<lparr>sk_userData := x3\<rparr>) = sock_inv s" "sock_inv (s\<lparr>sk_shouldAccept := x4\<rparr>) = sock_inv s"
  "sock_inv (s\<lparr>sk_acceptHandler := x5\<rparr>) = sock_inv s" "sock_inv (s\<lparr>sk_closeHandler := x6\<rparr>) = sock_inv s"
  by (simp_all add: sock_inv_def conn_at_def)

lemma sk_listen_inv: "sock_inv s \<Longrightarrow> sock_inv (sk_listen ud sa ah ch s)"
  by (simp add: sk_listen_def)

lemma sk_closeUser_inv: "sock_inv s \<Longrightarrow> sock_inv (sk_closeUser s)"
  by (simp add: sk_closeUser_def Let_def)

text \<open>A new connection: its short identifier has just been acquired, its long identifier is not in use.\<close>

lemma add_conn_inv:
  assumes "sock_inv s" and "acquireShortConnectionID start s = Some (l, s1)" and "alloc_conn c s1 = (r, s2)"
    and "conn_inv UNIV c" and "c_localID c = l" and "sk_connections s (c_id c) = None"
  shows "sock_inv (sk_insert r s2)" "conn_at (sk_insert r s2) r = c" "r < length (sk_store (sk_insert r s2))"
    "sk_connections (sk_insert r s2) (c_id c) = Some r" "sk_receiveConnections (sk_insert r s2) l = Some r"
proof -
  note a = acquire_cases [OF assms(2)]
  have r1: "r = length (sk_store s)" and s2: "s2 = s\<lparr>sk_shortConnectionIDs := insert l (sk_shortConnectionIDs s), sk_store := sk_store s @ [c]\<rparr>"
    using assms(3) a(3) by (auto simp: alloc_conn_def)
  then have r: "r = length (sk_store s)" "sk_store (sk_insert r s2) = sk_store s @ [c]" by (simp_all add: sk_insert_def)
  have at: "conn_at (sk_insert r s2) r = c" "r' < length (sk_store s) \<Longrightarrow> conn_at (sk_insert r s2) r' = conn_at s r'"
    "conn_at s2 r = c" for r'
    using r1 by (simp_all add: conn_at_def nth_append s2 sk_insert_def)
  have m: "sk_connections (sk_insert r s2) = (sk_connections s)(c_id c \<mapsto> r)"
    "sk_receiveConnections (sk_insert r s2) = (sk_receiveConnections s)(l \<mapsto> r)"
    "sk_shortConnectionIDs (sk_insert r s2) = insert l (sk_shortConnectionIDs s)"
    using assms(5) at(3) by (simp_all add: sk_insert_def) (simp_all add: s2)
  show "conn_at (sk_insert r s2) r = c" "r < length (sk_store (sk_insert r s2))"
    "sk_connections (sk_insert r s2) (c_id c) = Some r" "sk_receiveConnections (sk_insert r s2) l = Some r"
    using at(1) r m by simp_all
  note inv = sock_invD [OF assms(1)]
  have l: "l \<notin> dom (sk_receiveConnections s)" using a(2) inv(1) by simp
  have rc: "r' < length (sk_store s @ [c]) \<and> c_localID (conn_at (sk_insert r s2) r') = l'
      \<and> sk_connections (sk_insert r s2) (c_id (conn_at (sk_insert r s2) r')) = Some r'"
    if "sk_receiveConnections (sk_insert r s2) l' = Some r'" for l' r'
  proof (cases "l' = l")
    case True
    with that have "r' = r" unfolding m by simp
    then show ?thesis using at(1) assms(5) True r1 unfolding m by simp
  next
    case False
    with that have "sk_receiveConnections s l' = Some r'" unfolding m by simp
    note v = inv(3-5) [OF this]
    moreover from v(3) assms(6) have "c_id (conn_at s r') \<noteq> c_id c" by auto
    ultimately show ?thesis using at(2) [OF v(1)] unfolding m by simp
  qed
  have c: "r' < length (sk_store s @ [c]) \<and> c_id (conn_at (sk_insert r s2) r') = i'
      \<and> sk_receiveConnections (sk_insert r s2) (c_localID (conn_at (sk_insert r s2) r')) = Some r'"
    if "sk_connections (sk_insert r s2) i' = Some r'" for i' r'
  proof (cases "i' = c_id c")
    case True
    with that have "r' = r" unfolding m by simp
    then show ?thesis using at(1) assms(5) True r1 unfolding m by simp
  next
    case False
    with that have "sk_connections s i' = Some r'" unfolding m by simp
    note v = inv(6-8) [OF this]
    moreover from v(3) l have "c_localID (conn_at s r') \<noteq> l" by auto
    ultimately show ?thesis using at(2) [OF v(1)] unfolding m by simp
  qed
  show "sock_inv (sk_insert r s2)"
  proof -
    have "\<forall>x \<in> set (sk_store s @ [c]). conn_inv UNIV x" using assms(1,4) by (auto simp: sock_inv_def)
    moreover have "sk_shortConnectionIDs (sk_insert r s2) = dom (sk_receiveConnections (sk_insert r s2))"
      "0 \<notin> sk_shortConnectionIDs (sk_insert r s2)" unfolding m using inv(1,2) a(1) by auto
    ultimately show ?thesis using rc c unfolding sock_inv_def r(2) by blast
  qed
qed

lemma sk_erase_inv:
  assumes "sock_inv s" and "sk_receiveConnections s (c_localID (conn_at s r)) = Some r"
  shows "sock_inv (sk_erase r s)"
proof -
  note inv = sock_invD [OF assms(1)]
  let ?l = "c_localID (conn_at s r)" and ?i = "c_id (conn_at s r)"
  have m: "sk_receiveConnections (sk_erase r s) = (sk_receiveConnections s)(?l := None)"
    "sk_connections (sk_erase r s) = (sk_connections s)(?i := None)" "sk_store (sk_erase r s) = sk_store s"
    "sk_shortConnectionIDs (sk_erase r s) = sk_shortConnectionIDs s - {?l}"
    by (auto simp: sk_erase_def releaseShortConnectionID_def)
  have at: "conn_at (sk_erase r s) r' = conn_at s r'" for r' by (simp add: conn_at_def m)
  have i: "sk_connections s ?i = Some r" using inv(5) [OF assms(2)] .
  have rc: "r' < length (sk_store s) \<and> c_localID (conn_at s r') = l' \<and> ((sk_connections s)(?i := None)) (c_id (conn_at s r')) = Some r'"
    if "((sk_receiveConnections s)(?l := None)) l' = Some r'" for l' r'
  proof -
    from that have r': "sk_receiveConnections s l' = Some r'" "l' \<noteq> ?l" by (cases "l' = ?l"; simp)+
    have "c_id (conn_at s r') \<noteq> ?i"
    proof
      assume "c_id (conn_at s r') = ?i"
      with inv(5) [OF r'(1)] i have "r' = r" by (metis option.inject)
      with inv(4) [OF r'(1)] r'(2) show False by simp
    qed
    then show ?thesis using inv(3-5) [OF r'(1)] by simp
  qed
  have c: "r' < length (sk_store s) \<and> c_id (conn_at s r') = i' \<and> ((sk_receiveConnections s)(?l := None)) (c_localID (conn_at s r')) = Some r'"
    if "((sk_connections s)(?i := None)) i' = Some r'" for i' r'
  proof -
    from that have r': "sk_connections s i' = Some r'" "i' \<noteq> ?i" by (cases "i' = ?i"; simp)+
    have "c_localID (conn_at s r') \<noteq> ?l"
    proof
      assume "c_localID (conn_at s r') = ?l"
      with inv(8) [OF r'(1)] assms(2) have "r' = r" by (metis option.inject)
      with inv(7) [OF r'(1)] r'(2) show False by simp
    qed
    then show ?thesis using inv(6-8) [OF r'(1)] by simp
  qed
  have "sk_shortConnectionIDs s - {?l} = dom ((sk_receiveConnections s)(?l := None))" "0 \<notin> sk_shortConnectionIDs s - {?l}"
    using inv(2) by (simp_all add: inv(1))
  moreover have "\<forall>c \<in> set (sk_store s). conn_inv UNIV c" using assms(1) by (simp add: sock_inv_def)
  ultimately show ?thesis using rc c unfolding sock_inv_def m at by blast
qed

section \<open>Every operation keeps the invariant\<close>

lemma live_ref:
  assumes "sock_inv s" and "sk_receiveConnections s (c_localID (conn_at s r)) = Some r"
  shows "r < length (sk_store s)" "conn_inv UNIV (conn_at s r)"
  using sock_invD(3) [OF assms] sock_invD(9) [OF assms(1)] by simp_all

lemma sk_finish_inv:
  assumes "sock_inv s" and "sk_receiveConnections s (c_localID (conn_at s r)) = Some r"
  shows "sock_inv (sk_finish r s)"
proof -
  note live = live_ref [OF assms]
  have step: "conn_step0 UNIV (conn_at s r) (finish (conn_at s r))"
    by (rule conn_step_weak [OF finish_step [OF live(2)]])
  have "sock_inv (set_conn r (finish (conn_at s r)) s)" by (rule step0_inv [OF assms(1) live(1) step])
  moreover have "c_localID (finish (conn_at s r)) = c_localID (conn_at s r)" by (simp add: finish_def)
  ultimately show ?thesis using assms(2) live(1) unfolding sk_finish_def
    by (intro sk_erase_inv) (simp_all add: conn_at_set_conn, simp add: set_conn_def)
qed

lemma set_conn_tables [simp]:
  "sk_receiveConnections (set_conn r c s) = sk_receiveConnections s" "sk_connections (set_conn r c s) = sk_connections s"
  "length (sk_store (set_conn r c s)) = length (sk_store s)"
  by (simp_all add: set_conn_def)

text \<open>Opening a connection that has just been put in the tables: it stays, or it is finished at once.\<close>

lemma open_new_inv:
  assumes "sock_inv s" and "conn_at s r = c" and "sk_receiveConnections s (c_localID c) = Some r"
    and "conn_open now status c = (st, c1)"
  shows "sock_inv (sk_finish r (set_conn r c1 s))" "conn_step UNIV c c1" "r < length (sk_store s)"
proof -
  show r: "r < length (sk_store s)" using live_ref(1) [OF assms(1), of r] assms(2,3) by simp
  have "conn_inv UNIV c" using live_ref(2) [OF assms(1), of r] assms(2,3) by simp
  then show step: "conn_step UNIV c c1" using conn_open_step [of UNIV c now status] assms(4) by simp
  have "sock_inv (set_conn r c1 s)" using assms(2) conn_step_weak [OF step] by (intro step0_inv [OF assms(1) r]) simp
  moreover have "c_localID c1 = c_localID c" using step by (simp add: conn_step_def conn_step0_def)
  ultimately show "sock_inv (sk_finish r (set_conn r c1 s))"
    using assms(3) r by (intro sk_finish_inv) (simp_all add: conn_at_set_conn)
qed

lemma sk_connect_inv:
  assumes "sock_inv s" and "length longID = 16" and "sk_connections s longID = None"
    and "sk_connect env now longID a opts ud rh ch s = Some (found, s')"
  shows "sock_inv s'"
proof -
  obtain l s1 where a: "acquireShortConnectionID (env_random env) s = Some (l, s1)"
    using assms(4) by (auto simp: sk_connect_def split: Option.bind_splits)
  define c where "c = openUser opts ud rh ch (new_Connection (env_options env) longID a l)"
  obtain r s2 where al: "alloc_conn c s1 = (r, s2)" by fastforce
  obtain st c1 where op: "conn_open now (env_open env) c = (st, c1)" by fastforce
  have c: "c = opened_connection (env_options env) longID a l opts ud rh ch" by (simp add: c_def opened_connection_def)
  have ids: "c_localID c = l" "c_id c = longID" by (simp_all add: c opened_connection_fields)
  have "conn_inv UNIV c" unfolding c by (rule opened_connection_inv [OF assms(2)])
  note add = add_conn_inv [OF assms(1) a al this ids(1), unfolded ids(2), OF assms(3)]
  have live: "sk_receiveConnections (sk_insert r s2) (c_localID c) = Some r" using add(5) ids(1) by simp
  note new = open_new_inv [OF add(1,2) live op]
  have "conn_step0 UNIV c (initiate now c1)"
    by (rule conn_step0_then [OF conn_step_weak [OF new(2)] initiate_step]) simp_all
  then have "sock_inv (set_conn r (initiate now c1) (sk_insert r s2))"
    using add(2) by (intro step0_inv [OF add(1,3)]) simp
  with new(1) show ?thesis using assms(4)
    by (auto simp: sk_connect_def a c_def [symmetric] al op Let_def split: if_splits)
qed

text \<open>What the socket relies on of the accept callback: it uses the connection through its operations.\<close>

definition env_ok :: "Env \<Rightarrow> bool" where
  "env_ok env \<longleftrightarrow> (\<forall>ud c. conn_inv UNIV c \<and> \<not> c_closed c \<longrightarrow> conn_inv UNIV (snd (env_accept env ud c))
     \<and> c_id (snd (env_accept env ud c)) = c_id c \<and> c_localID (snd (env_accept env ud c)) = c_localID c)"

lemma generateConnection_inv:
  assumes "sock_inv s" and "env_ok env" and "length (lu_longID lookup) = 16" and "sk_connections s (lu_longID lookup) = None"
    and "generateConnection env now lookup p from s = Some (found, s')"
  shows "sock_inv s' \<and> (\<forall>r. found = Some r \<longrightarrow> r < length (sk_store s'))"
proof -
  define s0 where "s0 = (if sk_shouldAccept s then s\<lparr>sk_out := sk_out s @ [SkShouldAccept (sk_userData s) from]\<rparr> else s)"
  have s0: "sock_inv s0" "sk_connections s0 = sk_connections s" using assms(1) by (simp_all add: s0_def)
  show ?thesis
  proof (cases "isFull s \<or> pk_type p \<noteq> H0 \<or> lu_longID lookup = NullLongConnectionID \<or> \<not> sk_acceptHandler s
      \<or> sk_shouldAccept s \<and> env_shouldAccept env (sk_userData s) from \<noteq> MRUDP_OK")
    case True
    then show ?thesis using assms(1,5) s0(1) by (auto simp: generateConnection_def s0_def Let_def split: if_splits)
  next
    case False
    then obtain l s1 where a: "acquireShortConnectionID (env_random env) s0 = Some (l, s1)"
      using assms(5) by (auto simp: generateConnection_def s0_def [symmetric] Let_def split: Option.bind_splits)
    define c where "c = new_Connection (env_options env) (lu_longID lookup) from l"
    obtain r s2 where al: "alloc_conn c s1 = (r, s2)" by fastforce
    obtain st c1 where op: "conn_open now (env_open env) c = (st, c1)" by fastforce
    obtain ac c2 where acc: "env_accept env (sk_userData s) c1 = (ac, c2)" by fastforce
    have ids: "c_localID c = l" "c_id c = lu_longID lookup" by (simp_all add: c_def new_Connection_def)
    have "conn_inv UNIV c" unfolding c_def by (rule new_Connection_inv [OF assms(3)])
    note add = add_conn_inv [OF s0(1) a al this ids(1), unfolded ids(2) s0(2), OF assms(4)]
    have live: "sk_receiveConnections (sk_insert r s2) (c_localID c) = Some r" using add(5) ids(1) by simp
    note new = open_new_inv [OF add(1,2) live op]
    let ?s = "sk_insert r s2"
    have c1: "conn_inv UNIV c1" "c_id c1 = c_id c" "c_localID c1 = c_localID c"
      using new(2) by (auto simp: conn_step_def conn_step0_def)
    moreover have "\<not> c_closed c1" using op
      by (auto simp: c_def conn_open_def new_Connection_def probe_on_def registerTimeout_def recalculateProbeTimeout_def emit_def Let_def split: if_splits)
    ultimately have c2: "conn_inv UNIV c2" "c_id c2 = c_id c" "c_localID c2 = c_localID c"
      using assms(2) acc unfolding env_ok_def by (metis snd_conv)+
    have inv5: "sock_inv (set_conn r c2 ?s)" using add(2) c2 by (intro set_conn_inv [OF add(1)]) simp_all
    have cl: "conn_step0 UNIV c2 (close_event now MRUDP_EVENT_NOT_ACCEPTED c2)"
      by (rule conn_step_weak [OF close_event_step [OF c2(1)]])
    have inv6: "sock_inv (set_conn r (close_event now MRUDP_EVENT_NOT_ACCEPTED c2) (set_conn r c2 ?s))"
      using cl new(3) by (intro step0_inv [OF inv5]) (simp_all add: conn_at_set_conn)
    have out: "set_conn r x (y\<lparr>sk_out := es\<rparr>) = (set_conn r x y)\<lparr>sk_out := es\<rparr>" for x y es by (simp add: set_conn_def)
    from False have "generateConnection env now lookup p from s =
        (if st \<noteq> MRUDP_OK then Some (None, sk_finish r (set_conn r c1 ?s))
         else if ac \<noteq> MRUDP_OK
         then Some (None, set_conn r (close_event now MRUDP_EVENT_NOT_ACCEPTED c2)
                ((set_conn r c2 ?s)\<lparr>sk_out := sk_out ?s @ [SkAccepted (sk_userData s) r]\<rparr>))
         else Some (Some r, (set_conn r c2 ?s)\<lparr>sk_out := sk_out ?s @ [SkAccepted (sk_userData s) r]\<rparr>))"
      by (auto simp: generateConnection_def s0_def [symmetric] a c_def [symmetric] al op acc Let_def)
    with assms(5) new(1,3) inv5 inv6 show ?thesis by (auto simp: out split: if_splits)
  qed
qed

lemma getLookUp_props:
  assumes "getLookUp p = (lookup, p1)" and "wf_packet p"
  shows "length (lu_longID lookup) = 16" "wf_packet p1" "pk_type p1 = pk_type p"
  using assms by (auto simp: getLookUp_def Let_def NullLongConnectionID_def popData_type popData_wf
      popData_length split: if_splits option.splits)

lemma sk_receive_inv:
  assumes "sock_inv s" and "env_ok env" and "wf_packet p" and "length from = address_size"
    and "sk_receive z u env now p from s = Some s'"
  shows "sock_inv s'"
proof -
  obtain lookup p1 where lu: "getLookUp p = (lookup, p1)" by fastforce
  note g = getLookUp_props [OF lu assms(3)]
  obtain found s1 where f: "findOrGenerateConnection env now lookup p1 from s = Some (found, s1)"
    using assms(5) lu by (auto simp: sk_receive_def split: Option.bind_splits)
  have s1: "sock_inv s1 \<and> (\<forall>r. found = Some r \<longrightarrow> r < length (sk_store s1))"
  proof (cases "findConnection lookup s")
    case None
    with f have gen: "generateConnection env now lookup p1 from s = Some (found, s1)" by (simp add: findOrGenerateConnection_def)
    show ?thesis
    proof (cases "lu_longID lookup = NullLongConnectionID")
      case True
      with gen assms(1) show ?thesis by (auto simp: generateConnection_def split: if_splits)
    next
      case False
      with None have "sk_connections s (lu_longID lookup) = None" by (simp add: findConnection_def)
      from generateConnection_inv [OF assms(1,2) g(1) this gen] show ?thesis .
    qed
  next
    case (Some r)
    with f have "found = Some r" "s1 = s" by (simp_all add: findOrGenerateConnection_def)
    moreover have "r < length (sk_store s)"
      using Some sock_invD(3,6) [OF assms(1)] by (auto simp: findConnection_def split: if_splits)
    ultimately show ?thesis using assms(1) by simp
  qed
  show ?thesis
  proof (cases found)
    case (Some r)
    then have r: "r < length (sk_store s1)" using s1 by simp
    have "conn_step0 UNIV (conn_at s1 r) (conn_receive z u now p1 from (conn_at s1 r))"
      using s1 r by (intro conn_receive_step [OF _ g(2) assms(4)]) (simp_all add: sock_invD(9))
    then have "sock_inv (set_conn r (conn_receive z u now p1 from (conn_at s1 r)) s1)" using s1 r by (intro step0_inv) simp_all
    then show ?thesis using assms(5) lu f Some by (simp add: sk_receive_def)
  qed (use assms(5) lu f s1 in \<open>simp add: sk_receive_def\<close>)
qed

section \<open>Runs\<close>

text \<open>
  The socket's operations and the handlers of its connections, in any order. The long identifier a
  connect draws is assumed not to be in use; a connection is finished while it is in the tables
  (its finish timeout is set once, when it closes).
\<close>

inductive sock_trans :: "compressor \<Rightarrow> decompressor \<Rightarrow> Socket \<Rightarrow> Socket \<Rightarrow> bool" for z u where
  sk_received: "env_ok env \<Longrightarrow> wf_packet p \<Longrightarrow> length from = address_size \<Longrightarrow>
     sk_receive z u env now p from s = Some s' \<Longrightarrow> sock_trans z u s s'"
| sk_connected: "length longID = 16 \<Longrightarrow> sk_connections s longID = None \<Longrightarrow>
     sk_connect env now longID a opts ud rh ch s = Some (found, s') \<Longrightarrow> sock_trans z u s s'"
| sk_listened: "sock_trans z u s (sk_listen ud sa ah ch s)"
| sk_closed: "sock_trans z u s (sk_closeUser s)"
| sk_handled: "r < length (sk_store s) \<Longrightarrow> conn_trans z u (conn_at s r) c \<Longrightarrow> sock_trans z u s (set_conn r c s)"
| sk_finished: "sk_receiveConnections s (c_localID (conn_at s r)) = Some r \<Longrightarrow> sock_trans z u s (sk_finish r s)"

lemma sock_trans_inv:
  assumes "sock_inv s" and "sock_trans z u s s'"
  shows "sock_inv s'"
  using assms(2)
proof cases
  case (sk_handled r c)
  with conn_trans_step [OF sk_handled(3) sock_invD(9) [OF assms(1) sk_handled(2)]] show ?thesis
    using step0_inv [OF assms(1)] by simp
qed (use assms(1) in \<open>auto intro: sk_receive_inv sk_connect_inv sk_listen_inv sk_closeUser_inv sk_finish_inv\<close>)

interpretation sock: invariant_system "sock_trans z u" sock_inv for z u
  by unfold_locales (rule sock_trans_inv)

text \<open>
  C27: In every state a socket reaches, the identifiers in use are exactly those of the connections in its receive table, none
  is zero, both tables name the same connections under the identifiers those connections have, and
  every connection is well formed.
\<close>

theorem socket_tables_consistent:
  assumes "(sock_trans z u)\<^sup>*\<^sup>* new_Socket s"
  shows "sock_inv s"
  by (rule sock.inv_run [OF assms new_Socket_inv])

definition example_env :: Env where
  "example_env = \<lparr>env_random = 7, env_options = mrudp_default_connection_options, env_open = MRUDP_OK,
     env_shouldAccept = (\<lambda>_ _. MRUDP_OK), env_accept = (\<lambda>ud c. (MRUDP_OK, openUser None ud True True c))\<rparr>"

theorem socket_tables_consistent_witness:
  "\<exists>r s. sk_connect example_env 0 (replicate 16 1) (replicate 28 2) None 5 True True new_Socket = Some (Some r, s) \<and> sock_inv s"
proof -
  let ?connect = "sk_connect example_env 0 (replicate 16 1) (replicate 28 2) None 5 True True new_Socket"
  have "acquire_loop {} (7 :: ShortConnectionID) = Some 7" by (subst acquire_loop.simps) simp
  then obtain r s where s: "?connect = Some (Some r, s)"
    by (simp add: sk_connect_def acquireShortConnectionID_def new_Socket_def example_env_def conn_open_def alloc_conn_def Let_def)
  have "sock_trans (\<lambda>_ _ _. None) (\<lambda>_ _. []) new_Socket s"
    by (rule sock_trans.sk_connected [OF _ _ s]) (simp_all add: new_Socket_def)
  then have "(sock_trans (\<lambda>_ _ _. None) (\<lambda>_ _. []))\<^sup>*\<^sup>* new_Socket s" by (rule r_into_rtranclp)
  from socket_tables_consistent [OF this] s show ?thesis by blast
qed

section \<open>Demultiplexing\<close>



end
