(* ===== verification/Sender_Behaviour.thy ===== *)
theory Sender_Behaviour
  imports Connection_Events
begin

text \<open>
  What the sender of a connection promises: the send window, the delayed acks, the result of a
  send, and what happens to a packet that is never acked.
\<close>

section \<open>The send window\<close>

lemma length_om_emplace: "length (om_emplace k v m) \<le> Suc (length m)"
  by (induction k v m rule: om_emplace.induct) auto

lemma length_om_assign: "om_inv m \<Longrightarrow> om_find m k = Some w \<Longrightarrow> length (om_assign k v m) = length m"
  by (simp add: om_size om.om_invs om.dom_assign insert_absorb domI)

lemma getNextRetry_find:
  assumes "getNextRetry r = Some (i, retry)" and "om_inv (re_window r)"
  shows "om_find (re_window r) i = Some retry"
  using assms by (auto simp: getNextRetry_def om_find_def split: list.splits option.splits)

lemma getNextRetry_set_retry:
  assumes "getNextRetry r = Some (i, retry)" and "om_inv (re_window r)"
  shows "getNextRetry (set_retry i retry' r) = Some (i, retry')"
proof (cases "om_begin (re_priority r)")
  case None
  then obtain m where "re_window r = (i, retry) # m"
    using assms(1) by (auto simp: getNextRetry_def split: list.splits)
  then show ?thesis using None by (simp add: getNextRetry_def set_retry_def)
next
  case (Some j)
  then have j: "j = i" using assms(1) by (auto simp: getNextRetry_def split: list.splits)
  have "om_find (om_assign i retry' (re_window r)) i = Some retry'" using assms(2) by (simp add: om.om_finds)
  moreover from this have "om_assign i retry' (re_window r) \<noteq> []" by (auto simp: om_find_def)
  ultimately show ?thesis using Some j by (auto simp: getNextRetry_def set_retry_def split: list.splits)
qed

lemma numUnacked_recalculate: "om_inv (re_window r) \<Longrightarrow> numUnacked (snd (recalculateRetryTimeout rtt r)) = numUnacked r"
  using getNextRetry_find [of r]
  by (auto simp: recalculateRetryTimeout_def numUnacked_def set_retry_def length_om_assign Let_def split: option.splits)

lemma numUnacked_insert:
  assumes "om_inv (re_window r)"
  shows "numUnacked (snd (re_insert rtt paths now priority r)) \<le> Suc (numUnacked r)"
proof -
  have "numUnacked (r\<lparr>re_window := om_emplace i x (re_window r), re_priority := p\<rparr>) \<le> Suc (numUnacked r)"
    "numUnacked (r\<lparr>re_window := om_emplace i x (re_window r)\<rparr>) \<le> Suc (numUnacked r)" for i x p
    using length_om_emplace [of i x "re_window r"] by (simp_all add: numUnacked_def)
  then show ?thesis using assms
    by (simp add: re_insert_def Let_def numUnacked_recalculate om.om_invs)
qed

lemma sendReliably_unacked:
  assumes "om_inv (re_window (sn_retrier (c_sender c)))"
  shows "numUnacked (sn_retrier (c_sender (sendReliably now p a c))) \<le> Suc (numUnacked (sn_retrier (c_sender c)))"
  using assms by (simp add: sendReliably_def sendReliablyMultipath_sender numUnacked_insert)

lemma conn_inv_window: "conn_inv K c \<Longrightarrow> om_inv (re_window (sn_retrier (c_sender c)))"
  by (simp add: conn_inv_def retries_ok_def)

lemma processReliable_loop_window:
  assumes "conn_inv K c"
  shows "numUnacked (sn_retrier (c_sender (processReliable_loop z now c)))
      \<le> max (numUnacked (sn_retrier (c_sender c))) (sn_windowSize (c_sender c))
    \<and> (sn_windowSize (c_sender c) \<le> numUnacked (sn_retrier (c_sender (processReliable_loop z now c)))
       \<or> fst (sq_dequeue z (reliable_level c) (sn_dataQueue (c_sender (processReliable_loop z now c)))) = None)"
  using assms
proof (induction z now c rule: processReliable_loop.induct)
  case (1 z now c)
  show ?case
  proof (cases "numUnacked (sn_retrier (c_sender c)) < sn_windowSize (c_sender c)")
    case False
    then show ?thesis by (simp add: processReliable_loop.simps)
  next
    case True
    obtain r q where d: "sq_dequeue z (reliable_level c) (sn_dataQueue (c_sender c)) = (r, q)" by fastforce
    note dq = sq_dequeue_extends [OF conn_invD(1) [OF "1.prems"] d]
    then have q: "conn_step K c (set_dataQueue q c)" using "1.prems" by (intro set_dataQueue_step) blast+
    show ?thesis
    proof (cases r)
      case None
      have "fst (sq_dequeue z (reliable_level c) q) = None"
        using d None by (auto simp: sq_dequeue_def Let_def sq_compress_def split: if_splits list.splits)
      with None d True show ?thesis by (simp add: processReliable_loop.simps set_dataQueue_def)
    next
      case (Some packet)
      define c1 where "c1 = sendReliably now (set_type DATA_RELIABLE packet) None (set_dataQueue q c)"
      have eq: "processReliable_loop z now c = processReliable_loop z now c1"
        using True d Some by (subst processReliable_loop.simps) (simp add: c1_def)
      have good: "good_packet packet" using dq Some by blast
      have "conn_step K c c1" unfolding c1_def
        using good_packet_storable(1) [OF good] by (intro conn_step_then [OF q sendReliably_step])
      then have "conn_inv K c1" by blast
      moreover have "numUnacked (sn_retrier (c_sender c1)) \<le> Suc (numUnacked (sn_retrier (c_sender c)))"
        unfolding c1_def using sendReliably_unacked [of "set_dataQueue q c"] conn_inv_window [OF conn_stepD [OF q]]
        by (simp add: set_dataQueue_def)
      moreover have "sn_windowSize (c_sender c1) = sn_windowSize (c_sender c)" "reliable_level c1 = reliable_level c"
        using \<open>conn_step K c c1\<close>
        by (simp_all add: c1_def sendReliably_def sendReliablyMultipath_sender set_dataQueue_def conn_step_def fixed_def)
      ultimately show ?thesis using "1.IH" [OF True d [symmetric] Some] True d Some
        unfolding eq by (simp add: c1_def)
    qed
  qed
qed

text \<open>
  C32: Processing the reliable queue never lets more packets wait for an ack than the send window allows, and
  it does not stop short: when the connection may send it ends with the window full or nothing left
  to send.
\<close>

theorem send_window_respected:
  assumes "conn_inv K c" and "c' = processReliableDataQueue z now c"
  shows "numUnacked (sn_retrier (c_sender c')) \<le> max (numUnacked (sn_retrier (c_sender c))) (sn_windowSize (c_sender c))
    \<and> (isReadyToSend c \<longrightarrow> sn_windowSize (c_sender c) \<le> numUnacked (sn_retrier (c_sender c'))
         \<or> fst (sq_dequeue z (reliable_level c) (sn_dataQueue (c_sender c'))) = None)"
  using processReliable_loop_window [OF assms(1), of z now] assms(2) by (simp add: processReliableDataQueue_def)

text \<open>A connection that has completed its handshake, with four packets queued and a window of three.\<close>

definition example_open :: Connection where
  "example_open = (opened_connection mrudp_default_connection_options (replicate 16 1) empty_address 9 None 7 True True)
     \<lparr>c_remoteID := 5, c_sender := new_Sender\<lparr>sn_status := OPEN, sn_dataQueue :=
        fold (\<lambda>d q. sq_enqueue q DATA d MRUDP_COALESCE_NONE) [[1], [2], [3], [4]] new_SendQueue\<rparr>\<rparr>"

lemma example_queue: "sq_inv (fold (\<lambda>d q. sq_enqueue q DATA d MRUDP_COALESCE_NONE) ds q)"
  if "sq_inv q" "\<forall>d \<in> set ds. length d = 1" for q
  using that
proof (induction ds arbitrary: q)
  case (Cons d ds)
  have "sq_inv (sq_enqueue q DATA d MRUDP_COALESCE_NONE)"
    using Cons.prems sq_enqueue_extends [of q d MRUDP_COALESCE_NONE DATA] by (simp add: admissible_def)
  with Cons show ?case by simp
qed simp

lemma example_open_inv: "conn_inv UNIV example_open"
proof -
  have "sq_inv (fold (\<lambda>d q. sq_enqueue q DATA d MRUDP_COALESCE_NONE) [[1], [2], [3], [4]] new_SendQueue)"
    by (rule example_queue) (auto simp: new_SendQueue_inv)
  moreover have "conn_inv UNIV (opened_connection mrudp_default_connection_options (replicate 16 1) empty_address 9 None 7 True True)"
    by (rule opened_connection_inv) simp
  ultimately show ?thesis unfolding example_open_def
    by (simp add: conn_inv_def user_inv_def new_Sender_def new_SendQueue_inv retries_ok_def new_Retrier_def om_inv_def)
qed

theorem send_window_respected_witness:
  "numUnacked (sn_retrier (c_sender (processReliableDataQueue (\<lambda>_ _ _. None) 0 example_open))) \<le> 3"
proof -
  have "sn_retrier (c_sender example_open) = new_Retrier" "sn_windowSize (c_sender example_open) = 3"
    by (simp_all add: example_open_def new_Sender_def)
  then show ?thesis using send_window_respected [OF example_open_inv refl, of "\<lambda>_ _ _. None" 0]
    by (simp add: numUnacked_def new_Retrier_def)
qed

section \<open>Delayed acks\<close>

lemma enqueue_acks:
  assumes "sq_inv q" and "sq_status q = IS_OPEN" and "sq_buffer q = []"
    and "q' = fold (\<lambda>(i, w) q. sq_enqueue q ACK_FRAME (enc_ack i (delayed_ms now w)) MRUDP_COALESCE_PACKET) acks q"
  shows "sq_inv q' \<and> sq_status q' = IS_OPEN \<and> sq_buffer q' = [] \<and>
    map f_type (sq_frames q') = map f_type (sq_frames q) @ replicate (length acks) ACK_FRAME \<and>
    map f_data (sq_frames q') = map f_data (sq_frames q) @ map (\<lambda>(i, w). enc_ack i (delayed_ms now w)) acks"
  using assms
proof (induction acks arbitrary: q)
  case (Cons a acks)
  obtain i w where a: "a = (i, w)" by (cases a)
  define q1 where "q1 = sq_enqueue q ACK_FRAME (enc_ack i (delayed_ms now w)) MRUDP_COALESCE_PACKET"
  have "admissible (enc_ack i (delayed_ms now w)) MRUDP_COALESCE_PACKET" by (simp add: admissible_def)
  then have "adds_frames q ACK_FRAME (enc_ack i (delayed_ms now w))
      [\<lparr>f_id = sq_nextID q, f_type = ACK_FRAME, f_data = enc_ack i (delayed_ms now w)\<rparr>] q1"
    using sq_enqueue_adds [OF Cons.prems(1) _ Cons.prems(2), of _ MRUDP_COALESCE_PACKET ACK_FRAME] unfolding q1_def by force
  then have "sq_inv q1" "sq_status q1 = IS_OPEN" "sq_buffer q1 = []"
    "sq_frames q1 = sq_frames q @ [\<lparr>f_id = sq_nextID q, f_type = ACK_FRAME, f_data = enc_ack i (delayed_ms now w)\<rparr>]"
    using Cons.prems(2,3) by (simp_all add: adds_frames_def)
  then show ?case using Cons.IH [of q1] Cons.prems(4) by (simp add: a q1_def)
qed simp

lemma sent_packets_append [simp]: "sent_packets (es @ fs) = sent_packets es @ sent_packets fs"
  by (simp add: sent_packets_def)

lemma sent_packets_probe_on [simp]: "sent_packets (c_out (probe_on now c)) = sent_packets (c_out c)"
  by (simp add: probe_on_def registerTimeout_def recalculateProbeTimeout_def Let_def emit_def) (simp add: sent_packets_def)

lemma sent_packets_conn_send:
  assumes "c_remoteID c \<noteq> 0" and "pk_type p \<noteq> H3"
  shows "sent_packets (c_out (conn_send now p a c)) = sent_packets (c_out c) @ [set_connection (c_remoteID c) p]"
  using assms by (simp add: conn_send_def ho_onSend_def send_packet_def Let_def emit_def set_connection_def)
    (simp add: sent_packets_def)

lemma frames_of_header [simp]:
  "frames_of (set_connection r p) = frames_of p" "frames_of (set_type t p) = frames_of p"
  by (simp_all add: frames_of_def urq_onReceive_def set_connection_def set_type_def)

lemma processUnreliable_loop_sends:
  assumes "c_remoteID c \<noteq> 0" and "sq_status (sn_unreliableDataQueue (c_sender c)) = IS_OPEN"
    and "sq_buffer (sn_unreliableDataQueue (c_sender c)) = []"
  shows "sent_packets (c_out (processUnreliable_loop z now c)) = sent_packets (c_out c)
      @ map (\<lambda>p. set_connection (c_remoteID c) (set_type DATA_UNRELIABLE p)) (sq_queue (sn_unreliableDataQueue (c_sender c)))
    \<and> sq_empty (sn_unreliableDataQueue (c_sender (processUnreliable_loop z now c)))
    \<and> sn_delayedAcks (c_sender (processUnreliable_loop z now c)) = sn_delayedAcks (c_sender c)"
  using assms
proof (induction z now c rule: processUnreliable_loop.induct)
  case (1 z now c)
  let ?q = "sn_unreliableDataQueue (c_sender c)"
  show ?case
  proof (cases "sq_queue ?q")
    case Nil
    then have "sq_dequeue z (unreliable_level c) ?q = (None, ?q)" using "1.prems" by (simp add: sq_dequeue_def)
    then show ?thesis using Nil "1.prems"
      by (simp add: processUnreliable_loop.simps set_unreliableDataQueue_def sq_empty_def)
  next
    case (Cons p ps)
    then have d: "sq_dequeue z (unreliable_level c) ?q = (Some p, ?q\<lparr>sq_queue := ps\<rparr>)" using "1.prems" by (simp add: sq_dequeue_def)
    define c1 where "c1 = conn_send now (set_type DATA_UNRELIABLE p) None (set_unreliableDataQueue (?q\<lparr>sq_queue := ps\<rparr>) c)"
    have eq: "processUnreliable_loop z now c = processUnreliable_loop z now c1"
      by (subst processUnreliable_loop.simps) (simp add: d c1_def)
    have "sent_packets (c_out c1) = sent_packets (c_out c) @ [set_connection (c_remoteID c) (set_type DATA_UNRELIABLE p)]"
      using "1.prems"(1) sent_packets_conn_send [of "set_unreliableDataQueue (?q\<lparr>sq_queue := ps\<rparr>) c" "set_type DATA_UNRELIABLE p"]
      unfolding c1_def by (simp add: set_unreliableDataQueue_def)
    then show ?thesis using "1.IH" [OF d [symmetric] refl] "1.prems" Cons unfolding eq c1_def
      by (simp add: set_unreliableDataQueue_def)
  qed
qed

text \<open>
  C34: When the connection may send, processing the unreliable queue sends every frame that waits in it and then one
  ack frame for each packet whose ack was delayed, in order, each with the identifier of that
  packet; nothing is left pending.
\<close>

theorem delayed_acks_sent:
  assumes "isReadyToSend c" and "s = c_sender c" and "sq_inv (sn_unreliableDataQueue s)"
    and "sq_status (sn_unreliableDataQueue s) = IS_OPEN" and "sq_buffer (sn_unreliableDataQueue s) = []"
    and "c' = processUnreliableDataQueue z now c"
  shows "\<exists>ps. sent_packets (c_out c') = sent_packets (c_out c) @ ps
    \<and> map f_type (concat (map frames_of ps)) = map f_type (sq_frames (sn_unreliableDataQueue s)) @ replicate (length (sn_delayedAcks s)) ACK_FRAME
    \<and> map f_data (concat (map frames_of ps)) = map f_data (sq_frames (sn_unreliableDataQueue s))
         @ map (\<lambda>(i, w). enc_ack i (delayed_ms now w)) (sn_delayedAcks s)
    \<and> sn_delayedAcks (c_sender c') = [] \<and> sq_empty (sn_unreliableDataQueue (c_sender c'))"
proof -
  define q where "q = fold (\<lambda>(i, w) q. sq_enqueue q ACK_FRAME (enc_ack i (delayed_ms now w)) MRUDP_COALESCE_PACKET)
    (sn_delayedAcks s) (sn_unreliableDataQueue s)"
  note e = enqueue_acks [OF assms(3-5) q_def]
  define c1 where "c1 = queueDelayedAcks now c"
  have c1: "c_out c1 = c_out c" "c_remoteID c1 = c_remoteID c" "sn_delayedAcks (c_sender c1) = []"
    "sn_unreliableDataQueue (c_sender c1) = q"
    by (simp_all add: c1_def queueDelayedAcks_def Let_def q_def assms(2))
  have "c_remoteID c \<noteq> 0" using assms(1) by (auto simp: isReadyToSend_def canSend_def)
  with processUnreliable_loop_sends [of c1 z now] e c1
  have "sent_packets (c_out c') = sent_packets (c_out c)
      @ map (\<lambda>p. set_connection (c_remoteID c) (set_type DATA_UNRELIABLE p)) (sq_queue q)"
    "sn_delayedAcks (c_sender c') = []" "sq_empty (sn_unreliableDataQueue (c_sender c'))"
    using assms(1,6) by (simp_all add: processUnreliableDataQueue_def c1_def)
  moreover have "concat (map frames_of (map (\<lambda>p. set_connection (c_remoteID c) (set_type DATA_UNRELIABLE p)) (sq_queue q))) = sq_frames q"
    by (simp add: sq_frames_def comp_def)
  ultimately show ?thesis using e by auto
qed

theorem delayed_acks_sent_witness:
  "\<exists>ps. sent_packets (c_out (processUnreliableDataQueue (\<lambda>_ _ _. None) 5000000
        (example_open\<lparr>c_sender := (c_sender example_open)\<lparr>sn_delayedAcks := [(3, 0), (4, 1000000)]\<rparr>\<rparr>))) = ps
     \<and> map f_data (concat (map frames_of ps)) = [enc_ack 3 5, enc_ack 4 4]"
proof -
  let ?c = "example_open\<lparr>c_sender := (c_sender example_open)\<lparr>sn_delayedAcks := [(3, 0), (4, 1000000)]\<rparr>\<rparr>"
  have q: "sn_unreliableDataQueue (c_sender example_open) = new_SendQueue" by (simp add: example_open_def new_Sender_def)
  have "isReadyToSend ?c"
    by (simp add: isReadyToSend_def canSend_def example_open_def less_eq_Status_def)
  moreover have "sent_packets (c_out ?c) = []" by (simp add: example_open_def opened_connection_fields sent_packets_def)
  moreover have "delayed_ms 5000000 0 = 5" "delayed_ms 5000000 1000000 = 4" by (simp_all add: delayed_ms_def)
  ultimately show ?thesis
    using delayed_acks_sent [of ?c "c_sender ?c" "processUnreliableDataQueue (\<lambda>_ _ _. None) 5000000 ?c" "\<lambda>_ _ _. None" 5000000]
    by (auto simp: q new_SendQueue_inv) (simp_all add: new_SendQueue_def sq_frames_def)
qed

section \<open>Sending\<close>


section \<open>Failing\<close>

lemma fail_state:
  assumes "re_status (sn_retrier (c_sender c)) = IS_OPEN" and "sq_status (sn_dataQueue (c_sender c)) = IS_OPEN"
    and "c1 = sender_fail (receiver_fail (probe_close (c\<lparr>c_closeReason := event\<rparr>)))"
  shows "c_closed c1 = c_closed c" "sn_status (c_sender c1) = CLOSED" "rv_status (c_receiver c1) = CLOSED"
    "sender_empty c1 \<longleftrightarrow> sq_buffer (sn_dataQueue (c_sender c)) = []" "c_closeReason c1 = event"
    "c_userDataDisposed c1 = c_userDataDisposed c" "c_closeHandler c1 = c_closeHandler c" "c_userData c1 = c_userData c"
    "c_out c1 = c_out c"
proof -
  have "rv_status (c_receiver c) < CLOSED \<or> rv_status (c_receiver c) = CLOSED"
    by (cases "rv_status (c_receiver c)") (simp_all add: Status_order)
  then show "rv_status (c_receiver c1) = CLOSED"
    using assms(3) by (auto simp: sender_fail_def receiver_fail_def probe_close_def set_rv_status_def Let_def)
qed (use assms in \<open>simp_all add: sender_fail_def receiver_fail_def probe_close_def set_rv_status_def Let_def
  sender_empty_def re_empty_def re_close_def sq_empty_def sq_close_def\<close>)

lemma close_event_closes: "\<not> c_closed c \<Longrightarrow> c_closed (close_event now event c)"
  by (simp add: close_event_def finishWhenReady_def closeUser_closed)

lemma close_event_callback:
  assumes "\<not> c_closed c" and "\<not> c_userDataDisposed c" and "c_closeHandler c"
  shows "UserClose (c_userData c) event \<in> set (c_out (close_event now event c))"
  using assms by (simp add: close_event_def finishWhenReady_def closeUser_closed closeUser_def emit_def Let_def)

text \<open>
  C37: A connection that fails closes exactly when no data waits in the compression buffer of its reliable queue: closing
  the queue leaves that buffer, the sender then never counts as empty, and neither the close callback
  nor the removal from the socket happens.
\<close>

theorem fail_closes_iff:
  assumes "\<not> c_closed c" and "re_status (sn_retrier (c_sender c)) = IS_OPEN"
    and "sq_status (sn_dataQueue (c_sender c)) = IS_OPEN"
  shows "c_closed (fail now event c) \<longleftrightarrow> sq_buffer (sn_dataQueue (c_sender c)) = []"
  using fail_state [OF assms(2,3) refl, of event] assms(1)
  by (simp add: fail_def possiblyClose_def close_event_closes)

theorem fail_closes_iff_witness:
  "\<not> c_closed (fail 0 MRUDP_EVENT_TIMEOUT (example_open\<lparr>c_sender := new_Sender\<lparr>sn_dataQueue :=
      sq_enqueue new_SendQueue DATA [1, 2] MRUDP_COALESCE_STREAM_COMPRESSED\<rparr>\<rparr>))"
proof -
  let ?c = "example_open\<lparr>c_sender := new_Sender\<lparr>sn_dataQueue :=
      sq_enqueue new_SendQueue DATA [1, 2] MRUDP_COALESCE_STREAM_COMPRESSED\<rparr>\<rparr>"
  have "sq_buffer (sq_enqueue new_SendQueue DATA [1, 2] MRUDP_COALESCE_STREAM_COMPRESSED) \<noteq> []"
    "sq_status (sq_enqueue new_SendQueue DATA [1, 2] MRUDP_COALESCE_STREAM_COMPRESSED) = IS_OPEN"
    by (simp_all add: sq_enqueue_def coalesce_def coalesceStreamCompressed_def new_SendQueue_def)
  moreover have "\<not> c_closed ?c" by (simp add: example_open_def opened_connection_fields)
  ultimately show ?thesis
    using fail_closes_iff [of ?c 0 MRUDP_EVENT_TIMEOUT] by (simp add: new_Sender_def new_Retrier_def)
qed

section \<open>A packet that is never acked\<close>

definition retry_timeouts :: "timepoint list \<Rightarrow> Connection \<Rightarrow> Connection" where
  "retry_timeouts = fold onRetryTimeout"

text \<open>Every timeout comes after the time the retry before it was due, which is at most 2030 ms later.\<close>

fun all_late :: "timepoint \<Rightarrow> timepoint list \<Rightarrow> bool" where
  "all_late t [] \<longleftrightarrow> True"
| "all_late t (now # nows) \<longleftrightarrow> t < now \<and> all_late (now + millis 2030) nows"

lemma all_late_mono: "all_late t nows \<Longrightarrow> t' \<le> t \<Longrightarrow> all_late t' nows"
  by (cases nows) auto

text \<open>What matters of a connection for the end of its retries.\<close>

definition alive :: "PacketID \<Rightarrow> Retry \<Rightarrow> nat \<Rightarrow> Connection \<Rightarrow> bool" where
  "alive i retry limit c \<longleftrightarrow> conn_inv UNIV c \<and> \<not> c_closed c
     \<and> getNextRetry (sn_retrier (c_sender c)) = Some (i, retry)
     \<and> re_status (sn_retrier (c_sender c)) = IS_OPEN \<and> sq_status (sn_dataQueue (c_sender c)) = IS_OPEN
     \<and> sq_buffer (sn_dataQueue (c_sender c)) = []
     \<and> limit = unat (word_of_int (opt_maximum_retry_attempts (c_options c)) :: u64)"

lemma resend_paths_rest [simp]:
  "rest (fold (\<lambda>(packet, address). resend now packet address) paths c) = rest c"
  by (induction paths arbitrary: c) auto

lemmas resend_paths_frame [simp] = rest_fields [OF resend_paths_rest]

lemma retry_again:
  assumes "alive i retry limit c" and "rt_retryAt retry < now" and "rt_attempts retry < limit"
  shows "\<exists>retry'. alive i retry' limit (onRetryTimeout now c) \<and> rt_attempts retry' = Suc (rt_attempts retry)
    \<and> rt_retryAt retry' \<le> now + millis 2030 \<and> session (onRetryTimeout now c) = session c
    \<and> c_userDataDisposed (onRetryTimeout now c) = c_userDataDisposed c"
proof -
  define retry1 where "retry1 = retry\<lparr>rt_attempts := rt_attempts retry + 1, rt_sentAt := now\<rparr>"
  define c1 where "c1 = c\<lparr>c_sender := (c_sender c)\<lparr>sn_retrier := set_retry i retry1 (sn_retrier (c_sender c))\<rparr>\<rparr>"
  define c2 where "c2 = fold (\<lambda>(packet, address). resend now packet address) (rt_paths retry1) c1"
  define rtt where "rtt = rtt_onAckFailure (sn_rtt (c_sender c2))"
  define c3 where "c3 = c2\<lparr>c_sender := (c_sender c2)\<lparr>sn_rtt := rtt, sn_windowSize := window_onSample rtt\<rparr>\<rparr>"
  have nx: "getNextRetry (sn_retrier (c_sender c)) = Some (i, retry)" using assms(1) by (simp add: alive_def)
  have eq: "onRetryTimeout now c = conn_recalculateRetryTimeout c3"
    using assms nx
    by (simp add: onRetryTimeout_def Let_def alive_def attempts_exhausted_def c1_def c2_def c3_def retry1_def rtt_def)
  have om: "om_inv (re_window (sn_retrier (c_sender c)))" using assms(1) conn_inv_window by (auto simp: alive_def)
  let ?r = "set_retry i retry1 (sn_retrier (c_sender c))"
  have nx1: "getNextRetry ?r = Some (i, retry1)" by (rule getNextRetry_set_retry [OF nx om])
  have sent: "rt_sentAt retry1 = now" by (simp add: retry1_def)
  define due where "due = now + millis (toDuration (calculateRetryDuration rtt))"
  have re: "recalculateRetryTimeout rtt ?r = (Some due, set_retry i (retry1\<lparr>rt_retryAt := due\<rparr>) ?r)"
    using sent by (simp add: recalculateRetryTimeout_def nx1 due_def Let_def)
  have "om_inv (re_window ?r)" using om by (simp add: set_retry_def om.om_invs)
  then have nx2: "getNextRetry (set_retry i (retry1\<lparr>rt_retryAt := due\<rparr>) ?r) = Some (i, retry1\<lparr>rt_retryAt := due\<rparr>)"
    by (rule getNextRetry_set_retry [OF nx1])
  have s: "c_sender (onRetryTimeout now c) = (c_sender c)\<lparr>sn_retrier := set_retry i (retry1\<lparr>rt_retryAt := due\<rparr>) ?r,
      sn_rtt := rtt, sn_windowSize := window_onSample rtt\<rparr>"
    unfolding eq conn_recalculateRetryTimeout_def by (simp add: c3_def c2_def c1_def re Let_def)
  have o: "session (onRetryTimeout now c) = session c" "c_userDataDisposed (onRetryTimeout now c) = c_userDataDisposed c"
    "c_closed (onRetryTimeout now c) = c_closed c" "c_options (onRetryTimeout now c) = c_options c"
    unfolding eq conn_recalculateRetryTimeout_def by (simp_all add: session_def c3_def c2_def c1_def re Let_def)
  have "conn_inv UNIV (onRetryTimeout now c)"
    using assms(1) by (intro conn_stepD [OF onRetryTimeout_step]) (simp add: alive_def)
  then have "alive i (retry1\<lparr>rt_retryAt := due\<rparr>) limit (onRetryTimeout now c)"
    using assms(1) nx2 o unfolding alive_def by (simp add: s)
  moreover have "toDuration (calculateRetryDuration rtt) \<le> 2030"
    using retry_duration_range [of rtt] rtt_in_range by (simp add: rtt_def rtt_onAckFailure_def rtt_onSample_def)
  then have "due \<le> now + millis 2030" by (simp add: due_def millis_def)
  ultimately show ?thesis using o by (intro exI [of _ "retry1\<lparr>rt_retryAt := due\<rparr>"]) (simp add: retry1_def)
qed

lemma retry_last:
  assumes "alive i retry limit c" and "rt_retryAt retry < now" and "limit \<le> rt_attempts retry"
  shows "c_closed (onRetryTimeout now c) \<and> (\<not> c_userDataDisposed c \<and> c_closeHandler c
    \<longrightarrow> UserClose (c_userData c) MRUDP_EVENT_TIMEOUT \<in> set (c_out (onRetryTimeout now c)))"
proof -
  define c1 where "c1 = sender_fail (receiver_fail (probe_close (c\<lparr>c_closeReason := MRUDP_EVENT_TIMEOUT\<rparr>)))"
  have eq: "onRetryTimeout now c = fail now MRUDP_EVENT_TIMEOUT c"
    using assms by (simp add: onRetryTimeout_def alive_def attempts_exhausted_def)
  have opn: "re_status (sn_retrier (c_sender c)) = IS_OPEN" "sq_status (sn_dataQueue (c_sender c)) = IS_OPEN"
    "sq_buffer (sn_dataQueue (c_sender c)) = []" "\<not> c_closed c" using assms(1) by (simp_all add: alive_def)
  note f = fail_state [OF opn(1,2) c1_def]
  have "fail now MRUDP_EVENT_TIMEOUT c = close_event now MRUDP_EVENT_TIMEOUT c1"
    using f opn(3,4) by (simp add: fail_def possiblyClose_def c1_def [symmetric])
  then show ?thesis unfolding eq using f opn(4) close_event_closes [of c1] close_event_callback [of c1] by simp
qed


definition example_waiting :: Connection where
  "example_waiting = initiate 0 (opened_connection (mrudp_default_connection_options\<lparr>opt_maximum_retry_attempts := 2\<rparr>)
     (replicate 16 1) empty_address 9 None 7 True True)"

lemma sendReliably_user:
  "c_closed (sendReliably now p a c) = c_closed c" "c_options (sendReliably now p a c) = c_options c"
  "c_userDataDisposed (sendReliably now p a c) = c_userDataDisposed c"
  "c_closeHandler (sendReliably now p a c) = c_closeHandler c" "c_userData (sendReliably now p a c) = c_userData c"
  by (simp_all add: sendReliably_def sendReliablyMultipath_def conn_insert_def Let_def split: prod.splits)

lemma example_waiting_alive:
  "\<exists>retry. alive 0 retry 2 example_waiting \<and> rt_attempts retry = 0 \<and> rt_retryAt retry \<le> millis 2030"
proof -
  let ?c = "opened_connection (mrudp_default_connection_options\<lparr>opt_maximum_retry_attempts := 2\<rparr>)
     (replicate 16 1) empty_address 9 None 7 True True"
  define due where "due = millis (toDuration (calculateRetryDuration rtt_initial))"
  define retry where "retry = \<lparr>rt_paths = [(set_id 0 (set_type H0 new_packet), None)], rt_sentAt = 0, rt_retryAt = due,
     rt_attempts = 0, rt_priority = False\<rparr>"
  have inv: "conn_inv UNIV example_waiting"
    unfolding example_waiting_def by (intro conn_step0D [OF initiate_step] opened_connection_inv) simp_all
  have c: "c_sender ?c = new_Sender" "c_options ?c = mrudp_default_connection_options\<lparr>opt_maximum_retry_attempts := 2\<rparr>"
    by (simp_all add: opened_connection_def openUser_def new_Connection_def)
  have "c_sender example_waiting = c_sender (sendReliably 0 (set_type H0 new_packet) None ?c)"
    by (simp add: example_waiting_def initiate_def set_waitingFor_def)
  also have "sn_retrier \<dots> = new_Retrier\<lparr>re_window := [(0, retry)]\<rparr>"
    by (simp add: sendReliably_def sendReliablyMultipath_sender c new_Sender_def re_insert_def new_Retrier_def Let_def
        paths_id_def recalculateRetryTimeout_def getNextRetry_def om_begin_def set_retry_def retry_def due_def)
  finally have r: "sn_retrier (c_sender example_waiting) = new_Retrier\<lparr>re_window := [(0, retry)]\<rparr>" .
  have q: "sn_dataQueue (c_sender example_waiting) = new_SendQueue"
    by (simp add: example_waiting_def initiate_def set_waitingFor_def c new_Sender_def)
  have "c_options example_waiting = c_options ?c" "c_closed example_waiting = c_closed ?c"
    by (simp_all add: example_waiting_def initiate_def set_waitingFor_def sendReliably_user)
  then have "alive 0 retry 2 example_waiting"
    using inv r q by (simp add: alive_def c opened_connection_fields getNextRetry_def new_Retrier_def new_SendQueue_def om_begin_def)
  moreover have "due \<le> millis 2030"
    using retry_duration_range [of rtt_initial] by (simp add: due_def millis_def rtt_initial_def rtt_constants)
  ultimately show ?thesis by (intro exI [of _ retry]) (simp add: retry_def)
qed

lemma example_waiting_user:
  "c_userDataDisposed example_waiting = False" "c_closeHandler example_waiting" "c_userData example_waiting = 7"
  by (simp_all add: example_waiting_def initiate_def set_waitingFor_def sendReliably_user opened_connection_fields)


end
