(* ===== verification/Handshake_Agreement.thy ===== *)
theory Handshake_Agreement
  imports Socket Sender_Behaviour
begin

text \<open>
  Two connections and the network between them. The network delivers any packet one side has given
  to its socket to the other side, at any time, any number of times or never, and from any address;
  it does not make up packets. Each side may run its other handlers at any time, so that packets are
  resent and the connection is closed or fails at any moment.
\<close>

section \<open>The two sides\<close>

type_synonym pair_state = "Connection \<times> Connection"

inductive pair_step :: "compressor \<Rightarrow> decompressor \<Rightarrow> pair_state \<Rightarrow> pair_state \<Rightarrow> bool" for z u where
  client_runs: "conn_local z c c' \<Longrightarrow> pair_step z u (c, s) (c', s)"
| server_runs: "conn_local z s s' \<Longrightarrow> pair_step z u (c, s) (c, s')"
| to_server: "p \<in> set (sent_packets (c_out c)) \<Longrightarrow> length from = address_size \<Longrightarrow>
    pair_step z u (c, s) (c, conn_receive z u now (snd (getLookUp p)) from s)"
| to_client: "p \<in> set (sent_packets (c_out s)) \<Longrightarrow> length from = address_size \<Longrightarrow>
    pair_step z u (c, s) (conn_receive z u now (snd (getLookUp p)) from c, s)"

text \<open>The handshake types each side may have sent, by what it waits for.\<close>

definition client_kinds :: "TypeID \<Rightarrow> TypeID set" where
  "client_kinds w = (if w = H1 then {H0} else {H0, H2})"

definition server_kinds :: "TypeID \<Rightarrow> TypeID set" where
  "server_kinds w = (if w = H0 then {} else if w = H2 then {H1} else {H1, H3})"

definition side_ok :: "TypeID set \<Rightarrow> LongConnectionID \<Rightarrow> ShortConnectionID \<Rightarrow> Connection \<Rightarrow> bool" where
  "side_ok K i l c \<longleftrightarrow> conn_inv K c \<and> c_id c = i \<and> c_localID c = l \<and> list_all (effect_ok K l i) (c_out c)"

lemma effect_ok_mono: "effect_ok K l i e \<Longrightarrow> K \<subseteq> L \<Longrightarrow> effect_ok L l i e"
  by (auto simp: effect_ok_def sent_ok_def kind_ok_def split: effect.splits)

lemma side_ok_mono: "side_ok K i l c \<Longrightarrow> K \<subseteq> L \<Longrightarrow> side_ok L i l c"
  unfolding side_ok_def list_all_iff by (meson conn_inv_mono effect_ok_mono)

lemma side_ok_step: "side_ok K i l c \<Longrightarrow> conn_step0 K c c' \<Longrightarrow> side_ok K i l c'"
  by (auto simp: side_ok_def conn_step0_def)

lemma side_ok_sent:
  assumes "side_ok K i l c" and "p \<in> set (sent_packets (c_out c))"
  shows "sent_ok K l i p" "length i = 16"
  using effect_ok_packets [of K l i "c_out c"] assms by (auto simp: side_ok_def list_all_iff conn_inv_def)

section \<open>A packet on its way\<close>

lemma lookup_strips:
  assumes "sent_ok K l i p" and "length i = 16"
  shows "pk_type (snd (getLookUp p)) = pk_type p" "wf_packet (snd (getLookUp p))"
    "pk_type p = H2 \<Longrightarrow> pk_data (snd (getLookUp p)) = enc_word 2 l"
    "pk_type p = H3 \<Longrightarrow> \<exists>opts. length opts = 6 \<and> pk_data (snd (getLookUp p)) = enc_word 2 l @ opts"
proof -
  obtain lu p1 where lu: "getLookUp p = (lu, p1)" by fastforce
  have wf: "wf_packet p" using assms(1) by (simp add: sent_ok_def)
  from getLookUp_props [OF lu wf] lu show "pk_type (snd (getLookUp p)) = pk_type p" "wf_packet (snd (getLookUp p))" by simp_all
  have strip: "pk_data (snd (getLookUp p)) = d" if "pk_data p = d @ id_suffix i p" for d
  proof (cases "h_connection (pk_header p) = 0")
    case True
    with that have "pk_data p = d @ i" by (simp add: id_suffix_def)
    then have "popData p 16 = Some (i, p\<lparr>pk_data := d\<rparr>)"
      using assms(2) by (simp add: popData_def dataSize_def Let_def)
    with True show ?thesis by (simp add: getLookUp_def)
  next
    case False
    with that show ?thesis by (simp add: getLookUp_def id_suffix_def Let_def)
  qed
  show "pk_data (snd (getLookUp p)) = enc_word 2 l" if "pk_type p = H2"
    using that assms(1) strip by (simp add: sent_ok_def)
  show "\<exists>opts. length opts = 6 \<and> pk_data (snd (getLookUp p)) = enc_word 2 l @ opts" if t: "pk_type p = H3"
  proof -
    obtain opts where "length opts = 6" "pk_data p = (enc_word 2 l @ opts) @ id_suffix i p"
      using t assms(1) by (auto simp: sent_ok_def)
    with strip show ?thesis by blast
  qed
qed

lemma readRemoteID_enc: "pk_data p = enc_word 2 l \<Longrightarrow> fst (readRemoteID p) = l"
  by (simp add: readRemoteID_def popData_def dataSize_def Let_def)

lemma accepted_handshake:
  assumes "accept_packet now p from c = (True, p1, c1)" and "conn_inv K c" and "wf_packet p" and "length from = address_size"
    and "isHandshake (pk_type p)"
  shows "\<exists>c2. ho_onReceive p c = Some (p1, c2)"
proof -
  obtain q c2 where ho: "ho_onReceive p c = Some (q, c2)"
    using assms(1) by (auto simp: accept_packet_def split: option.splits)
  define c3 where "c3 = c2\<lparr>c_statistics := stat_onReceive q (c_statistics c2)\<rparr>"
  have np: "np_onReceive now q from c3 = (True, p1, c1)" using assms(1) ho by (simp add: accept_packet_def c3_def)
  have inv: "conn_inv K c3" using conn_step0D [OF ho_onReceive_step [OF assms(2) ho]] by (simp add: c3_def)
  have "isHandshake (pk_type q)" using ho_onReceive_abs [OF ho] assms(5) by simp
  from np_onReceive_abs(3) [OF inv ho_onReceive_wf [OF assms(3) ho] assms(4) np this] ho show ?thesis by simp
qed

text \<open>What a delivered H2 or H3 announces is the identifier of the side that sent it.\<close>

lemma delivered_announces:
  assumes "sent_ok K l i p" and "length i = 16" and "accept_packet now (snd (getLookUp p)) from c = (True, p1, c1)"
    and "conn_inv L c" and "length from = address_size" and "pk_type p = H2 \<or> pk_type p = H3"
  shows "fst (readRemoteID p1) = l"
proof -
  let ?q = "snd (getLookUp p)"
  note s = lookup_strips [OF assms(1,2)]
  have "isHandshake (pk_type ?q)" using assms(6) s(1) by (auto simp: isHandshake_def)
  then obtain c2 where ho: "ho_onReceive ?q c = Some (p1, c2)"
    using accepted_handshake [OF assms(3,4) s(2) assms(5)] by blast
  have "pk_data p1 = enc_word 2 l"
  proof (cases "pk_type p = H2")
    case True
    with ho s(1,3) show ?thesis by (auto simp: ho_onReceive_def)
  next
    case False
    with assms(6) obtain opts where o: "length opts = 6" "pk_data ?q = enc_word 2 l @ opts" and t: "pk_type ?q = H3"
      using s(1,4) by auto
    from ho t obtain bs where "popData ?q 6 = Some (bs, p1)" by (auto simp: ho_onReceive_def split: option.splits)
    from popData_split [OF this] popData_length [OF this] o show ?thesis by simp
  qed
  then show ?thesis by (rule readRemoteID_enc)
qed

section \<open>The invariant of the pair\<close>

text \<open>
  The client waits for H1, then H3; the server for H0, then H2. A side has sent only the handshake
  packets of the stages it has passed, and a completed handshake has the identifier of the other side.
\<close>

definition pair_inv :: "LongConnectionID \<Rightarrow> ShortConnectionID \<Rightarrow> ShortConnectionID \<Rightarrow> pair_state \<Rightarrow> bool" where
  "pair_inv i lc ls x \<longleftrightarrow> (case x of (c, s) \<Rightarrow>
     side_ok (client_kinds (waiting c)) i lc c \<and> side_ok (server_kinds (waiting s)) i ls s
     \<and> hs_abs c \<in> {(H1, 0), (H3, 0), (HANDSHAKE_COMPLETE, ls)} \<and> hs_abs s \<in> {(H0, 0), (H2, 0), (HANDSHAKE_COMPLETE, lc)}
     \<and> (waiting c \<noteq> H1 \<longrightarrow> waiting s \<noteq> H0) \<and> (waiting c = HANDSHAKE_COMPLETE \<longrightarrow> waiting s = HANDSHAKE_COMPLETE)
     \<and> (waiting s = HANDSHAKE_COMPLETE \<longrightarrow> waiting c \<noteq> H1))"

lemma waiting_abs: "waiting c = fst (hs_abs c)"
  by (simp add: hs_abs_def)

lemma side_local:
  assumes "side_ok K i l c" and "conn_local z c c'"
  shows "side_ok K i l c'" "hs_abs c' = hs_abs c"
proof -
  have "conn_step K c c'" using conn_local_step [OF assms(2)] assms(1) by (simp add: side_ok_def)
  then show "side_ok K i l c'" "hs_abs c' = hs_abs c"
    using side_ok_step [OF assms(1) conn_step_weak] conn_step_abs by blast+
qed

text \<open>A delivery is dropped, and then nothing of the handshake changes, or it moves the automaton.\<close>

lemma side_receive:
  assumes "side_ok K i l c" and "sent_ok M l' i p" and "length from = address_size" and "K \<subseteq> L"
    and "hs_reply (waiting c) (pk_type p) \<subseteq> L" and "c' = conn_receive z u now (snd (getLookUp p)) from c"
  obtains (dropped) "side_ok K i l c'" "hs_abs c' = hs_abs c"
  | (kept) p1 where "side_ok L i l c'" "hs_abs c' = hs_next p1 (hs_abs c)" "pk_type p1 = pk_type p"
      "pk_type p = H2 \<or> pk_type p = H3 \<Longrightarrow> fst (readRemoteID p1) = l'"
proof -
  let ?q = "snd (getLookUp p)"
  have inv: "conn_inv K c" and len: "length i = 16" using assms(1) by (auto simp: side_ok_def conn_inv_def)
  note s = lookup_strips [OF assms(2) len]
  obtain k p1 c1 where a: "accept_packet now ?q from c = (k, p1, c1)" by (metis surj_pair)
  note acc = accept_packet_step [OF inv s(2) assms(3) a]
  have abs: "hs_abs c' = (if k then hs_next p1 (hs_abs c) else hs_abs c)"
    using conn_receive_abs [OF inv s(2) assms(3), of z u now] a assms(6) by simp
  show ?thesis
  proof (cases k)
    case False
    then have "c' = c1" using assms(6) a by (simp add: conn_receive_accept)
    with False abs show ?thesis using side_ok_step [OF assms(1) acc(1)] by (intro dropped) simp_all
  next
    case True
    have L: "side_ok L i l c" by (rule side_ok_mono [OF assms(1,4)])
    then have "conn_step0 L c c'" unfolding assms(6)
      using assms(5) s(1) by (intro conn_receive_step [OF _ s(2) assms(3)]) (simp_all add: side_ok_def)
    then have "side_ok L i l c'" by (rule side_ok_step [OF L])
    moreover have "fst (readRemoteID p1) = l'" if "pk_type p = H2 \<or> pk_type p = H3"
      using delivered_announces [OF assms(2) len _ inv assms(3) that] a True by simp
    ultimately show ?thesis using True abs acc(3) s(1) by (intro kept) simp_all
  qed
qed

lemma hs_next_other: "pk_type p \<notin> {H0, H1, H2, H3} \<Longrightarrow> hs_next p x = x"
  by (cases x) (simp add: hs_next_def)

lemma handshake_types: "isHandshake t \<longleftrightarrow> t \<in> {H0, H1, H2, H3}"
proof -
  have "t = 65 \<or> t = 66 \<or> t = 67 \<or> t = 68" if "65 \<le> t" "t < 69" for t :: TypeID
  proof -
    have "65 \<le> unat t" "unat t < 69" using that by (simp_all add: word_le_nat_alt word_less_nat_alt)
    then have "unat t = 65 \<or> unat t = 66 \<or> unat t = 67 \<or> unat t = 68" by auto
    then show ?thesis by (simp add: word_unat_eq_iff)
  qed
  then show ?thesis by (auto simp: isHandshake_def)
qed

lemma pair_inv_server:
  assumes "pair_inv i lc ls (c, s)" and "side_ok (server_kinds (waiting s')) i ls s'"
    and "hs_abs s' = hs_abs s \<or> hs_abs s = (H0, 0) \<and> hs_abs s' = (H2, 0)
      \<or> hs_abs s = (H2, 0) \<and> hs_abs s' = (HANDSHAKE_COMPLETE, lc) \<and> waiting c \<noteq> H1"
  shows "pair_inv i lc ls (c, s')"
  using assms by (auto simp: pair_inv_def waiting_abs)

lemma pair_inv_client:
  assumes "pair_inv i lc ls (c, s)" and "side_ok (client_kinds (waiting c')) i lc c'"
    and "hs_abs c' = hs_abs c \<or> hs_abs c = (H1, 0) \<and> hs_abs c' = (H3, 0) \<and> waiting s \<noteq> H0
      \<or> hs_abs c = (H3, 0) \<and> hs_abs c' = (HANDSHAKE_COMPLETE, ls) \<and> waiting s = HANDSHAKE_COMPLETE"
  shows "pair_inv i lc ls (c', s)"
  using assms by (auto simp: pair_inv_def waiting_abs)

lemma deliver_to_server:
  assumes "pair_inv i lc ls (c, s)" and "p \<in> set (sent_packets (c_out c))" and "length from = address_size"
    and "s' = conn_receive z u now (snd (getLookUp p)) from s"
  shows "pair_inv i lc ls (c, s')"
proof -
  have inv: "side_ok (client_kinds (waiting c)) i lc c" "side_ok (server_kinds (waiting s)) i ls s"
    and hs: "hs_abs s \<in> {(H0, 0), (H2, 0), (HANDSHAKE_COMPLETE, lc)}" "waiting c \<noteq> H1 \<longrightarrow> waiting s \<noteq> H0"
    using assms(1) by (simp_all add: pair_inv_def)
  note sent = side_ok_sent(1) [OF inv(1) assms(2)]
  then have kind: "isHandshake (pk_type p) \<longrightarrow> pk_type p \<in> client_kinds (waiting c)" by (simp add: sent_ok_def kind_ok_def)
  define w where "w = (if pk_type p = H0 \<and> waiting s = H0 then H2 else if pk_type p = H2 then HANDSHAKE_COMPLETE else waiting s)"
  have H2: "pk_type p = H2 \<Longrightarrow> waiting c \<noteq> H1 \<and> waiting s \<noteq> H0"
    using kind hs(2) by (auto simp: client_kinds_def isHandshake_def split: if_splits)
  have sub: "server_kinds (waiting s) \<subseteq> server_kinds w" using hs(1) by (auto simp: w_def server_kinds_def waiting_abs)
  have reply: "hs_reply (waiting s) (pk_type p) \<subseteq> server_kinds w"
    using kind hs(1) by (auto simp: w_def server_kinds_def hs_reply_def waiting_abs client_kinds_def isHandshake_def split: if_splits)
  from inv(2) sent assms(3) sub reply assms(4) show ?thesis
  proof (cases rule: side_receive)
    case dropped
    then show ?thesis by (intro pair_inv_server [OF assms(1)]) (simp_all add: waiting_abs)
  next
    case (kept p1)
    have "waiting s' = w \<and> (hs_abs s' = hs_abs s \<or> hs_abs s = (H0, 0) \<and> hs_abs s' = (H2, 0)
        \<or> hs_abs s = (H2, 0) \<and> hs_abs s' = (HANDSHAKE_COMPLETE, lc) \<and> waiting c \<noteq> H1)"
    proof (cases "isHandshake (pk_type p)")
      case True
      with kind have "pk_type p = H0 \<or> pk_type p = H2" by (auto simp: client_kinds_def split: if_splits)
      then show ?thesis using kept(2-4) hs(1) H2 by (auto simp: hs_next_def w_def waiting_abs)
    next
      case False
      then have "hs_abs s' = hs_abs s" "w = waiting s"
        using kept(2,3) hs_next_other [of p1] by (auto simp: handshake_types w_def)
      then show ?thesis by (simp add: waiting_abs)
    qed
    with kept(1) show ?thesis by (intro pair_inv_server [OF assms(1)]) auto
  qed
qed

lemma deliver_to_client:
  assumes "pair_inv i lc ls (c, s)" and "p \<in> set (sent_packets (c_out s))" and "length from = address_size"
    and "c' = conn_receive z u now (snd (getLookUp p)) from c"
  shows "pair_inv i lc ls (c', s)"
proof -
  have inv: "side_ok (client_kinds (waiting c)) i lc c" "side_ok (server_kinds (waiting s)) i ls s"
    and hs: "hs_abs c \<in> {(H1, 0), (H3, 0), (HANDSHAKE_COMPLETE, ls)}"
    using assms(1) by (simp_all add: pair_inv_def)
  note sent = side_ok_sent(1) [OF inv(2) assms(2)]
  then have kind: "isHandshake (pk_type p) \<longrightarrow> pk_type p \<in> server_kinds (waiting s)" by (simp add: sent_ok_def kind_ok_def)
  have "waiting s = H0 \<or> waiting s = H2 \<or> waiting s = HANDSHAKE_COMPLETE"
    using assms(1) by (auto simp: pair_inv_def waiting_abs)
  with kind consider (h1) "pk_type p = H1" "waiting s \<noteq> H0" | (h3) "pk_type p = H3" "waiting s = HANDSHAKE_COMPLETE"
    | (other) "\<not> isHandshake (pk_type p)"
    by (auto simp: server_kinds_def split: if_splits)
  note types = this
  define w where "w = (if pk_type p = H1 \<and> waiting c = H1 then H3 else if pk_type p = H3 \<and> waiting c = H3 then HANDSHAKE_COMPLETE else waiting c)"
  have sub: "client_kinds (waiting c) \<subseteq> client_kinds w" by (simp add: w_def client_kinds_def)
  from types have reply: "hs_reply (waiting c) (pk_type p) \<subseteq> client_kinds w"
    by cases (auto simp: w_def hs_reply_def client_kinds_def handshake_types)
  from inv(1) sent assms(3) sub reply assms(4) show ?thesis
  proof (cases rule: side_receive)
    case dropped
    then show ?thesis by (intro pair_inv_client [OF assms(1)]) (simp_all add: waiting_abs)
  next
    case (kept p1)
    from types have "waiting c' = w \<and> (hs_abs c' = hs_abs c \<or> hs_abs c = (H1, 0) \<and> hs_abs c' = (H3, 0) \<and> waiting s \<noteq> H0
        \<or> hs_abs c = (H3, 0) \<and> hs_abs c' = (HANDSHAKE_COMPLETE, ls) \<and> waiting s = HANDSHAKE_COMPLETE)"
    proof cases
      case h1
      with kept(2,3) have "hs_abs c' = (if waiting c = H1 then (H3, c_remoteID c) else hs_abs c)"
        by (simp add: hs_next_def hs_abs_def)
      with h1 hs show ?thesis by (auto simp: w_def hs_abs_def)
    next
      case h3
      with kept(2-4) have "hs_abs c' = (if waiting c = H3 then (HANDSHAKE_COMPLETE, ls) else hs_abs c)"
        by (simp add: hs_next_def hs_abs_def)
      with h3 hs show ?thesis by (auto simp: w_def hs_abs_def)
    next
      case other
      then have "hs_abs c' = hs_abs c" "w = waiting c"
        using kept(2,3) hs_next_other [of p1] by (auto simp: handshake_types w_def)
      then show ?thesis by (simp add: waiting_abs)
    qed
    with kept(1) show ?thesis by (intro pair_inv_client [OF assms(1)]) auto
  qed
qed

lemma pair_step_inv:
  assumes "pair_inv i lc ls x" and "pair_step z u x y"
  shows "pair_inv i lc ls y"
  using assms(2)
proof cases
  case (client_runs c c' s)
  have inv: "pair_inv i lc ls (c, s)" using assms(1) client_runs(1) by simp
  then have "side_ok (client_kinds (waiting c)) i lc c" by (simp add: pair_inv_def)
  note l = side_local [OF this client_runs(3)]
  then have "side_ok (client_kinds (waiting c')) i lc c'" by (simp add: waiting_abs)
  with l(2) client_runs(2) show ?thesis using pair_inv_client [OF inv] by simp
next
  case (server_runs s s' c)
  have inv: "pair_inv i lc ls (c, s)" using assms(1) server_runs(1) by simp
  then have "side_ok (server_kinds (waiting s)) i ls s" by (simp add: pair_inv_def)
  note l = side_local [OF this server_runs(3)]
  then have "side_ok (server_kinds (waiting s')) i ls s'" by (simp add: waiting_abs)
  with l(2) server_runs(2) show ?thesis using pair_inv_server [OF inv] by simp
next
  case (to_server p c "from" s now)
  then show ?thesis using deliver_to_server [OF _ to_server(3,4) refl] assms(1) by simp
next
  case (to_client p s "from" c now)
  then show ?thesis using deliver_to_client [OF _ to_client(3,4) refl] assms(1) by simp
qed

interpretation pair: invariant_system "pair_step z u" "pair_inv i lc ls" for z u i lc ls
  by unfold_locales (rule pair_step_inv)

section \<open>Agreement\<close>

text \<open>The states \<^verbatim>\<open>Socket::connect\<close> and the accept of an H0 leave behind.\<close>

definition client_start :: "timepoint \<Rightarrow> Connection \<Rightarrow> Connection" where
  "client_start now c = initiate now (snd (conn_open now MRUDP_OK c))"

lemma opened_side:
  assumes "length i = 16" and "c = opened_connection o1 i a l o2 ud rh ch"
  shows "side_ok K i l c" "hs_abs c = (H0, 0)"
  using opened_connection_inv [OF assms(1)] by (simp_all add: side_ok_def assms(2) opened_connection_fields)

lemma start_side:
  assumes "length i = 16" and "c = opened_connection o1 i a l o2 ud rh ch"
  shows "side_ok {H0} i l (client_start now c)" "hs_abs (client_start now c) = (H1, 0)"
proof -
  have step: "conn_step {H0} c (snd (conn_open now MRUDP_OK c))"
    using opened_side(1) [OF assms, of "{H0}"] by (intro conn_open_step) (simp add: side_ok_def)
  have "conn_step0 {H0} c (client_start now c)" unfolding client_start_def
    by (rule conn_step0_then [OF conn_step_weak [OF step] initiate_step]) simp_all
  then show "side_ok {H0} i l (client_start now c)" by (rule side_ok_step [OF opened_side(1) [OF assms]])
  have "storable {H0} l' (set_type H0 new_packet)" for l' by (simp add: storable_def wf_packet_def kind_ok_def)
  from conn_step_abs [OF sendReliably_step [OF conn_stepD [OF step] this, of now None]] conn_step_abs [OF step] opened_side(2) [OF assms]
  show "hs_abs (client_start now c) = (H1, 0)"
    by (simp add: client_start_def initiate_def set_waitingFor_def hs_abs_def)
qed

lemma start_inv:
  assumes "length i = 16" and "c = opened_connection o1 i a lc o2 ud rh ch" and "s = opened_connection o3 i a' ls o4 ud' rh' ch'"
  shows "pair_inv i lc ls (client_start now c, s)"
proof -
  note cl = start_side [OF assms(1,2), of now] and se = opened_side [OF assms(1,3)]
  have w: "waiting (client_start now c) = H1" "waiting s = H0" using cl(2) se(2) by (simp_all add: waiting_abs)
  show ?thesis unfolding pair_inv_def prod.case w cl(2) se(2) using cl(1) se(1) by (simp add: client_kinds_def)
qed

text \<open>
  C4: Whatever the network does with the packets, in whatever order the timeouts run and whenever either user closes: when the
  handshake of the client is complete, so is that of the server, and then each side sends to the
  identifier the other side has for the connection; until then the client sends no data.
\<close>

theorem handshake_agreement:
  assumes "length i = 16"
    and "(pair_step z u)\<^sup>*\<^sup>* (client_start now (opened_connection o1 i a lc o2 ud rh ch), opened_connection o3 i a' ls o4 ud' rh' ch') (c, s)"
  shows "(waiting c = HANDSHAKE_COMPLETE \<longrightarrow> waiting s = HANDSHAKE_COMPLETE \<and> c_remoteID c = c_localID s \<and> c_remoteID s = c_localID c)
    \<and> (waiting s = HANDSHAKE_COMPLETE \<longrightarrow> c_remoteID s = c_localID c)
    \<and> (waiting c \<noteq> HANDSHAKE_COMPLETE \<longrightarrow> \<not> canSend c) \<and> (waiting s \<noteq> HANDSHAKE_COMPLETE \<longrightarrow> \<not> canSend s)"
proof -
  have "pair_inv i lc ls (c, s)" by (rule pair.inv_run [OF assms(2) start_inv [OF assms(1) refl refl]])
  then have inv: "c_localID c = lc" "c_localID s = ls" "hs_abs c \<in> {(H1, 0), (H3, 0), (HANDSHAKE_COMPLETE, ls)}"
    "hs_abs s \<in> {(H0, 0), (H2, 0), (HANDSHAKE_COMPLETE, lc)}" "waiting c = HANDSHAKE_COMPLETE \<longrightarrow> waiting s = HANDSHAKE_COMPLETE"
    by (simp_all add: pair_inv_def side_ok_def)
  from inv(3,4) have "waiting c = HANDSHAKE_COMPLETE \<longrightarrow> c_remoteID c = ls" "waiting s = HANDSHAKE_COMPLETE \<longrightarrow> c_remoteID s = lc"
    "waiting c \<noteq> HANDSHAKE_COMPLETE \<longrightarrow> c_remoteID c = 0" "waiting s \<noteq> HANDSHAKE_COMPLETE \<longrightarrow> c_remoteID s = 0"
    by (auto simp: hs_abs_def)
  with inv(1,2,5) show ?thesis by (simp add: canSend_def)
qed

section \<open>Completion\<close>

lemma step0_sent: "conn_step0 K c c' \<Longrightarrow> p \<in> set (sent_packets (c_out c)) \<Longrightarrow> p \<in> set (sent_packets (c_out c'))"
  by (auto simp: conn_step0_def sent_packets_def)

lemma conn_send_sends:
  assumes "presend K l p"
  shows "\<exists>q \<in> set (sent_packets (c_out (conn_send now p a c))). pk_type q = pk_type p"
proof -
  obtain p' where p': "ho_onSend (c_options c) p = Some p'" using ho_onSend_sendable [OF assms] by blast
  have t: "pk_type p' = pk_type p"
    using p' by (auto simp: ho_onSend_def pushT_def pushData_def pk_type_def Let_def split: if_splits prod.splits)
  have "\<exists>q. pk_type q = pk_type p' \<and> q \<in> set (sent_packets (c_out (send_packet now p' a c1)))" for c1
  proof -
    let ?p = "set_connection (c_remoteID c1) p'"
    let ?q = "if h_connection (pk_header ?p) = 0 then snd (pushT ?p (c_id c1)) else ?p"
    have "?q \<in> set (sent_packets (c_out (emit (SocketSend ?q a) c1)))" by (simp add: emit_def sent_packets_def)
    then have "?q \<in> set (sent_packets (c_out (send_packet now p' a c1)))" by (simp only: send_packet_def Let_def sent_packets_probe_on)
    moreover have "pk_type ?q = pk_type p'" by simp
    ultimately show ?thesis by blast
  qed
  with p' t show ?thesis by (auto simp: conn_send_def Let_def)
qed

lemma sendReliably_sends:
  assumes "storable K l p"
  shows "\<exists>q \<in> set (sent_packets (c_out (sendReliably now p a c))). pk_type q = pk_type p"
proof -
  have "presend K l (set_id i p)" for i using storable_presend [of K l "set_id i p"] assms by simp
  from conn_send_sends [OF this] show ?thesis
    by (simp add: sendReliably_def sendReliablyMultipath_def send_paths_def Let_def)
qed

definition sent_type :: "TypeID \<Rightarrow> Connection \<Rightarrow> bool" where
  "sent_type t c \<longleftrightarrow> (\<exists>q \<in> set (sent_packets (c_out c)). pk_type q = t)"

lemma sent_type_step: "conn_step0 K c c' \<Longrightarrow> sent_type t c \<Longrightarrow> sent_type t c'"
  by (auto simp: sent_type_def intro: step0_sent)

lemma handlePacket_replies:
  assumes "conn_inv UNIV c"
  shows "pk_type p = H0 \<Longrightarrow> sent_type H1 (snd (handlePacket z u now p c))"
    "pk_type p = H1 \<Longrightarrow> waiting c = H1 \<Longrightarrow> sent_type H2 (snd (handlePacket z u now p c))"
    "pk_type p = H2 \<Longrightarrow> sent_type H3 (snd (handlePacket z u now p c))"
proof -
  have wait: "sent_type t (set_waitingFor w c') = sent_type t c'" for t w c' by (simp add: sent_type_def set_waitingFor_def)
  show "sent_type H1 (snd (handlePacket z u now p c))" if "pk_type p = H0"
  proof -
    have "sent_type H1 (conn_send now (handshake_ack H1 p) None c)"
      using conn_send_sends [OF handshake_packets(2) [OF UNIV_I, of 0 p], of now None c] by (simp add: sent_type_def handshake_ack_def)
    then show ?thesis using that by (simp add: handlePacket_def Let_def wait)
  qed
  show "sent_type H2 (snd (handlePacket z u now p c))" if "pk_type p = H1" "waiting c = H1"
    using that sendReliably_sends [OF handshake_packets(1) [OF UNIV_I, of "c_localID c"], of now None "set_waitingFor H3 c"]
    by (simp add: handlePacket_def Let_def sent_type_def)
  show "sent_type H3 (snd (handlePacket z u now p c))" if "pk_type p = H2"
  proof -
    let ?c = "conn_send now (snd (pushT (handshake_ack H3 (snd (readRemoteID p))) (enc_word 2 (c_localID c)))) None c"
    have sent: "sent_type H3 ?c"
      using conn_send_sends [OF handshake_packets(3) [OF UNIV_I, of "c_localID c" "snd (readRemoteID p)"], of now None c]
      by (simp add: sent_type_def handshake_ack_def)
    have "conn_inv UNIV ?c" by (rule conn_stepD [OF handle_H2_step [OF assms UNIV_I]])
    from sent_type_step [OF complete_step(2) [OF this] sent] sent show ?thesis
      using that by (simp add: handlePacket_def Let_def case_prod_beta)
  qed
qed

lemma receive_replies:
  assumes "conn_inv UNIV c" and "wf_packet p" and "length (c_remoteAddress c) = address_size" and "ho_onReceive p c = Some (p1, c1)"
    and "c' = conn_receive z u now p (c_remoteAddress c) c"
  shows "pk_type p = H0 \<Longrightarrow> sent_type H1 c'" "pk_type p = H1 \<Longrightarrow> waiting c = H1 \<Longrightarrow> sent_type H2 c'"
    "pk_type p = H2 \<Longrightarrow> sent_type H3 c'" "c_remoteAddress c' = c_remoteAddress c" "conn_inv UNIV c'"
proof -
  obtain k p2 c2 where a: "accept_packet now p (c_remoteAddress c) c = (k, p2, c2)" by (metis surj_pair)
  note acc = accept_packet_step [OF assms(1-3) a]
  have np: "np_onReceive now p1 (c_remoteAddress c) (c1\<lparr>c_statistics := stat_onReceive p1 (c_statistics c1)\<rparr>) = (k, p2, c2)"
    using a assms(4) by (simp add: accept_packet_def)
  have "c_remoteAddress (c1\<lparr>c_statistics := stat_onReceive p1 (c_statistics c1)\<rparr>) = c_remoteAddress c"
    using ho_onReceive_abs [OF assms(4)] by simp
  then have k: k using np by (auto simp: np_onReceive_def split: if_splits)
  have inv2: "conn_inv UNIV c2" by (rule conn_step0D [OF acc(1)])
  obtain p3 c3 where h: "handshake_onReceive z u now p2 c2 = (p3, c3)" by fastforce
  have inv3: "conn_inv UNIV c3" using conn_step0D [OF handshake_onReceive_step [OF inv2, of p2 z u now]] h by simp
  have step: "conn_step0 UNIV c3 c'" unfolding assms(5) conn_receive_accept a using k h
    by (simp add: conn_step_weak [OF after_handshake_step [OF inv3]])
  have c3: "c3 = snd (handlePacket z u now p2 c2)" if "isHandshake (pk_type p)"
    using that h acc(3) by (simp add: handshake_onReceive_def)
  have w: "waiting c2 = waiting c" using acc(2) by (simp add: hs_abs_def)
  show "sent_type H1 c'" if "pk_type p = H0"
    using sent_type_step [OF step] handlePacket_replies(1) [OF inv2] that c3 acc(3) by (simp add: handshake_types)
  show "sent_type H2 c'" if "pk_type p = H1" "waiting c = H1"
    using sent_type_step [OF step] handlePacket_replies(2) [OF inv2] that c3 acc(3) w by (simp add: handshake_types)
  show "sent_type H3 c'" if "pk_type p = H2"
    using sent_type_step [OF step] handlePacket_replies(3) [OF inv2] that c3 acc(3) by (simp add: handshake_types)
  show "conn_inv UNIV c'" by (rule conn_step0D [OF step])
  show "c_remoteAddress c' = c_remoteAddress c"
    using conn_receive_address [OF assms(1-3), of z u now] accept_packet_address [OF assms(1-3), of now] assms(5) by auto
qed

definition deliver :: "compressor \<Rightarrow> decompressor \<Rightarrow> timepoint \<Rightarrow> Packet \<Rightarrow> Connection \<Rightarrow> Connection" where
  "deliver z u now p c = conn_receive z u now (snd (getLookUp p)) (c_remoteAddress c) c"

lemma delivered_kept:
  assumes "sent_ok K l i p" and "length i = 16" and "isHandshake (pk_type p)"
  obtains q c1 where "ho_onReceive (snd (getLookUp p)) c = Some (q, c1)" "pk_type q = pk_type p"
proof -
  note s = lookup_strips [OF assms(1,2)]
  have "\<exists>r. ho_onReceive (snd (getLookUp p)) c = Some r"
  proof (cases "pk_type p = H3")
    case True
    with s(4) obtain opts where "length opts = 6" "pk_data (snd (getLookUp p)) = enc_word 2 l @ opts" by blast
    then show ?thesis by (simp add: ho_onReceive_def popData_def dataSize_def Let_def)
  qed (simp add: ho_onReceive_def s(1))
  then obtain q c1 where ho: "ho_onReceive (snd (getLookUp p)) c = Some (q, c1)" by force
  moreover have "pk_type q = pk_type p" using ho_onReceive_abs [OF ho] s(1) by simp
  ultimately show ?thesis by (rule that)
qed

text \<open>One leg of the handshake: the packet is taken, moves the receiver on and is answered.\<close>

lemma handshake_leg:
  assumes "side_ok UNIV i l c" and "side_ok UNIV i l' s" and "length (c_remoteAddress c) = address_size"
    and "p \<in> set (sent_packets (c_out s))" and "isHandshake (pk_type p)" and "c' = deliver z u now p c"
  shows "side_ok UNIV i l c'" "length (c_remoteAddress c') = address_size"
    "\<exists>q. hs_abs c' = hs_next q (hs_abs c) \<and> pk_type q = pk_type p"
    "pk_type p = H0 \<Longrightarrow> sent_type H1 c'" "pk_type p = H1 \<Longrightarrow> waiting c = H1 \<Longrightarrow> sent_type H2 c'" "pk_type p = H2 \<Longrightarrow> sent_type H3 c'"
proof -
  note sent = side_ok_sent [OF assms(2,4)]
  note l = lookup_strips [OF sent]
  have inv: "conn_inv UNIV c" using assms(1) by (simp add: side_ok_def)
  obtain q c1 where q: "ho_onReceive (snd (getLookUp p)) c = Some (q, c1)" "pk_type q = pk_type p"
    by (rule delivered_kept [OF sent assms(5)])
  note r = receive_replies [OF inv l(2) assms(3) q(1), of c' z u now]
  have c': "c' = conn_receive z u now (snd (getLookUp p)) (c_remoteAddress c) c" using assms(6) by (simp add: deliver_def)
  have "conn_step0 UNIV c c'" unfolding c' by (rule conn_receive_step [OF inv l(2) assms(3)]) simp
  then show "side_ok UNIV i l c'" by (rule side_ok_step [OF assms(1)])
  show "length (c_remoteAddress c') = address_size" using r(4) c' assms(3) by simp
  show "\<exists>q. hs_abs c' = hs_next q (hs_abs c) \<and> pk_type q = pk_type p"
    using conn_receive_refines [OF inv l(2) assms(3), of z u now] q c' by auto
  show "pk_type p = H0 \<Longrightarrow> sent_type H1 c'" "pk_type p = H1 \<Longrightarrow> waiting c = H1 \<Longrightarrow> sent_type H2 c'" "pk_type p = H2 \<Longrightarrow> sent_type H3 c'"
    using r(1-3) c' l(1) by simp_all
qed

lemma start_sends:
  assumes "length i = 16" and "c = opened_connection o1 i a l o2 ud rh ch"
  shows "sent_type H0 (client_start now c)" "c_remoteAddress (client_start now c) = a"
proof -
  have st: "storable UNIV l' (set_type H0 new_packet)" for l' by (simp add: storable_def wf_packet_def kind_ok_def)
  have step: "conn_step UNIV c (snd (conn_open now MRUDP_OK c))"
    using opened_side(1) [OF assms, of UNIV] by (intro conn_open_step) (simp add: side_ok_def)
  have "sent_type H0 (sendReliably now (set_type H0 new_packet) None c1)" for c1
    using sendReliably_sends [OF st, of now None c1] by (simp add: sent_type_def)
  then show "sent_type H0 (client_start now c)"
    by (simp add: client_start_def initiate_def sent_type_def set_waitingFor_def)
  have "c_remoteAddress c = a" by (simp add: assms(2) opened_connection_fields)
  with step sendReliably_step [OF conn_stepD [OF step] st, of now None]
  show "c_remoteAddress (client_start now c) = a"
    by (simp add: client_start_def initiate_def set_waitingFor_def conn_step_def fixed_def)
qed

lemma deliver_step:
  shows "p \<in> set (sent_packets (c_out c)) \<Longrightarrow> length (c_remoteAddress s) = address_size \<Longrightarrow> pair_step z u (c, s) (c, deliver z u now p s)"
    and "p \<in> set (sent_packets (c_out s)) \<Longrightarrow> length (c_remoteAddress c) = address_size \<Longrightarrow> pair_step z u (c, s) (deliver z u now p c, s)"
  unfolding deliver_def by (rule pair_step.to_server pair_step.to_client; assumption)+

lemma handshake_exchange:
  assumes "length i = 16" and "length a = address_size" and "length a' = address_size"
    and "c = client_start now (opened_connection o1 i a lc o2 ud rh ch)" and "s = opened_connection o3 i a' ls o4 ud' rh' ch'"
  shows "\<exists>p0 p1 p2 p3 s1 c1 s2 c2. p0 \<in> set (sent_packets (c_out c)) \<and> s1 = deliver z u t0 p0 s
    \<and> p1 \<in> set (sent_packets (c_out s1)) \<and> c1 = deliver z u t1 p1 c
    \<and> p2 \<in> set (sent_packets (c_out c1)) \<and> s2 = deliver z u t2 p2 s1
    \<and> p3 \<in> set (sent_packets (c_out s2)) \<and> c2 = deliver z u t3 p3 c1
    \<and> waiting c2 = HANDSHAKE_COMPLETE \<and> waiting s2 = HANDSHAKE_COMPLETE \<and> (pair_step z u)\<^sup>*\<^sup>* (c, s) (c2, s2)"
proof -
  note [simp] = hs_next_def handshake_types waiting_abs
  have c: "side_ok UNIV i lc c" "length (c_remoteAddress c) = address_size" "hs_abs c = (H1, 0)" "sent_type H0 c"
    using side_ok_mono [OF start_side(1) [OF assms(1) refl] subset_UNIV] start_side(2) [OF assms(1) refl]
      start_sends [OF assms(1) refl] assms(2,4) by simp_all
  have s: "side_ok UNIV i ls s" "length (c_remoteAddress s) = address_size" "hs_abs s = (H0, 0)"
    using opened_side [OF assms(1,5)] assms(3,5) by (simp_all add: opened_connection_fields)
  obtain p0 where p0: "p0 \<in> set (sent_packets (c_out c))" "pk_type p0 = H0" using c(4) by (auto simp: sent_type_def)
  define s1 where "s1 = deliver z u t0 p0 s"
  note l0 = handshake_leg [OF s(1) c(1) s(2) p0(1) _ s1_def]
  have s1: "hs_abs s1 = (H2, 0)" "sent_type H1 s1" using l0(3,4) p0(2) s(3) by auto
  then obtain p1 where p1: "p1 \<in> set (sent_packets (c_out s1))" "pk_type p1 = H1" by (auto simp: sent_type_def)
  have s1': "side_ok UNIV i ls s1" "length (c_remoteAddress s1) = address_size" using l0(1,2) p0(2) by simp_all
  define c1 where "c1 = deliver z u t1 p1 c"
  note l1 = handshake_leg [OF c(1) s1'(1) c(2) p1(1) _ c1_def]
  have c1: "hs_abs c1 = (H3, 0)" "sent_type H2 c1" using l1(3,5) p1(2) c(3) by auto
  then obtain p2 where p2: "p2 \<in> set (sent_packets (c_out c1))" "pk_type p2 = H2" by (auto simp: sent_type_def)
  have c1': "side_ok UNIV i lc c1" "length (c_remoteAddress c1) = address_size" using l1(1,2) p1(2) by simp_all
  define s2 where "s2 = deliver z u t2 p2 s1"
  note l2 = handshake_leg [OF s1'(1) c1'(1) s1'(2) p2(1) _ s2_def]
  have s2: "waiting s2 = HANDSHAKE_COMPLETE" "sent_type H3 s2" using l2(3,6) p2(2) s1(1) by auto
  then obtain p3 where p3: "p3 \<in> set (sent_packets (c_out s2))" "pk_type p3 = H3" by (auto simp: sent_type_def)
  have s2': "side_ok UNIV i ls s2" using l2(1) p2(2) by simp
  define c2 where "c2 = deliver z u t3 p3 c1"
  have "waiting c2 = HANDSHAKE_COMPLETE" using handshake_leg(3) [OF c1'(1) s2' c1'(2) p3(1) _ c2_def] p3(2) c1(1) by auto
  moreover have "(pair_step z u)\<^sup>*\<^sup>* (c, s) (c2, s2)"
    using deliver_step(1) [OF p0(1) s(2), of z u t0] deliver_step(2) [OF p1(1) c(2), of z u t1]
      deliver_step(1) [OF p2(1) s1'(2), of z u t2] deliver_step(2) [OF p3(1) c1'(2), of z u t3]
    unfolding s1_def [symmetric] c1_def [symmetric] s2_def [symmetric] c2_def [symmetric] by (meson converse_rtranclp_into_rtranclp rtranclp.rtrancl_refl)
  ultimately show ?thesis using p0(1) s1_def p1(1) c1_def p2(1) s2_def p3(1) c2_def s2(1) by blast
qed

text \<open>
  C21: The handshake completes when its packets arrive: the client has sent an H0, which the server
  answers by an H1, which the client answers by an H2, which the server answers by an H3; after
  these four deliveries, which are steps of the pair, both sides have completed the handshake.
\<close>

theorem handshake_completes:
  assumes "length i = 16" and "length a = address_size" and "length a' = address_size"
    and "c = client_start now (opened_connection o1 i a lc o2 ud rh ch)" and "s = opened_connection o3 i a' ls o4 ud' rh' ch'"
  shows "\<exists>p0 p1 p2 p3 s1 c1 s2 c2. p0 \<in> set (sent_packets (c_out c)) \<and> s1 = deliver z u t0 p0 s
    \<and> p1 \<in> set (sent_packets (c_out s1)) \<and> c1 = deliver z u t1 p1 c
    \<and> p2 \<in> set (sent_packets (c_out c1)) \<and> s2 = deliver z u t2 p2 s1
    \<and> p3 \<in> set (sent_packets (c_out s2)) \<and> c2 = deliver z u t3 p3 c1
    \<and> waiting c2 = HANDSHAKE_COMPLETE \<and> waiting s2 = HANDSHAKE_COMPLETE \<and> (pair_step z u)\<^sup>*\<^sup>* (c, s) (c2, s2)"
  by (rule handshake_exchange [OF assms])

abbreviation example_client :: Connection where
  "example_client \<equiv> client_start 0 (opened_connection mrudp_default_connection_options (replicate 16 1) empty_address 9 None 7 True True)"

abbreviation example_server :: Connection where
  "example_server \<equiv> opened_connection mrudp_default_connection_options (replicate 16 1) empty_address 5 None 8 True True"

theorem handshake_completes_witness:
  "\<exists>p0 p1 p2 p3 s1 c1 s2 c2. p0 \<in> set (sent_packets (c_out example_client)) \<and> s1 = deliver (\<lambda>_ _ _. None) (\<lambda>_ _. []) 1 p0 example_server
    \<and> p1 \<in> set (sent_packets (c_out s1)) \<and> c1 = deliver (\<lambda>_ _ _. None) (\<lambda>_ _. []) 2 p1 example_client
    \<and> p2 \<in> set (sent_packets (c_out c1)) \<and> s2 = deliver (\<lambda>_ _ _. None) (\<lambda>_ _. []) 3 p2 s1
    \<and> p3 \<in> set (sent_packets (c_out s2)) \<and> c2 = deliver (\<lambda>_ _ _. None) (\<lambda>_ _. []) 4 p3 c1
    \<and> waiting c2 = HANDSHAKE_COMPLETE \<and> waiting s2 = HANDSHAKE_COMPLETE
    \<and> (pair_step (\<lambda>_ _ _. None) (\<lambda>_ _. []))\<^sup>*\<^sup>* (example_client, example_server) (c2, s2)"
  by (rule handshake_completes [OF _ _ _ refl refl]) (simp_all add: empty_address_def)

lemma empty_length: "length (replicate 16 (1 :: u8)) = 16" "length empty_address = address_size"
  by (simp_all add: empty_address_def)

theorem handshake_agreement_witness:
  "\<exists>c s. (pair_step (\<lambda>_ _ _. None) (\<lambda>_ _. []))\<^sup>*\<^sup>* (example_client, example_server) (c, s)
     \<and> waiting c = HANDSHAKE_COMPLETE \<and> c_remoteID c = c_localID s \<and> c_remoteID s = c_localID c"
proof -
  obtain c s where run: "(pair_step (\<lambda>_ _ _. None) (\<lambda>_ _. []))\<^sup>*\<^sup>* (example_client, example_server) (c, s)" and c: "waiting c = HANDSHAKE_COMPLETE"
    using handshake_exchange [OF _ _ _ refl refl, of "replicate 16 1" empty_address empty_address 0
      mrudp_default_connection_options 9 None 7 True True "\<lambda>_ _ _. None" "\<lambda>_ _. []" 1
      mrudp_default_connection_options 5 None 8 True True 2 3 4] empty_length by auto
  show ?thesis using handshake_agreement [OF _ run] run c by auto
qed

end
