(* ===== verification/Stream_Side.thy ===== *)
theory Stream_Side
  imports Handshake_Agreement
begin

text \<open>
  One end of a connection as the source of a stream. A ledger says which frames the end has numbered, which packets it has numbered and what
  each of them carries, which of the frames are known to the other end, and which packets may be acknowledged. Every
  handler keeps the connection in accordance with the ledger: a reliable packet carries frames of the stream, an ack names a packet
  that has been received, and a frame that the other end may not have is still in the send queue or in the retry window.
\<close>

section \<open>Ledger\<close>

record Ledger =
  lg_frames :: "Frame list"
  lg_seen :: "nat set"
  lg_acks :: "PacketID set"
  lg_done :: "PacketID set"
  lg_count :: nat
  lg_table :: "nat \<Rightarrow> TypeID \<times> nat list"

text \<open>
  \<open>lg_seen\<close> are the numbers of the frames the other end has, \<open>lg_acks\<close> the identifiers of packets of the other end that this end acknowledges,
  \<open>lg_done\<close> those of its own packets that the other end acknowledges. Packet \<open>k\<close> has the type and the frames \<open>lg_table\<close> says.
\<close>

definition reliable_types :: "TypeID set" where
  "reliable_types = {DATA_RELIABLE, PROBE, CLOSE_READ, H0, H2, AUTHENTICATE_CHALLENGE}"

definition payload :: "Ledger \<Rightarrow> nat list \<Rightarrow> bytes" where
  "payload L js = concat (map (\<lambda>j. enc_frame (lg_frames L ! j)) js)"

definition entry_ok :: "Ledger \<Rightarrow> nat \<Rightarrow> Packet \<Rightarrow> bool" where
  "entry_ok L k p \<longleftrightarrow> k < lg_count L \<and> pk_id p = of_nat k \<and> pk_type p = fst (lg_table L k) \<and> pk_type p \<in> reliable_types
     \<and> (pk_type p = DATA_RELIABLE \<longrightarrow> set (snd (lg_table L k)) \<subseteq> {..<length (lg_frames L)} \<and> pk_data p = payload L (snd (lg_table L k))
          \<and> length (pk_data p) \<le> MAX_PACKET_POST_FRAME_SIZE)"

definition ack_frame_ok :: "PacketID set \<Rightarrow> Frame \<Rightarrow> bool" where
  "ack_frame_ok A f \<longleftrightarrow> f_type f = DATA \<or> f_type f = ACK_FRAME \<and> (\<exists>i \<in> A. \<exists>d. f_data f = enc_ack i d)"

definition ack_packet_ok :: "PacketID set \<Rightarrow> Packet \<Rightarrow> bool" where
  "ack_packet_ok A p \<longleftrightarrow> carries p (frames_of p) \<and> length (pk_data p) \<le> MAX_PACKET_POST_FRAME_SIZE \<and> (\<forall>f \<in> set (frames_of p). ack_frame_ok A f)"

text \<open>A packet as it reaches the connection at the other end.\<close>

definition logical_ok :: "Ledger \<Rightarrow> Packet \<Rightarrow> bool" where
  "logical_ok L p \<longleftrightarrow> (pk_type p \<in> reliable_types \<longrightarrow> (\<exists>k. entry_ok L k p)) \<and> (isAck (pk_type p) \<longrightarrow> pk_id p \<in> lg_acks L)
     \<and> (pk_type p = DATA_UNRELIABLE \<longrightarrow> ack_packet_ok (lg_acks L) p)"

text \<open>The stream: consecutive identifiers, data or the end of writing.\<close>

definition stream_ok :: "Frame list \<Rightarrow> bool" where
  "stream_ok F \<longleftrightarrow> consecutive 0 F \<and> (\<forall>f \<in> set F. small_frame f \<and> (f_type f = DATA \<or> f_type f = CLOSE_WRITE \<and> f_data f = []))"

definition ledger_ok :: "Ledger \<Rightarrow> bool" where
  "ledger_ok L \<longleftrightarrow> stream_ok (lg_frames L)
     \<and> (\<forall>i \<in> lg_done L. \<exists>k < lg_count L. i = of_nat k \<and> (fst (lg_table L k) = DATA_RELIABLE \<longrightarrow> set (snd (lg_table L k)) \<subseteq> lg_seen L))"

section \<open>The invariant of an end\<close>

definition data_queue_ok :: "Frame list \<Rightarrow> Sender \<Rightarrow> bool" where
  "data_queue_ok F s \<longleftrightarrow> sq_inv (sn_dataQueue s) \<and> sq_buffer (sn_dataQueue s) = [] \<and> sq_nextID (sn_dataQueue s) = of_nat (length F)
     \<and> (\<exists>G. F = G @ sq_frames (sn_dataQueue s))
     \<and> (sq_status (sn_dataQueue s) = IS_CLOSED \<longrightarrow> sn_status s = CLOSED \<and> sq_queue (sn_dataQueue s) = [])"

definition ack_queue_ok :: "PacketID set \<Rightarrow> Sender \<Rightarrow> bool" where
  "ack_queue_ok A s \<longleftrightarrow> sq_inv (sn_unreliableDataQueue s) \<and> sq_buffer (sn_unreliableDataQueue s) = []
     \<and> (\<forall>f \<in> set (sq_frames (sn_unreliableDataQueue s)). ack_frame_ok A f) \<and> fst ` set (sn_delayedAcks s) \<subseteq> A"

definition window_entries_ok :: "Ledger \<Rightarrow> Retrier \<Rightarrow> bool" where
  "window_entries_ok L r \<longleftrightarrow> om_inv (re_window r) \<and> (\<forall>i retry. (i, retry) \<in> set (re_window r) \<longrightarrow>
     (\<exists>k < lg_count L. i = of_nat k \<and> (\<forall>pa \<in> set (rt_paths retry). entry_ok L k (fst pa))))"

text \<open>Where frame \<open>j\<close> is: with the other end, in the queue, or in a packet of the window. Unless the sender has failed, it is somewhere.\<close>

definition located :: "Ledger \<Rightarrow> Sender \<Rightarrow> nat \<Rightarrow> bool" where
  "located L s j \<longleftrightarrow> j \<in> lg_seen L \<or> length (lg_frames L) \<le> j + length (sq_frames (sn_dataQueue s))
     \<or> (\<exists>k < lg_count L. of_nat k \<in> fst ` set (re_window (sn_retrier s)) \<and> fst (lg_table L k) = DATA_RELIABLE \<and> j \<in> set (snd (lg_table L k)))"

definition covered :: "Ledger \<Rightarrow> Sender \<Rightarrow> bool" where
  "covered L s \<longleftrightarrow> (lg_count L \<le> 2 ^ 16 \<and> sq_status (sn_dataQueue s) = IS_OPEN \<longrightarrow>
     re_status (sn_retrier s) = IS_OPEN \<and> (\<forall>j < length (lg_frames L). located L s j))"

definition sender_ok :: "Ledger \<Rightarrow> Sender \<Rightarrow> bool" where
  "sender_ok L s \<longleftrightarrow> data_queue_ok (lg_frames L) s \<and> ack_queue_ok (lg_acks L) s \<and> window_entries_ok L (sn_retrier s)
     \<and> sn_packetID s = of_nat (lg_count L) \<and> covered L s"

definition plain_modes :: "ConnectionOptions \<Rightarrow> bool" where
  "plain_modes opts \<longleftrightarrow> co_mode (opt_coalesce_reliable opts) \<noteq> MRUDP_COALESCE_STREAM_COMPRESSED
     \<and> co_mode (opt_coalesce_unreliable opts) \<noteq> MRUDP_COALESCE_STREAM_COMPRESSED"

definition side :: "Ledger \<Rightarrow> Connection \<Rightarrow> bool" where
  "side L c \<longleftrightarrow> ledger_ok L \<and> length (c_id c) = 16 \<and> plain_modes (c_options c) \<and> sender_ok L (c_sender c)
     \<and> (\<forall>p \<in> set (sent_packets (c_out c)). logical_ok L (snd (getLookUp p)))"

text \<open>What the user has received of the reliable stream.\<close>

definition heard :: "Connection \<Rightarrow> bytes" where
  "heard c = concat (map (\<lambda>e. case e of UserReceive d bs r \<Rightarrow> if r = RELIABLE then bs else [] | _ \<Rightarrow> []) (c_out c))"

text \<open>An operation that does not receive leaves the receive queue and what the user has received alone.\<close>

definition quiet :: "Connection \<Rightarrow> Connection \<Rightarrow> bool" where
  "quiet c c' \<longleftrightarrow> rv_receiveQueue (c_receiver c') = rv_receiveQueue (c_receiver c) \<and> heard c' = heard c
     \<and> (c_receiveHandler c' \<longrightarrow> c_receiveHandler c)"

text \<open>The ledger grows with the packets that are numbered.\<close>

definition grows :: "Ledger \<Rightarrow> Ledger \<Rightarrow> bool" where
  "grows L L' \<longleftrightarrow> lg_count L \<le> lg_count L' \<and> (\<forall>k < lg_count L. lg_table L' k = lg_table L k)
     \<and> L' = L\<lparr>lg_count := lg_count L', lg_table := lg_table L'\<rparr>"

text \<open>An operation that numbers no packet, and one that may; a packet is numbered when it is sent for the first time.\<close>

abbreviation sent_count :: "Connection \<Rightarrow> nat" where
  "sent_count c \<equiv> length (sent_packets (c_out c))"

definition keeps :: "Ledger \<Rightarrow> Connection \<Rightarrow> Connection \<Rightarrow> bool" where
  "keeps L c c' \<longleftrightarrow> quiet c c' \<and> side L c' \<and> sent_count c \<le> sent_count c'"

definition side_step :: "Ledger \<Rightarrow> Connection \<Rightarrow> Connection \<Rightarrow> bool" where
  "side_step L c c' \<longleftrightarrow> quiet c c' \<and> (\<exists>L'. grows L L' \<and> side L' c' \<and> lg_count L' + sent_count c \<le> lg_count L + sent_count c')"

lemma grows_refl [simp]: "grows L L"
  by (simp add: grows_def)

lemma grows_trans: "grows L L' \<Longrightarrow> grows L' L'' \<Longrightarrow> grows L L''"
  unfolding grows_def by (metis (no_types, lifting) Ledger.ext_inject Ledger.surjective Ledger.update_convs(5,6) order_trans order_less_le_trans)

lemma grows_fields:
  assumes "grows L L'"
  shows "lg_frames L' = lg_frames L" "lg_seen L' = lg_seen L" "lg_acks L' = lg_acks L" "lg_done L' = lg_done L" "lg_count L \<le> lg_count L'"
    "k < lg_count L \<Longrightarrow> lg_table L' k = lg_table L k"
proof -
  obtain n T where "L' = L\<lparr>lg_count := n, lg_table := T\<rparr>" using assms unfolding grows_def by blast
  then show "lg_frames L' = lg_frames L" "lg_seen L' = lg_seen L" "lg_acks L' = lg_acks L" "lg_done L' = lg_done L" by simp_all
qed (use assms in \<open>simp_all add: grows_def\<close>)

lemma quiet_refl [simp]: "quiet c c"
  by (simp add: quiet_def)

lemma quiet_trans: "quiet a b \<Longrightarrow> quiet b c \<Longrightarrow> quiet a c"
  by (simp add: quiet_def)

lemma keeps_refl: "side L c \<Longrightarrow> keeps L c c"
  by (simp add: keeps_def)

lemma keeps_then: "keeps L a b \<Longrightarrow> (side L b \<Longrightarrow> keeps L b c) \<Longrightarrow> keeps L a c"
  unfolding keeps_def by (meson quiet_trans order_trans)

lemma keeps_if: "keeps L a b \<Longrightarrow> keeps L a c \<Longrightarrow> keeps L a (if P then b else c)"
  by simp

lemma keeps_fold:
  assumes "side L c" and "\<And>x c. x \<in> set xs \<Longrightarrow> side L c \<Longrightarrow> keeps L c (f x c)"
  shows "keeps L c (fold f xs c)"
  using assms
proof (induction xs arbitrary: c)
  case (Cons x xs)
  have "keeps L c (f x c)" using Cons.prems by simp
  then have "keeps L c (fold f xs (f x c))" by (rule keeps_then) (use Cons in simp)
  then show ?case by simp
qed (simp add: keeps_refl)

lemma keeps_step: "keeps L c c' \<Longrightarrow> side_step L c c'"
  by (auto simp: side_step_def keeps_def intro: exI [of _ L])

lemma side_step_refl: "side L c \<Longrightarrow> side_step L c c"
  by (rule keeps_step [OF keeps_refl])

lemma side_step_then:
  assumes "side_step L a b" and "\<And>L'. grows L L' \<Longrightarrow> side L' b \<Longrightarrow> side_step L' b c"
  shows "side_step L a c"
proof -
  obtain L1 where 1: "quiet a b" "grows L L1" "side L1 b" "lg_count L1 + sent_count a \<le> lg_count L + sent_count b"
    using assms(1) by (auto simp: side_step_def)
  obtain L2 where 2: "quiet b c" "grows L1 L2" "side L2 c" "lg_count L2 + sent_count b \<le> lg_count L1 + sent_count c"
    using assms(2) [OF 1(2,3)] by (auto simp: side_step_def)
  show ?thesis using quiet_trans [OF 1(1) 2(1)] grows_trans [OF 1(2) 2(2)] 2(3) 1(4) 2(4)
    unfolding side_step_def by (intro conjI exI [of _ L2]) auto
qed

lemma side_step_if: "side_step L a b \<Longrightarrow> side_step L a c \<Longrightarrow> side_step L a (if P then b else c)"
  by simp

lemma side_step_fold:
  assumes "side L c" and "\<And>L' x c. grows L L' \<Longrightarrow> x \<in> set xs \<Longrightarrow> side L' c \<Longrightarrow> side_step L' c (f x c)"
  shows "side_step L c (fold f xs c)"
  using assms
proof (induction xs arbitrary: L c)
  case (Cons x xs)
  have "side_step L c (f x c)" using Cons.prems by simp
  then have "side_step L c (fold f xs (f x c))"
    by (rule side_step_then) (rule Cons.IH, assumption, use Cons.prems(2) grows_trans in \<open>metis list.set_intros(2)\<close>)
  then show ?case by simp
qed (simp add: side_step_refl)

section \<open>What does not matter\<close>

lemma entry_ok_grows: "grows L L' \<Longrightarrow> entry_ok L k p \<Longrightarrow> entry_ok L' k p"
  using grows_fields [of L L'] by (auto simp: entry_ok_def payload_def)

lemma logical_ok_grows: "grows L L' \<Longrightarrow> logical_ok L p \<Longrightarrow> logical_ok L' p"
  using entry_ok_grows grows_fields(3) unfolding logical_ok_def by metis

lemma ledger_ok_grows: "grows L L' \<Longrightarrow> ledger_ok L \<Longrightarrow> ledger_ok L'"
  unfolding ledger_ok_def using grows_fields [of L L'] by (metis order_less_le_trans)

text \<open>Two senders that differ in their timing only.\<close>

definition same_sender :: "Sender \<Rightarrow> Sender \<Rightarrow> bool" where
  "same_sender s s' \<longleftrightarrow> sn_status s' = sn_status s \<and> sn_packetID s' = sn_packetID s \<and> sn_retrier s' = sn_retrier s \<and> sn_dataQueue s' = sn_dataQueue s
     \<and> sn_unreliableDataQueue s' = sn_unreliableDataQueue s \<and> sn_delayedAcks s' = sn_delayedAcks s"

lemma sender_ok_same: "same_sender s s' \<Longrightarrow> sender_ok L s \<Longrightarrow> sender_ok L s'"
  by (simp add: same_sender_def sender_ok_def data_queue_ok_def ack_queue_ok_def covered_def located_def)

definition same_side :: "Connection \<Rightarrow> Connection \<Rightarrow> bool" where
  "same_side c c' \<longleftrightarrow> c_id c' = c_id c \<and> opt_coalesce_reliable (c_options c') = opt_coalesce_reliable (c_options c)
     \<and> opt_coalesce_unreliable (c_options c') = opt_coalesce_unreliable (c_options c) \<and> sent_packets (c_out c') = sent_packets (c_out c)"

lemma side_same:
  assumes "side L c" and "same_side c c'" and "sender_ok L (c_sender c')"
  shows "side L c'"
  using assms by (simp add: side_def same_side_def plain_modes_def)

lemma keeps_same:
  assumes "side L c" and "same_side c c'" and "same_sender (c_sender c) (c_sender c')" and "quiet c c'"
  shows "keeps L c c'"
  using assms sender_ok_same side_same [OF assms(1,2)] by (auto simp: keeps_def side_def same_side_def)

lemma sent_packets_simps [simp]:
  "sent_packets [] = []" "sent_packets [SocketSend p a] = [p]" "sent_packets [SetTimeout t w] = []" "sent_packets [UserReceive d bs r] = []"
  "sent_packets [UserClose d ev] = []" "sent_packets [SocketErase] = []" "sent_packets [RemoteAddressChanged] = []" "sent_packets [OverRead] = []"
  by (simp_all add: sent_packets_def)

lemma heard_emit:
  "heard (emit e c) = heard c @ (case e of UserReceive d bs r \<Rightarrow> if r = RELIABLE then bs else [] | _ \<Rightarrow> [])"
  by (simp add: heard_def emit_def)

definition silent :: "effect \<Rightarrow> bool" where
  "silent e \<longleftrightarrow> (case e of SocketSend p a \<Rightarrow> False | UserReceive d bs r \<Rightarrow> r \<noteq> RELIABLE | _ \<Rightarrow> True)"

lemma silent_simps [simp]:
  "silent (SetTimeout t w)" "silent (UserClose d ev)" "silent SocketErase" "silent RemoteAddressChanged" "silent OverRead"
  "silent (UserReceive d bs r) = (r \<noteq> RELIABLE)"
  by (simp_all add: silent_def)

lemma emit_keeps: "side L c \<Longrightarrow> silent e \<Longrightarrow> keeps L c (emit e c)"
  by (rule keeps_same)
    (auto simp: same_side_def same_sender_def quiet_def heard_emit silent_def, auto simp: emit_def split: effect.splits)

text \<open>Updates of fields that carry nothing of the stream.\<close>

lemma upd_keeps:
  "side L c \<Longrightarrow> keeps L c (c\<lparr>c_statistics := st\<rparr>)"
  "side L c \<Longrightarrow> keeps L c (c\<lparr>c_probe := pr\<rparr>)"
  "side L c \<Longrightarrow> keeps L c (c\<lparr>c_handshake := h\<rparr>)"
  "side L c \<Longrightarrow> keeps L c (c\<lparr>c_remoteID := i\<rparr>)"
  "side L c \<Longrightarrow> keeps L c (c\<lparr>c_remoteAddress := a\<rparr>)"
  "side L c \<Longrightarrow> keeps L c (c\<lparr>c_closeReason := ev\<rparr>)"
  "side L c \<Longrightarrow> keeps L c (c\<lparr>c_closed := b\<rparr>)"
  by (rule keeps_same, assumption, simp_all add: same_side_def same_sender_def quiet_def heard_def)+

lemma set_rv_status_keeps: "side L c \<Longrightarrow> keeps L c (set_rv_status st c)"
  by (rule keeps_same) (simp_all add: set_rv_status_def same_side_def same_sender_def quiet_def heard_def)

lemma set_schedule_keeps: "side L c \<Longrightarrow> keeps L c (set_schedule r s c)"
  by (rule keeps_same) (simp_all add: set_schedule_def same_side_def same_sender_def quiet_def heard_def)

lemma set_timeout_keeps: "side L c \<Longrightarrow> keeps L c (set_timeout t w c)"
  by (simp add: set_timeout_def emit_keeps keeps_refl split: option.splits)

lemma registerTimeout_keeps: "side L c \<Longrightarrow> keeps L c (registerTimeout t c)"
  unfolding registerTimeout_def Let_def
  by (intro keeps_if keeps_then [OF keeps_then [OF upd_keeps(2) upd_keeps(2)] emit_keeps] upd_keeps(2)) simp_all

lemma probe_on_keeps: "side L c \<Longrightarrow> keeps L c (probe_on now c)"
  unfolding probe_on_def Let_def recalculateProbeTimeout_def
  by (rule keeps_then [OF upd_keeps(2) registerTimeout_keeps])

lemma probe_close_keeps: "side L c \<Longrightarrow> keeps L c (probe_close c)"
  unfolding probe_close_def by (rule upd_keeps(2))

section \<open>Sending a packet\<close>

text \<open>The identifier a packet carries while the other end's is not known is taken off again on arrival.\<close>

lemma lookup_of_sent:
  assumes "length cid = 16" and "p' = (let p1 = set_connection rid p in if h_connection (pk_header p1) = 0 then snd (pushT p1 cid) else p1)"
  shows "pk_type (snd (getLookUp p')) = pk_type p" "pk_id (snd (getLookUp p')) = pk_id p"
    "length (pk_data p) \<le> MAX_PACKET_POST_FRAME_SIZE \<Longrightarrow> pk_data (snd (getLookUp p')) = pk_data p"
proof -
  let ?p = "set_connection rid p"
  have conn: "h_connection (pk_header ?p) = rid" by (simp add: set_connection_def)
  have id: "pk_id (snd (pushT ?p cid)) = pk_id p" by (simp add: pk_id_def) (simp add: set_connection_def)
  have pop: "pk_type q' = pk_type q \<and> pk_id q' = pk_id q" if "popData q n = Some (bs, q')" for q n bs q'
    using that by (auto simp: popData_def pk_type_def pk_id_def Let_def split: if_splits)
  show "pk_type (snd (getLookUp p')) = pk_type p" "pk_id (snd (getLookUp p')) = pk_id p"
    using assms(2) id pop by (auto simp: getLookUp_def Let_def split: option.splits dest!: pop)
  assume small: "length (pk_data p) \<le> MAX_PACKET_POST_FRAME_SIZE"
  show "pk_data (snd (getLookUp p')) = pk_data p"
  proof (cases "rid = 0")
    case True
    have "pk_data (snd (pushT ?p cid)) = pk_data p @ cid" using small assms(1) pushT_small [of ?p cid] by simp
    then have "popData (snd (pushT ?p cid)) 16 = Some (cid, (snd (pushT ?p cid))\<lparr>pk_data := pk_data p\<rparr>)"
      using assms(1) by (simp add: popData_def dataSize_def Let_def)
    with True assms(2) conn show ?thesis by (simp add: getLookUp_def Let_def)
  qed (use assms(2) conn in \<open>simp add: getLookUp_def Let_def\<close>)
qed

lemma logical_ok_cong:
  assumes "logical_ok L p" and "pk_type q = pk_type p" and "pk_id q = pk_id p"
    and "length (pk_data p) \<le> MAX_PACKET_POST_FRAME_SIZE \<Longrightarrow> pk_data q = pk_data p"
  shows "logical_ok L q"
proof -
  have "entry_ok L k q" if "entry_ok L k p" for k using that assms(2-4) unfolding entry_ok_def by metis
  moreover have "ack_packet_ok (lg_acks L) q" if "ack_packet_ok (lg_acks L) p"
    using that assms(4) by (simp add: ack_packet_ok_def carries_def frames_of_def urq_onReceive_def)
  ultimately show ?thesis using assms(1-3) unfolding logical_ok_def by metis
qed

lemma send_packet_keeps:
  assumes "side L c" and "logical_ok L p"
  shows "keeps L c (send_packet now p a c)"
proof -
  define p' where "p' = (let p1 = set_connection (c_remoteID c) p in if h_connection (pk_header p1) = 0 then snd (pushT p1 (c_id c)) else p1)"
  have "length (c_id c) = 16" using assms(1) by (simp add: side_def)
  note l = lookup_of_sent [OF this p'_def]
  have "logical_ok L (snd (getLookUp p'))" by (rule logical_ok_cong [OF assms(2) l(1,2)]) (rule l(3))
  then have "side L (emit (SocketSend p' a) c)"
    using assms(1) by (auto simp: side_def) (auto simp: emit_def)
  moreover have "quiet c (emit (SocketSend p' a) c)" by (simp add: quiet_def heard_emit)
  moreover have "sent_count c \<le> sent_count (emit (SocketSend p' a) c)" by (simp add: emit_def)
  ultimately have "keeps L c (emit (SocketSend p' a) c)" by (simp add: keeps_def)
  then have "keeps L c (probe_on now (emit (SocketSend p' a) c))" by (rule keeps_then) (rule probe_on_keeps)
  then show ?thesis by (simp add: send_packet_def p'_def Let_def)
qed

lemma conn_send_keeps:
  assumes "side L c" and "logical_ok L p"
  shows "keeps L c (conn_send now p a c)"
proof (cases "ho_onSend (c_options c) p")
  case None
  then show ?thesis using assms(1) by (simp add: conn_send_def upd_keeps)
next
  case (Some p1)
  have "logical_ok L p1"
  proof (cases "pk_type p = H3")
    case True
    then have "pk_type p1 = pk_type p" "pk_id p1 = pk_id p"
      using Some by (auto simp: ho_onSend_def pushT_def pushData_def pk_type_def pk_id_def Let_def split: if_splits prod.splits)
    with True assms(2) show ?thesis by (simp add: logical_ok_def reliable_types_def)
  qed (use Some assms(2) in \<open>simp add: ho_onSend_def\<close>)
  then have "keeps L c (send_packet now p1 a (c\<lparr>c_statistics := stat_onSend p (c_statistics c)\<rparr>))"
    by (intro keeps_then [OF upd_keeps(1) [OF assms(1)] send_packet_keeps])
  then show ?thesis using Some by (simp add: conn_send_def)
qed

lemma resend_keeps: "side L c \<Longrightarrow> logical_ok L p \<Longrightarrow> keeps L c (resend now p a c)"
  unfolding resend_def Let_def by (rule keeps_then [OF send_packet_keeps upd_keeps(1)])

text \<open>Each packet that is sent is one more on its way.\<close>

lemma sent_count_probe_on [simp]: "sent_packets (c_out (probe_on now c)) = sent_packets (c_out c)"
  by (simp add: probe_on_def registerTimeout_def recalculateProbeTimeout_def Let_def emit_def)

lemma sent_count_conn_send: "pk_type p \<noteq> H3 \<Longrightarrow> length (sent_packets (c_out (conn_send now p a c))) = Suc (length (sent_packets (c_out c)))"
  by (simp add: conn_send_def ho_onSend_def send_packet_def Let_def emit_def)

section \<open>The retry window\<close>

lemma entry_logical: "entry_ok L k p \<Longrightarrow> logical_ok L p"
  by (auto simp: logical_ok_def entry_ok_def reliable_types_def isAck_def)

text \<open>A change of the retrier that keeps the identifiers and the packets.\<close>

definition same_window :: "Retrier \<Rightarrow> Retrier \<Rightarrow> bool" where
  "same_window r r' \<longleftrightarrow> re_status r' = re_status r \<and> om_inv (re_window r') \<and> fst ` set (re_window r') = fst ` set (re_window r)
     \<and> (\<forall>i retry'. (i, retry') \<in> set (re_window r') \<longrightarrow> (\<exists>retry. (i, retry) \<in> set (re_window r) \<and> rt_paths retry' = rt_paths retry))"

lemma same_window_refl: "om_inv (re_window r) \<Longrightarrow> same_window r r"
  by (auto simp: same_window_def)

lemma same_window_ok: "same_window r r' \<Longrightarrow> window_entries_ok L r \<Longrightarrow> window_entries_ok L r'"
  unfolding same_window_def window_entries_ok_def by metis

lemma same_window_set_retry:
  assumes "om_inv (re_window r)" and "(i, retry) \<in> set (re_window r)" and "rt_paths retry' = rt_paths retry"
  shows "same_window r (set_retry i retry' r)"
  using assms by (auto simp: same_window_def set_retry_def om.om_invs set_om_assign image_iff dest!: set_om_assign_sub) force+

lemma same_window_recalculate: "om_inv (re_window r) \<Longrightarrow> same_window r (snd (recalculateRetryTimeout rtt r))"
  by (auto simp: recalculateRetryTimeout_def Let_def split: option.splits
      intro!: same_window_refl same_window_set_retry dest: getNextRetry_in_window)

lemma covered_same_window: "same_window (sn_retrier s) r \<Longrightarrow> covered L s \<Longrightarrow> covered L (s\<lparr>sn_retrier := r\<rparr>)"
  by (simp add: covered_def located_def same_window_def)

lemma sender_ok_same_window: "same_window (sn_retrier s) r \<Longrightarrow> sender_ok L s \<Longrightarrow> sender_ok L (s\<lparr>sn_retrier := r\<rparr>)"
  using same_window_ok covered_same_window by (simp add: sender_ok_def data_queue_ok_def ack_queue_ok_def)

lemma set_sender_keeps:
  assumes "side L c" and "sender_ok L s"
  shows "keeps L c (c\<lparr>c_sender := s\<rparr>)"
  using assms side_same [OF assms(1), of "c\<lparr>c_sender := s\<rparr>"] by (simp add: keeps_def same_side_def quiet_def heard_def)

lemma sideD:
  assumes "side L c"
  shows "ledger_ok L" "length (c_id c) = 16" "plain_modes (c_options c)" "sender_ok L (c_sender c)" "om_inv (re_window (sn_retrier (c_sender c)))"
    "data_queue_ok (lg_frames L) (c_sender c)" "ack_queue_ok (lg_acks L) (c_sender c)" "window_entries_ok L (sn_retrier (c_sender c))"
    "covered L (c_sender c)"
  using assms by (auto simp: side_def sender_ok_def window_entries_ok_def)

lemma conn_recalculate_keeps: "side L c \<Longrightarrow> keeps L c (conn_recalculateRetryTimeout c)"
  unfolding conn_recalculateRetryTimeout_def case_prod_beta Let_def
  by (intro keeps_then [OF set_sender_keeps set_timeout_keeps] sender_ok_same_window same_window_recalculate)
    (simp_all add: sideD)

lemma set_retry_keeps:
  assumes "side L c" and "(i, retry) \<in> set (re_window (sn_retrier (c_sender c)))" and "rt_paths retry' = rt_paths retry"
  shows "keeps L c (c\<lparr>c_sender := (c_sender c)\<lparr>sn_retrier := set_retry i retry' (sn_retrier (c_sender c))\<rparr>\<rparr>)"
  using assms by (intro set_sender_keeps sender_ok_same_window same_window_set_retry [OF sideD(5)]) (simp_all add: sideD)

section \<open>Reliable sending\<close>

text \<open>The ledger with one more packet.\<close>

definition enter :: "TypeID \<Rightarrow> nat list \<Rightarrow> Ledger \<Rightarrow> Ledger" where
  "enter t js L = L\<lparr>lg_count := Suc (lg_count L), lg_table := (lg_table L)(lg_count L := (t, js))\<rparr>"

lemma grows_enter: "grows L (enter t js L)"
  by (simp add: grows_def enter_def)

lemma enter_simps [simp]:
  "lg_count (enter t js L) = Suc (lg_count L)" "lg_frames (enter t js L) = lg_frames L" "lg_seen (enter t js L) = lg_seen L"
  "lg_acks (enter t js L) = lg_acks L" "lg_table (enter t js L) (lg_count L) = (t, js)" "payload (enter t js L) is = payload L is"
  by (simp_all add: enter_def payload_def)

text \<open>While a packet is on its way from the queue to the window its frames are in hand.\<close>

definition hold :: "nat set \<Rightarrow> Ledger \<Rightarrow> Ledger" where
  "hold J L = L\<lparr>lg_seen := lg_seen L \<union> J\<rparr>"

lemma hold_simps [simp]:
  "lg_frames (hold J L) = lg_frames L" "lg_acks (hold J L) = lg_acks L" "lg_count (hold J L) = lg_count L" "lg_table (hold J L) = lg_table L"
  "lg_seen (hold J L) = lg_seen L \<union> J" "hold {} L = L" "payload (hold J L) = payload L"
  by (simp_all add: hold_def fun_eq_iff payload_def)

lemma entry_ok_hold [simp]: "entry_ok (hold J L) = entry_ok L" and logical_ok_hold [simp]: "logical_ok (hold J L) = logical_ok L"
  by (simp_all add: fun_eq_iff entry_ok_def logical_ok_def)

lemma window_entries_hold [simp]: "window_entries_ok (hold J L) r = window_entries_ok L r"
  by (simp add: window_entries_ok_def)

lemma window_entries_grows:
  assumes "grows L L'" and "window_entries_ok L r"
  shows "window_entries_ok L' r"
  unfolding window_entries_ok_def
proof (intro conjI allI impI)
  fix i retry assume "(i, retry) \<in> set (re_window r)"
  then obtain k where "k < lg_count L" "i = of_nat k" "\<forall>pa \<in> set (rt_paths retry). entry_ok L k (fst pa)"
    using assms(2) unfolding window_entries_ok_def by blast
  then show "\<exists>k < lg_count L'. i = of_nat k \<and> (\<forall>pa \<in> set (rt_paths retry). entry_ok L' k (fst pa))"
    using grows_fields(5) [OF assms(1)] entry_ok_grows [OF assms(1)] by (intro exI [of _ k]) auto
qed (use assms(2) in \<open>simp add: window_entries_ok_def\<close>)

lemma re_insert_window:
  assumes "om_inv (re_window r)" and "re_status r = IS_OPEN"
  shows "re_status (snd (re_insert rtt paths now priority r)) = IS_OPEN"
    and "fst ` set (re_window (snd (re_insert rtt paths now priority r))) = insert (paths_id paths) (fst ` set (re_window r))"
proof -
  define r1 where "r1 = r\<lparr>re_window := om_emplace (paths_id paths)
      \<lparr>rt_paths = paths, rt_sentAt = now, rt_retryAt = 0, rt_attempts = 0, rt_priority = priority\<rparr> (re_window r),
    re_priority := (if priority then om_emplace (paths_id paths) () (re_priority r) else re_priority r)\<rparr>"
  have inv: "om_inv (re_window r1)" using assms(1) by (simp add: r1_def om.om_invs)
  have eq: "snd (re_insert rtt paths now priority r) = (if re_window r = [] \<or> priority then snd (recalculateRetryTimeout rtt r1) else r1)"
    using assms(2) by (simp add: re_insert_def r1_def Let_def)
  have "same_window r1 (snd (re_insert rtt paths now priority r))"
    unfolding eq using same_window_recalculate [OF inv] same_window_refl [OF inv] by simp
  then show "re_status (snd (re_insert rtt paths now priority r)) = IS_OPEN"
    and "fst ` set (re_window (snd (re_insert rtt paths now priority r))) = insert (paths_id paths) (fst ` set (re_window r))"
    using assms(2) by (simp_all add: same_window_def r1_def set_om_emplace)
qed

lemma re_insert_entries:
  assumes "window_entries_ok L r" and "paths_id paths = of_nat k" and "k < lg_count L" and "\<forall>pa \<in> set paths. entry_ok L k (fst pa)"
  shows "window_entries_ok L (snd (re_insert rtt paths now priority r))"
proof -
  have ok: "window_entries_ok L r1" if "re_window r1 = om_emplace (paths_id paths) retry (re_window r)" "rt_paths retry = paths" for r1 retry
    using assms that by (auto simp: window_entries_ok_def om.om_invs dest!: set_om_emplace_sub)
  have "window_entries_ok L (snd (recalculateRetryTimeout rtt r1))" if "window_entries_ok L r1" for r1
    using that by (intro same_window_ok [OF same_window_recalculate]) (simp_all add: window_entries_ok_def)
  with ok assms(1) show ?thesis by (simp add: re_insert_def Let_def)
qed

lemma located_window:
  "k < lg_count L \<Longrightarrow> of_nat k \<in> fst ` set (re_window (sn_retrier s)) \<Longrightarrow> fst (lg_table L k) = DATA_RELIABLE \<Longrightarrow> j \<in> set (snd (lg_table L k))
    \<Longrightarrow> located L s j"
  unfolding located_def by blast

lemma located_enter:
  assumes "located (hold J L) s j" and "J \<subseteq> (if t = DATA_RELIABLE then set js else {})" and "sn_dataQueue s' = sn_dataQueue s"
    and "fst ` set (re_window (sn_retrier s')) = insert (of_nat (lg_count L)) (fst ` set (re_window (sn_retrier s)))"
  shows "located (enter t js L) s' j"
proof -
  have J: "j \<in> J \<Longrightarrow> t = DATA_RELIABLE \<and> j \<in> set js" using assms(2) by (cases "t = DATA_RELIABLE") auto
  consider (seen) "j \<in> lg_seen L" | (held) "t = DATA_RELIABLE" "j \<in> set js" | (queue) "length (lg_frames L) \<le> j + length (sq_frames (sn_dataQueue s))"
    | (window) k where "k < lg_count L" "of_nat k \<in> fst ` set (re_window (sn_retrier s))" "fst (lg_table L k) = DATA_RELIABLE" "j \<in> set (snd (lg_table L k))"
    using assms(1) J unfolding located_def hold_simps by blast
  then show ?thesis
  proof cases
    case held
    then show ?thesis using assms(4) by (intro located_window [of "lg_count L"]) (simp_all del: DATA_RELIABLE_def)
  next
    case (window k)
    then show ?thesis using assms(4) grows_fields(6) [OF grows_enter window(1), of t js]
      by (intro located_window [of k]) (simp_all del: DATA_RELIABLE_def)
  qed (simp_all add: located_def assms(3))
qed

lemma sender_ok_enter:
  assumes "sender_ok (hold J L) s" and "ledger_ok L" and "paths_id paths = of_nat (lg_count L)"
    and "\<forall>pa \<in> set paths. entry_ok (enter t js L) (lg_count L) (fst pa)" and "J \<subseteq> (if t = DATA_RELIABLE then set js else {})"
  shows "sender_ok (enter t js L) (s\<lparr>sn_packetID := sn_packetID s + 1, sn_retrier := snd (re_insert rtt paths now priority (sn_retrier s))\<rparr>)"
    (is "sender_ok ?L ?s")
proof -
  let ?r = "snd (re_insert rtt paths now priority (sn_retrier s))"
  have old: "window_entries_ok L (sn_retrier s)" using assms(1) by (simp add: sender_ok_def)
  have "window_entries_ok ?L ?r"
    by (rule re_insert_entries [OF window_entries_grows [OF grows_enter old] assms(3) _ assms(4)]) simp
  moreover have "covered ?L ?s"
  proof (cases "lg_count ?L \<le> 2 ^ 16 \<and> sq_status (sn_dataQueue s) = IS_OPEN")
    case True
    have "covered (hold J L) s" using assms(1) by (simp add: sender_ok_def)
    then have c: "re_status (sn_retrier s) = IS_OPEN" "\<forall>j < length (lg_frames L). located (hold J L) s j"
      using True by (simp_all add: covered_def)
    have w: "re_status ?r = IS_OPEN" "fst ` set (re_window ?r) = insert (of_nat (lg_count L)) (fst ` set (re_window (sn_retrier s)))"
      using re_insert_window [OF _ c(1)] old assms(3) by (simp_all add: window_entries_ok_def)
    have "located ?L ?s j" if "j < length (lg_frames L)" for j
      by (rule located_enter [OF _ assms(5)]) (use c(2) that w(2) in simp_all)
    with w(1) show ?thesis by (simp add: covered_def)
  next
    case False
    then have "\<not> (lg_count ?L \<le> 2 ^ 16 \<and> sq_status (sn_dataQueue ?s) = IS_OPEN)" by simp
    then show ?thesis unfolding covered_def by blast
  qed
  moreover have "data_queue_ok (lg_frames ?L) ?s" using assms(1) by (simp add: sender_ok_def data_queue_ok_def)
  moreover have "ack_queue_ok (lg_acks ?L) ?s" using assms(1) by (simp add: sender_ok_def ack_queue_ok_def)
  moreover have "sn_packetID s = of_nat (lg_count L)" using assms(1) by (simp add: sender_ok_def)
  ultimately show ?thesis unfolding sender_ok_def by simp
qed

lemma send_paths_keeps:
  assumes "side L c" and "\<forall>pa \<in> set paths. logical_ok L (fst pa)"
  shows "keeps L c (send_paths now paths c)"
  unfolding send_paths_def using assms by (intro keeps_fold) (auto simp: case_prod_beta intro: conn_send_keeps)

lemma sent_count_send_paths:
  "\<forall>pa \<in> set paths. pk_type (fst pa) \<noteq> H3 \<Longrightarrow> sent_count (send_paths now paths c) = sent_count c + length paths"
  unfolding send_paths_def by (induction paths arbitrary: c) (auto simp: sent_count_conn_send)

text \<open>What \<^verbatim>\<open>sendReliablyMultipath\<close> may be given: packets of one reliable type, with frames of the stream if it is data.\<close>

definition paths_enter :: "Ledger \<Rightarrow> TypeID \<Rightarrow> nat list \<Rightarrow> MultiPacketPath \<Rightarrow> bool" where
  "paths_enter L t js paths \<longleftrightarrow> paths \<noteq> [] \<and> t \<in> reliable_types \<and> (\<forall>pa \<in> set paths. pk_type (fst pa) = t)
     \<and> (t = DATA_RELIABLE \<longrightarrow> set js \<subseteq> {..<length (lg_frames L)}
          \<and> (\<forall>pa \<in> set paths. pk_data (fst pa) = payload L js \<and> length (pk_data (fst pa)) \<le> MAX_PACKET_POST_FRAME_SIZE))"

lemma paths_enter_entry:
  assumes "paths_enter L t js paths" and "pa \<in> set (map (\<lambda>(p, a). (set_id (of_nat (lg_count L)) p, a)) paths)"
  shows "entry_ok (enter t js L) (lg_count L) (fst pa)"
proof -
  obtain qa where "qa \<in> set paths" "fst pa = set_id (of_nat (lg_count L)) (fst qa)" using assms(2) by auto
  moreover have "pk_id (set_id i p) = i" "pk_data (set_id i p) = pk_data p" for i p by (simp_all add: set_id_def pk_id_def)
  ultimately show ?thesis using assms(1) by (auto simp: entry_ok_def paths_enter_def)
qed

lemma sendReliablyMultipath_side:
  assumes "side (hold J L) c" and "ledger_ok L" and "paths_enter L t js paths" and "J \<subseteq> (if t = DATA_RELIABLE then set js else {})"
  shows "side_step L c (sendReliablyMultipath now paths priority c)"
proof -
  define n where "n = lg_count L"
  define L' where "L' = enter t js L"
  define ps where "ps = map (\<lambda>(p, a). (set_id (of_nat n) p, a)) paths"
  define c1 where "c1 = c\<lparr>c_sender := (c_sender c)\<lparr>sn_packetID := sn_packetID (c_sender c) + 1,
    sn_retrier := snd (re_insert (sn_rtt (c_sender c)) ps now priority (sn_retrier (c_sender c)))\<rparr>\<rparr>"
  have id: "sn_packetID (c_sender c) = of_nat n" using assms(1) by (simp add: side_def sender_ok_def n_def)
  have "pk_id (set_id i p) = i" for i p by (simp add: set_id_def pk_id_def)
  then have pid: "paths_id ps = of_nat n" using assms(3) by (cases paths) (auto simp: ps_def paths_id_def paths_enter_def)
  have entries: "\<forall>pa \<in> set ps. entry_ok L' n (fst pa)" using paths_enter_entry [OF assms(3)] by (simp add: ps_def n_def L'_def)
  have "sender_ok L' (c_sender c1)"
    using sender_ok_enter [OF _ assms(2) pid [unfolded n_def] entries [unfolded n_def L'_def] assms(4)] assms(1)
    by (simp add: c1_def L'_def side_def)
  moreover have "ledger_ok L'" "\<forall>p \<in> set (sent_packets (c_out c)). logical_ok L' (snd (getLookUp p))"
    using assms(1,2) ledger_ok_grows [OF grows_enter] logical_ok_grows [OF grows_enter] by (simp_all add: side_def L'_def)
  ultimately have "side L' c1" using assms(1) by (simp add: side_def c1_def)
  then have k: "keeps L' c1 (send_paths now ps (set_timeout RetryTimeout tm c1))" for tm
    using entries entry_logical by (intro keeps_then [OF set_timeout_keeps send_paths_keeps]) blast+
  have n: "Suc (sent_count c) \<le> sent_count (send_paths now ps (set_timeout RetryTimeout tm c1))" for tm
  proof -
    have "Suc 0 \<le> length ps" using assms(3) by (cases paths) (simp_all add: ps_def paths_enter_def)
    moreover have "\<forall>pa \<in> set ps. pk_type (fst pa) \<noteq> H3" using entries by (auto simp: entry_ok_def reliable_types_def)
    moreover have "sent_count (set_timeout RetryTimeout tm c1) = sent_count c" by (simp add: set_timeout_def emit_def c1_def split: option.splits)
    ultimately show ?thesis by (simp add: sent_count_send_paths)
  qed
  have q: "quiet c c1" by (simp add: quiet_def c1_def heard_def)
  have "side_step L c (send_paths now ps (set_timeout RetryTimeout tm c1))" for tm
    unfolding side_step_def
  proof (intro conjI exI [of _ L'])
    show "quiet c (send_paths now ps (set_timeout RetryTimeout tm c1))" using q k [of tm] quiet_trans by (simp add: keeps_def)
    show "grows L L'" unfolding L'_def by (rule grows_enter)
    show "side L' (send_paths now ps (set_timeout RetryTimeout tm c1))" using k [of tm] by (simp add: keeps_def)
    show "lg_count L' + sent_count c \<le> lg_count L + sent_count (send_paths now ps (set_timeout RetryTimeout tm c1))"
      using n [of tm] by (simp add: L'_def)
  qed
  then show ?thesis
    by (simp add: sendReliablyMultipath_def conn_insert_def case_prod_beta Let_def id c1_def ps_def)
qed

lemma control_side:
  assumes "side L c" and "pk_type p \<in> reliable_types" and "pk_type p \<noteq> DATA_RELIABLE"
  shows "side_step L c (sendReliably now p a c)"
  unfolding sendReliably_def using assms
  by (intro sendReliablyMultipath_side [where J = "{}" and t = "pk_type p" and js = "[]"]) (simp_all add: sideD paths_enter_def)

section \<open>The data queue\<close>

lemma data_dequeue:
  assumes "data_queue_ok F s" and "sq_dequeue z level (sn_dataQueue s) = (r, q)"
  shows "r = None \<Longrightarrow> q = sn_dataQueue s"
    and "r = Some p \<Longrightarrow> good_packet p \<and> sq_frames (sn_dataQueue s) = frames_of p @ sq_frames q \<and> sq_status q = sq_status (sn_dataQueue s)
      \<and> data_queue_ok F (s\<lparr>sn_dataQueue := q\<rparr>)"
proof -
  have b: "sq_buffer (sn_dataQueue s) = []" "sq_inv (sn_dataQueue s)" using assms(1) by (simp_all add: data_queue_ok_def)
  show "r = None \<Longrightarrow> q = sn_dataQueue s" using assms(2) b by (auto simp: sq_dequeue_def Let_def split: if_splits list.splits)
  assume "r = Some p"
  then obtain rest where q: "sq_queue (sn_dataQueue s) = p # rest" "q = (sn_dataQueue s)\<lparr>sq_queue := rest\<rparr>"
    using assms(2) b by (auto simp: sq_dequeue_def Let_def split: if_splits list.splits)
  then have "good_packet p" "sq_inv q" "sq_frames (sn_dataQueue s) = frames_of p @ sq_frames q"
    using b(2) by (simp_all add: sq_inv_def sq_frames_def)
  moreover obtain G where "F = G @ sq_frames (sn_dataQueue s)" using assms(1) by (auto simp: data_queue_ok_def)
  ultimately show "good_packet p \<and> sq_frames (sn_dataQueue s) = frames_of p @ sq_frames q \<and> sq_status q = sq_status (sn_dataQueue s)
      \<and> data_queue_ok F (s\<lparr>sn_dataQueue := q\<rparr>)"
    using assms(1) q by (auto simp: data_queue_ok_def intro: exI [of _ "G @ frames_of p"])
qed

lemma located_dequeue:
  assumes "located L s j" and "sq_frames (sn_dataQueue s) = fs @ sq_frames q" and "j < length (lg_frames L)"
    and "k = length (lg_frames L) - length (sq_frames (sn_dataQueue s))"
  shows "located (hold {k..<k + length fs} L) (s\<lparr>sn_dataQueue := q\<rparr>) j"
proof -
  have "j \<in> {k..<k + length fs} \<or> length (lg_frames L) \<le> j + length (sq_frames q)" if "length (lg_frames L) \<le> j + length (sq_frames (sn_dataQueue s))"
    using that assms(2-4) by auto
  then show ?thesis using assms(1) unfolding located_def by auto
qed

lemma ledger_ok_hold: "ledger_ok L \<Longrightarrow> ledger_ok (hold J L)"
proof -
  assume a: "ledger_ok L"
  have "lg_done (hold J L) = lg_done L" by (simp add: hold_def)
  with a show ?thesis unfolding ledger_ok_def by (simp, meson le_supI1)
qed

lemma dequeue_side:
  assumes "side L c" and "sq_dequeue z level (sn_dataQueue (c_sender c)) = (Some p, q)"
  shows "\<exists>js. side (hold (set js) L) (set_dataQueue q c) \<and> paths_enter L DATA_RELIABLE js [(set_type DATA_RELIABLE p, None)]"
proof -
  let ?s = "c_sender c" and ?F = "lg_frames L"
  define k where "k = length ?F - length (sq_frames (sn_dataQueue ?s))"
  define js where "js = [k..<k + length (frames_of p)]"
  have js: "set js = {k..<k + length (frames_of p)}" by (simp add: js_def)
  note d = data_dequeue(2) [OF sideD(6) [OF assms(1)] assms(2) refl]
  then have good: "good_packet p" and fr: "sq_frames (sn_dataQueue ?s) = frames_of p @ sq_frames q" and st: "sq_status q = sq_status (sn_dataQueue ?s)"
    and dq: "data_queue_ok ?F (?s\<lparr>sn_dataQueue := q\<rparr>)" by blast+
  obtain G where G: "?F = G @ frames_of p @ sq_frames q" using sideD(6) [OF assms(1)] fr by (auto simp: data_queue_ok_def)
  then have k: "k = length G" by (simp add: k_def fr)
  have "covered (hold (set js) L) (?s\<lparr>sn_dataQueue := q\<rparr>)"
    using sideD(9) [OF assms(1)] located_dequeue [OF _ fr _ k_def] unfolding covered_def js by (simp add: st)
  then have "sender_ok (hold (set js) L) (?s\<lparr>sn_dataQueue := q\<rparr>)"
    using sideD(4) [OF assms(1)] dq by (simp add: sender_ok_def ack_queue_ok_def)
  then have "side (hold (set js) L) (set_dataQueue q c)"
    using assms(1) by (simp add: side_def ledger_ok_hold set_dataQueue_def)
  moreover have "map (\<lambda>j. ?F ! j) js = frames_of p" unfolding G js_def k by (rule nth_equalityI) (auto simp: nth_append)
  then have "payload L js = concat (map enc_frame (frames_of p))" unfolding payload_def by (simp flip: map_map [unfolded comp_def, of enc_frame "(!) ?F"])
  then have "pk_data p = payload L js" "length (pk_data p) \<le> MAX_PACKET_POST_FRAME_SIZE"
    using good by (auto simp: good_packet_def carries_def dataSize_def)
  moreover have "set js \<subseteq> {..<length ?F}" unfolding js k G by auto
  ultimately show ?thesis by (intro exI [of _ js]) (simp add: paths_enter_def reliable_types_def)
qed

lemma set_dataQueue_same: "set_dataQueue (sn_dataQueue (c_sender c)) c = c"
  by (simp add: set_dataQueue_def)

lemma quiet_set_dataQueue: "quiet c (set_dataQueue q c)" "sent_count (set_dataQueue q c) = sent_count c"
  by (simp_all add: quiet_def set_dataQueue_def heard_def)

lemma processReliable_loop_side: "side L c \<Longrightarrow> side_step L c (processReliable_loop z now c)"
proof (induction z now c arbitrary: L rule: processReliable_loop.induct)
  case (1 z now c)
  show ?case
  proof (cases "numUnacked (sn_retrier (c_sender c)) < sn_windowSize (c_sender c)")
    case room: True
    obtain r q where d: "sq_dequeue z (reliable_level c) (sn_dataQueue (c_sender c)) = (r, q)" by fastforce
    show ?thesis
    proof (cases r)
      case None
      then have "q = sn_dataQueue (c_sender c)" using data_dequeue(1) [OF sideD(6) [OF "1.prems"] d] by simp
      then show ?thesis using room d None "1.prems" by (subst processReliable_loop.simps) (simp add: set_dataQueue_same side_step_refl)
    next
      case (Some p)
      let ?c = "sendReliably now (set_type DATA_RELIABLE p) None (set_dataQueue q c)"
      obtain js where js: "side (hold (set js) L) (set_dataQueue q c)" "paths_enter L DATA_RELIABLE js [(set_type DATA_RELIABLE p, None)]"
        using dequeue_side [OF "1.prems"] d Some by blast
      have "side_step L (set_dataQueue q c) ?c"
        unfolding sendReliably_def by (rule sendReliablyMultipath_side [OF js(1) sideD(1) [OF "1.prems"] js(2)]) simp
      then have "side_step L c ?c" using quiet_set_dataQueue [where c = c and q = q] quiet_trans unfolding side_step_def by auto
      then have "side_step L c (processReliable_loop z now ?c)"
        by (rule side_step_then) (rule "1.IH" [OF room d [symmetric] Some])
      then show ?thesis using room d Some by (subst processReliable_loop.simps) (simp del: DATA_RELIABLE_def)
    qed
  qed (use "1.prems" in \<open>simp add: processReliable_loop.simps side_step_refl\<close>)
qed

section \<open>The unreliable queue\<close>

lemma ack_queue_sets:
  assumes "ack_queue_ok A s"
  shows "ack_queue_ok A (s\<lparr>sn_unreliableDataQueue := sq_clear (sn_unreliableDataQueue s)\<rparr>)"
    and "ack_queue_ok A (s\<lparr>sn_unreliableDataQueue := sq_close (sn_unreliableDataQueue s)\<rparr>)"
  using assms by (auto simp: ack_queue_ok_def sq_clear_def sq_close_def sq_inv_def sq_frames_def)

lemma ack_enqueue:
  assumes "ack_queue_ok A s" and "admissible data mode" and "mode \<noteq> MRUDP_COALESCE_STREAM_COMPRESSED"
    and "t = DATA \<or> t = ACK_FRAME \<and> mode \<noteq> MRUDP_COALESCE_STREAM \<and> (\<exists>i \<in> A. \<exists>d. data = enc_ack i d)"
  shows "ack_queue_ok A (s\<lparr>sn_unreliableDataQueue := sq_enqueue (sn_unreliableDataQueue s) t data mode\<rparr>)"
proof (cases "sq_status (sn_unreliableDataQueue s) = IS_OPEN")
  case True
  let ?q = "sn_unreliableDataQueue s"
  have "sq_inv ?q" using assms(1) by (simp add: ack_queue_ok_def)
  then obtain new where new: "adds_frames ?q t data new (sq_enqueue ?q t data mode)"
    "mode \<noteq> MRUDP_COALESCE_STREAM \<longrightarrow> new = [\<lparr>f_id = sq_nextID ?q, f_type = t, f_data = data\<rparr>]"
    using sq_enqueue_adds [OF _ assms(2) True assms(3), of t] by blast
  have "ack_frame_ok A f" if f: "f \<in> set new" for f
  proof (cases "t = DATA")
    case True
    then show ?thesis using new(1) f by (simp add: ack_frame_ok_def adds_frames_def)
  next
    case False
    then have "t = ACK_FRAME" "f_type f = t" "f_data f = data" using assms(4) new(2) f by auto
    with False assms(4) show ?thesis unfolding ack_frame_ok_def by metis
  qed
  with assms(1) new(1) show ?thesis by (auto simp: ack_queue_ok_def adds_frames_def)
next
  case False
  then have "sq_status (sn_unreliableDataQueue s) = IS_CLOSED" by (cases "sq_status (sn_unreliableDataQueue s)") simp_all
  with assms(1) show ?thesis by (simp add: sq_enqueue_def)
qed

lemma ack_dequeue:
  assumes "ack_queue_ok A s" and "sq_dequeue z level (sn_unreliableDataQueue s) = (r, q)"
  shows "ack_queue_ok A (s\<lparr>sn_unreliableDataQueue := q\<rparr>)" and "r = Some p \<Longrightarrow> ack_packet_ok A p"
  using assms
  by (auto simp: ack_queue_ok_def ack_packet_ok_def sq_dequeue_def sq_frames_def sq_inv_def good_packet_def dataSize_def Let_def split: if_splits list.splits)

lemma set_unreliable_keeps:
  assumes "side L c" and "ack_queue_ok (lg_acks L) ((c_sender c)\<lparr>sn_unreliableDataQueue := q\<rparr>)"
  shows "keeps L c (set_unreliableDataQueue q c)"
  unfolding set_unreliableDataQueue_def using assms
  by (intro set_sender_keeps) (simp_all add: side_def sender_ok_def data_queue_ok_def covered_def located_def)

lemma unreliable_logical: "ack_packet_ok (lg_acks L) p \<Longrightarrow> logical_ok L (set_type DATA_UNRELIABLE p)"
  by (simp add: logical_ok_def reliable_types_def isAck_def ack_packet_ok_def carries_def frames_of_def urq_onReceive_def)

lemma processUnreliable_loop_keeps: "side L c \<Longrightarrow> keeps L c (processUnreliable_loop z now c)"
proof (induction z now c rule: processUnreliable_loop.induct)
  case (1 z now c)
  obtain r q where d: "sq_dequeue z (unreliable_level c) (sn_unreliableDataQueue (c_sender c)) = (r, q)" by fastforce
  note a = ack_dequeue [OF sideD(7) [OF "1.prems"] d]
  have q: "keeps L c (set_unreliableDataQueue q c)" by (rule set_unreliable_keeps [OF "1.prems" a(1)])
  show ?case
  proof (cases r)
    case None
    then show ?thesis using d q by (subst processUnreliable_loop.simps) simp
  next
    case (Some p)
    let ?c = "conn_send now (set_type DATA_UNRELIABLE p) None (set_unreliableDataQueue q c)"
    have s: "keeps L c ?c" by (rule keeps_then [OF q conn_send_keeps [OF _ unreliable_logical [OF a(2) [OF Some]]]])
    have "keeps L c (processUnreliable_loop z now ?c)" by (rule keeps_then [OF s "1.IH" [OF d [symmetric] Some]])
    then show ?thesis using d Some by (subst processUnreliable_loop.simps) (simp del: DATA_UNRELIABLE_def)
  qed
qed

lemma ack_enqueue_all:
  assumes "ack_queue_ok A (s\<lparr>sn_unreliableDataQueue := q\<rparr>)" and "fst ` set acks \<subseteq> A"
  shows "ack_queue_ok A (s\<lparr>sn_unreliableDataQueue :=
    fold (\<lambda>(i, w) q. sq_enqueue q ACK_FRAME (enc_ack i (delayed_ms now w)) MRUDP_COALESCE_PACKET) acks q\<rparr>)"
  using assms
proof (induction acks arbitrary: q)
  case (Cons x acks)
  obtain i w where x: "x = (i, w)" by (cases x)
  have "admissible (enc_ack i (delayed_ms now w)) MRUDP_COALESCE_PACKET" by (simp add: admissible_def)
  then have "ack_queue_ok A (s\<lparr>sn_unreliableDataQueue := sq_enqueue q ACK_FRAME (enc_ack i (delayed_ms now w)) MRUDP_COALESCE_PACKET\<rparr>)"
    using ack_enqueue [OF Cons.prems(1), of "enc_ack i (delayed_ms now w)" MRUDP_COALESCE_PACKET ACK_FRAME] Cons.prems(2) x by auto
  from Cons.IH [OF this] Cons.prems(2) x show ?case by simp
qed simp

lemma queueDelayedAcks_keeps:
  assumes "side L c"
  shows "keeps L c (queueDelayedAcks now c)"
proof -
  let ?s = "c_sender c"
  let ?q = "fold (\<lambda>(i, w) q. sq_enqueue q ACK_FRAME (enc_ack i (delayed_ms now w)) MRUDP_COALESCE_PACKET) (sn_delayedAcks ?s) (sn_unreliableDataQueue ?s)"
  have "ack_queue_ok (lg_acks L) ?s" by (rule sideD(7) [OF assms])
  then have "ack_queue_ok (lg_acks L) (?s\<lparr>sn_unreliableDataQueue := ?q\<rparr>)" by (intro ack_enqueue_all) (simp_all add: ack_queue_ok_def)
  then have "sender_ok L (?s\<lparr>sn_lastDelayedAcksSend := now, sn_delayedAcks := [], sn_unreliableDataQueue := ?q\<rparr>)"
    using sideD(4) [OF assms] by (simp add: sender_ok_def data_queue_ok_def ack_queue_ok_def covered_def located_def)
  then show ?thesis using assms unfolding queueDelayedAcks_def Let_def by (simp add: keeps_refl set_sender_keeps)
qed

section \<open>Schedules\<close>

lemma processReliableDataQueue_side: "side L c \<Longrightarrow> side_step L c (processReliableDataQueue z now c)"
  by (simp add: processReliableDataQueue_def side_step_refl processReliable_loop_side)

lemma processUnreliableDataQueue_keeps: "side L c \<Longrightarrow> keeps L c (processUnreliableDataQueue z now c)"
  unfolding processUnreliableDataQueue_def
  by (intro keeps_if keeps_then [OF queueDelayedAcks_keeps processUnreliable_loop_keeps] set_unreliable_keeps ack_queue_sets(1) sideD(7))

lemma processDataQueue_side: "side L c \<Longrightarrow> side_step L c (processDataQueue z now r c)"
  by (simp add: processDataQueue_def processReliableDataQueue_side keeps_step processUnreliableDataQueue_keeps)

lemma scheduleDataQueueProcessing_side: "side L c \<Longrightarrow> side_step L c (scheduleDataQueueProcessing z now r im c)"
  unfolding scheduleDataQueueProcessing_def Let_def
  by (auto simp: processDataQueue_side side_step_refl split: option.splits
      intro!: keeps_step intro: keeps_then [OF set_schedule_keeps emit_keeps] set_schedule_keeps)

lemma processSchedule_side:
  assumes "side L c"
  shows "side_step L c (processSchedule z now mode c)"
proof (cases "sc_running (schedule_of mode c)")
  case False
  let ?c1 = "set_schedule mode \<lparr>sc_when = None, sc_running = True\<rparr> c"
  let ?c2 = "processDataQueue z now mode ?c1"
  let ?c3 = "set_schedule mode ((schedule_of mode ?c2)\<lparr>sc_running := False\<rparr>) ?c2"
  have "side_step L c ?c2" by (rule side_step_then [OF keeps_step [OF set_schedule_keeps [OF assms]] processDataQueue_side])
  then have s: "side_step L c ?c3" by (rule side_step_then) (rule keeps_step [OF set_schedule_keeps])
  then have "side_step L c (emit (SetTimeout t w) ?c3)" for t w by (rule side_step_then) (rule keeps_step [OF emit_keeps], simp_all)
  with s False show ?thesis by (simp add: processSchedule_def Let_def split: option.splits)
qed (use assms in \<open>simp add: processSchedule_def side_step_refl\<close>)

section \<open>Entry points of the sender\<close>

text \<open>The frames an enqueue numbers, and the ledger with them.\<close>

definition enq_frames :: "FrameTypeID \<Rightarrow> bytes \<Rightarrow> int \<Rightarrow> SendQueue \<Rightarrow> Frame list" where
  "enq_frames t data mode q = drop (length (sq_frames q)) (sq_frames (sq_enqueue q t data mode))"

definition record_frames :: "Frame list \<Rightarrow> Ledger \<Rightarrow> Ledger" where
  "record_frames new L = L\<lparr>lg_frames := lg_frames L @ new\<rparr>"

lemma record_frames_simps [simp]:
  "lg_frames (record_frames new L) = lg_frames L @ new" "lg_seen (record_frames new L) = lg_seen L" "lg_acks (record_frames new L) = lg_acks L"
  "lg_done (record_frames new L) = lg_done L" "lg_count (record_frames new L) = lg_count L" "lg_table (record_frames new L) = lg_table L" "record_frames [] L = L"
  by (simp_all add: record_frames_def)

lemma payload_extend: "set js \<subseteq> {..<length (lg_frames L)} \<Longrightarrow> payload (record_frames new L) js = payload L js"
  unfolding payload_def by (intro arg_cong [of _ _ concat] map_cong) (auto simp: nth_append)

lemma entry_ok_extend: "entry_ok L k p \<Longrightarrow> entry_ok (record_frames new L) k p"
  by (auto simp: entry_ok_def payload_extend)

lemma logical_ok_extend: "logical_ok L p \<Longrightarrow> logical_ok (record_frames new L) p"
  unfolding logical_ok_def record_frames_simps using entry_ok_extend by blast

lemma window_entries_extend: "window_entries_ok L r \<Longrightarrow> window_entries_ok (record_frames new L) r"
  unfolding window_entries_ok_def record_frames_simps using entry_ok_extend by blast

lemma small_frames: "sq_inv q \<Longrightarrow> f \<in> set (sq_frames q) \<Longrightarrow> small_frame f"
  by (auto simp: sq_inv_def sq_frames_def good_packet_def carries_def)

definition enqueue_type_ok :: "FrameTypeID \<Rightarrow> bytes \<Rightarrow> int \<Rightarrow> bool" where
  "enqueue_type_ok t data mode \<longleftrightarrow> admissible data mode \<and> mode \<noteq> MRUDP_COALESCE_STREAM_COMPRESSED
     \<and> (t = DATA \<or> t = CLOSE_WRITE \<and> data = [] \<and> mode \<noteq> MRUDP_COALESCE_STREAM)"

lemma enq_frames_adds:
  assumes "data_queue_ok F s" and "enqueue_type_ok t data mode" and "sq_status (sn_dataQueue s) = IS_OPEN"
  shows "adds_frames (sn_dataQueue s) t data (enq_frames t data mode (sn_dataQueue s)) (sq_enqueue (sn_dataQueue s) t data mode)"
proof -
  let ?q = "sn_dataQueue s"
  have "sq_inv ?q" using assms(1) by (simp add: data_queue_ok_def)
  then obtain new where new: "adds_frames ?q t data new (sq_enqueue ?q t data mode)"
    using sq_enqueue_adds [of ?q data mode t] assms(2,3) unfolding enqueue_type_ok_def by blast
  then have "enq_frames t data mode ?q = new" by (simp add: enq_frames_def adds_frames_def)
  with new show ?thesis by simp
qed

lemma enqueue_stream_ok:
  assumes "stream_ok F" and "data_queue_ok F s" and "enqueue_type_ok t data mode" and "sq_status (sn_dataQueue s) = IS_OPEN"
  shows "stream_ok (F @ enq_frames t data mode (sn_dataQueue s))"
    and "data_queue_ok (F @ enq_frames t data mode (sn_dataQueue s)) (s\<lparr>sn_dataQueue := sq_enqueue (sn_dataQueue s) t data mode\<rparr>)"
proof -
  let ?q = "sn_dataQueue s"
  define new where "new = enq_frames t data mode ?q"
  have a: "sq_frames (sq_enqueue ?q t data mode) = sq_frames ?q @ new" "consecutive (of_nat (length F)) new"
    "sq_nextID (sq_enqueue ?q t data mode) = of_nat (length F) + of_nat (length new)" "concat (map f_data new) = data" "\<forall>f \<in> set new. f_type f = t"
    "sq_inv (sq_enqueue ?q t data mode)" "sq_status (sq_enqueue ?q t data mode) = IS_OPEN" "sq_buffer (sq_enqueue ?q t data mode) = []"
    using enq_frames_adds [OF assms(2-4)] assms(2,4) by (auto simp: adds_frames_def data_queue_ok_def new_def)
  obtain G where G: "F = G @ sq_frames ?q" using assms(2) by (auto simp: data_queue_ok_def)
  have "small_frame f \<and> (f_type f = DATA \<or> f_type f = CLOSE_WRITE \<and> f_data f = [])" if "f \<in> set new" for f
  proof -
    have "small_frame f" using small_frames [OF a(6)] a(1) that by simp
    moreover have "data = [] \<longrightarrow> f_data f = []" using a(4) that by auto
    ultimately show ?thesis using a(5) that assms(3) unfolding enqueue_type_ok_def by blast
  qed
  then show "stream_ok (F @ enq_frames t data mode ?q)"
    using assms(1) a(2) unfolding stream_ok_def new_def [symmetric] by (auto simp: consecutive_append)
  show "data_queue_ok (F @ enq_frames t data mode ?q) (s\<lparr>sn_dataQueue := sq_enqueue ?q t data mode\<rparr>)"
    using a G unfolding data_queue_ok_def new_def [symmetric] by simp
qed

lemma covered_extend:
  assumes "covered L s" and "sq_frames q = sq_frames (sn_dataQueue s) @ new" and "sq_status q = sq_status (sn_dataQueue s)"
  shows "covered (record_frames new L) (s\<lparr>sn_dataQueue := q\<rparr>)"
proof -
  have "located (record_frames new L) (s\<lparr>sn_dataQueue := q\<rparr>) j" if "j < length (lg_frames L) \<Longrightarrow> located L s j" "j < length (lg_frames L @ new)" for j
  proof (cases "j < length (lg_frames L)")
    case True
    then show ?thesis using that(1) assms(2) unfolding located_def by auto
  next
    case False
    then show ?thesis using that(2) assms(2) by (simp add: located_def)
  qed
  then show ?thesis using assms(1,3) unfolding covered_def by simp
qed

lemma enqueue_side:
  assumes "side L c" and "enqueue_type_ok t data mode"
  shows "side (record_frames (enq_frames t data mode (sn_dataQueue (c_sender c))) L)
    (set_dataQueue (sq_enqueue (sn_dataQueue (c_sender c)) t data mode) c)"
proof (cases "sq_status (sn_dataQueue (c_sender c)) = IS_OPEN")
  case True
  let ?s = "c_sender c" and ?q = "sq_enqueue (sn_dataQueue (c_sender c)) t data mode"
  define new where "new = enq_frames t data mode (sn_dataQueue ?s)"
  have L: "ledger_ok L" "stream_ok (lg_frames L)" using sideD(1) [OF assms(1)] by (simp_all add: ledger_ok_def)
  note e = enqueue_stream_ok [OF L(2) sideD(6) [OF assms(1)] assms(2) True, folded new_def]
  have a: "sq_frames ?q = sq_frames (sn_dataQueue ?s) @ new" "sq_status ?q = sq_status (sn_dataQueue ?s)"
    using enq_frames_adds [OF sideD(6) [OF assms(1)] assms(2) True] by (simp_all add: adds_frames_def new_def)
  have "sender_ok (record_frames new L) (?s\<lparr>sn_dataQueue := ?q\<rparr>)"
    using sideD(4) [OF assms(1)] e(2) covered_extend [OF sideD(9) [OF assms(1)] a] window_entries_extend
    by (simp add: sender_ok_def ack_queue_ok_def)
  moreover have "ledger_ok (record_frames new L)" using L(1) e(1) by (simp add: ledger_ok_def)
  ultimately show ?thesis using assms(1) logical_ok_extend
    unfolding new_def [symmetric] by (simp add: side_def set_dataQueue_def)
next
  case False
  then have "sq_enqueue (sn_dataQueue (c_sender c)) t data mode = sn_dataQueue (c_sender c)"
    by (cases "sq_status (sn_dataQueue (c_sender c))") (simp_all add: sq_enqueue_def)
  then show ?thesis using assms(1) by (simp add: enq_frames_def set_dataQueue_same)
qed

text \<open>A step of the ledger with more frames than before.\<close>

lemma side_step_extend:
  assumes "side (record_frames new L) b" and "quiet a b" and "sent_count b = sent_count a" and "side_step (record_frames new L) b c"
  shows "side_step (record_frames new L) a c"
  using assms quiet_trans unfolding side_step_def by metis

lemma sender_enqueue_reliable:
  assumes "side L c" and "enqueue_type_ok t data mode"
  shows "side_step (record_frames (enq_frames t data mode (sn_dataQueue (c_sender c))) L) c (sender_enqueue z now t data RELIABLE mode c)"
proof -
  let ?c = "set_dataQueue (sq_enqueue (sn_dataQueue (c_sender c)) t data mode) c"
  have s: "side (record_frames (enq_frames t data mode (sn_dataQueue (c_sender c))) L) ?c" by (rule enqueue_side [OF assms])
  show ?thesis unfolding sender_enqueue_def Let_def
    using s by (intro side_step_extend [OF s quiet_set_dataQueue]) (simp add: scheduleDataQueueProcessing_side side_step_refl)
qed

lemma sender_enqueue_unreliable:
  assumes "side L c" and "admissible data mode" and "mode \<noteq> MRUDP_COALESCE_STREAM_COMPRESSED"
  shows "side_step L c (sender_enqueue z now DATA data UNRELIABLE mode c)"
proof -
  let ?c = "set_unreliableDataQueue (sq_enqueue (sn_unreliableDataQueue (c_sender c)) DATA data mode) c"
  have "side_step L c ?c"
    using ack_enqueue [OF sideD(7) [OF assms(1)] assms(2,3)] by (intro keeps_step set_unreliable_keeps [OF assms(1)]) simp
  then have "side_step L c (if isReadyToSend ?c then scheduleDataQueueProcessing z now UNRELIABLE False ?c else ?c)"
    by (intro side_step_if side_step_then [OF _ scheduleDataQueueProcessing_side])
  then show ?thesis by (simp add: sender_enqueue_def Let_def del: DATA_def)
qed

text \<open>The frames a send numbers.\<close>

definition send_frames :: "bytes \<Rightarrow> Reliability \<Rightarrow> Connection \<Rightarrow> Frame list" where
  "send_frames data r c =
     (if r = RELIABLE \<and> sn_status (c_sender c) \<noteq> CLOSED \<and> admissible data (co_mode (opt_coalesce_reliable (c_options c)))
      then enq_frames DATA data (co_mode (opt_coalesce_reliable (c_options c))) (sn_dataQueue (c_sender c)) else [])"

lemma send_admissible:
  "sender_send z now data r c = (if sn_status (c_sender c) = CLOSED then (ERROR_CONNECTION_CLOSED, c)
     else if admissible data (co_mode (coalesce_of r c)) then (OK, sender_enqueue z now DATA data r (co_mode (coalesce_of r c)) c)
     else (ERROR_PACKET_SIZE_TOO_LARGE, c))"
  by (auto simp: sender_send_def admissible_def Let_def)

lemma sender_send_side:
  assumes "side L c"
  shows "side_step (record_frames (send_frames data r c) L) c (snd (sender_send z now data r c))"
proof (cases "sn_status (c_sender c) \<noteq> CLOSED \<and> admissible data (co_mode (coalesce_of r c))")
  case True
  have plain: "co_mode (coalesce_of r c) \<noteq> MRUDP_COALESCE_STREAM_COMPRESSED"
    using sideD(3) [OF assms] by (simp add: plain_modes_def coalesce_of_def)
  show ?thesis
  proof (cases "r = RELIABLE")
    case rel: True
    have "enqueue_type_ok DATA data (co_mode (coalesce_of r c))" using True plain by (simp add: enqueue_type_ok_def)
    from sender_enqueue_reliable [OF assms this] True rel show ?thesis
      by (simp add: send_admissible send_frames_def coalesce_of_def)
  next
    case False
    then have "r = UNRELIABLE" by (cases r) simp_all
    with sender_enqueue_unreliable [OF assms _ plain] True show ?thesis by (simp add: send_admissible send_frames_def)
  qed
next
  case False
  then have "send_frames data r c = []" "snd (sender_send z now data r c) = c"
    by (auto simp: send_frames_def send_admissible coalesce_of_def split: if_splits)
  with assms show ?thesis by (simp add: side_step_refl)
qed

lemma set_status_ok:
  "sender_ok L s \<Longrightarrow> sn_status s \<noteq> CLOSED \<or> st = CLOSED \<Longrightarrow> sender_ok L (s\<lparr>sn_status := st\<rparr>)"
  by (auto simp: sender_ok_def data_queue_ok_def ack_queue_ok_def covered_def located_def)

lemma sender_open_side:
  assumes "side L c"
  shows "side_step L c (sender_open z now c)"
proof -
  have "side_step L c (if sn_status (c_sender c) = UNINITIALIZED then c\<lparr>c_sender := (c_sender c)\<lparr>sn_status := OPEN\<rparr>\<rparr> else c)"
    using assms set_status_ok [OF sideD(4) [OF assms]] by (auto intro!: keeps_step set_sender_keeps simp: side_step_refl)
  then show ?thesis unfolding sender_open_def Let_def
    by (intro side_step_then [OF side_step_then [OF _ scheduleDataQueueProcessing_side] scheduleDataQueueProcessing_side])
qed

text \<open>The frame \<^verbatim>\<open>Sender::close\<close> numbers.\<close>

definition close_frames :: "Connection \<Rightarrow> Frame list" where
  "close_frames c = (if sn_status (c_sender c) \<noteq> CLOSED then enq_frames CLOSE_WRITE [] MRUDP_COALESCE_PACKET (sn_dataQueue (c_sender c)) else [])"

lemma sender_close_side:
  assumes "side L c"
  shows "side_step (record_frames (close_frames c) L) c (sender_close z now c)"
proof (cases "sn_status (c_sender c) = CLOSED")
  case False
  let ?c = "sender_enqueue z now CLOSE_WRITE [] RELIABLE MRUDP_COALESCE_PACKET c"
  have "enqueue_type_ok CLOSE_WRITE [] MRUDP_COALESCE_PACKET" by (simp add: enqueue_type_ok_def admissible_def)
  from sender_enqueue_reliable [OF assms this]
  have "side_step (record_frames (close_frames c) L) c (?c\<lparr>c_sender := (c_sender ?c)\<lparr>sn_status := CLOSED\<rparr>\<rparr>)"
    using False unfolding close_frames_def
    by (intro side_step_then [OF _ keeps_step [OF set_sender_keeps]] set_status_ok sideD(4)) simp_all
  with False show ?thesis by (simp add: sender_close_def Let_def)
qed (use assms in \<open>simp add: sender_close_def close_frames_def side_step_refl\<close>)

lemma sender_fail_keeps:
  assumes "side L c"
  shows "keeps L c (sender_fail c)"
proof -
  define s where "s = (if sn_status (c_sender c) \<noteq> CLOSED then (c_sender c)\<lparr>sn_status := CLOSED\<rparr> else c_sender c)"
  have s: "sender_ok L s" "sn_status s = CLOSED" using sideD(4) [OF assms] set_status_ok by (auto simp: s_def)
  let ?s = "s\<lparr>sn_retrier := re_close (sn_retrier s), sn_dataQueue := sq_close (sn_dataQueue s), sn_unreliableDataQueue := sq_close (sn_unreliableDataQueue s)\<rparr>"
  have dq: "data_queue_ok (lg_frames L) s" "ack_queue_ok (lg_acks L) s" "window_entries_ok L (sn_retrier s)" using s(1) by (simp_all add: sender_ok_def)
  have "sq_queue (sq_close (sn_dataQueue s)) = []" using dq(1) by (simp add: sq_close_def data_queue_ok_def)
  then have "sq_frames (sq_close (sn_dataQueue s)) = []" "sq_inv (sq_close (sn_dataQueue s))" by (simp_all add: sq_frames_def sq_inv_def)
  moreover have st: "sq_status (sq_close (sn_dataQueue s)) = IS_CLOSED" by (simp add: sq_close_def)
  moreover have "sq_buffer (sq_close (sn_dataQueue s)) = []" "sq_nextID (sq_close (sn_dataQueue s)) = of_nat (length (lg_frames L))"
    using dq(1) by (simp_all add: sq_close_def data_queue_ok_def)
  ultimately have "data_queue_ok (lg_frames L) ?s" using s(2) \<open>sq_queue _ = []\<close> by (simp add: data_queue_ok_def)
  moreover have "ack_queue_ok (lg_acks L) ?s" using ack_queue_sets(2) [OF dq(2)] by (simp add: ack_queue_ok_def)
  moreover have "window_entries_ok L (re_close (sn_retrier s))" using dq(3) by (simp add: window_entries_ok_def re_close_def om_inv_Nil)
  moreover have "covered L ?s" using st by (simp add: covered_def)
  ultimately have "sender_ok L ?s" using s(1) by (simp add: sender_ok_def)
  then show ?thesis using set_sender_keeps [OF assms] unfolding sender_fail_def s_def [symmetric] Let_def by blast
qed

lemma sender_ack_side:
  assumes "side L c" and "i \<in> lg_acks L"
  shows "side_step L c (sender_ack z now i c)"
proof -
  have "sender_ok L ((c_sender c)\<lparr>sn_delayedAcks := sn_delayedAcks (c_sender c) @ [(i, now)]\<rparr>)"
    using sideD(4) [OF assms(1)] assms(2) by (simp add: sender_ok_def data_queue_ok_def ack_queue_ok_def covered_def located_def)
  then show ?thesis unfolding sender_ack_def
    by (rule side_step_then [OF keeps_step [OF set_sender_keeps [OF assms(1)]] scheduleDataQueueProcessing_side])
qed

section \<open>Closing\<close>

lemma receiver_close_side: "side L c \<Longrightarrow> side_step L c (receiver_close now c)"
proof -
  assume s: "side L c"
  have "side_step L c (if canSend c then sendReliably now (set_type CLOSE_READ new_packet) None c else c)"
    using s by (intro side_step_if control_side side_step_refl) (simp_all add: reliable_types_def)
  then have "side_step L c (set_rv_status CLOSED (if canSend c then sendReliably now (set_type CLOSE_READ new_packet) None c else c))"
    by (rule side_step_then) (rule keeps_step [OF set_rv_status_keeps])
  with s show ?thesis by (simp add: receiver_close_def Let_def side_step_refl)
qed

lemma receiver_fail_keeps: "side L c \<Longrightarrow> keeps L c (receiver_fail c)"
  by (simp add: receiver_fail_def set_rv_status_keeps keeps_refl)

lemma closeUser_keeps: "side L c \<Longrightarrow> keeps L c (closeUser ev c)"
proof (cases "c_userDataDisposed c")
  case False
  assume s: "side L c"
  let ?c = "c\<lparr>c_userDataDisposed := True, c_userData := 0, c_closeHandler := False, c_receiveHandler := False\<rparr>"
  have "keeps L c ?c" using s by (intro keeps_same) (simp_all add: same_side_def same_sender_def quiet_def heard_def)
  then have "keeps L c (if c_closeHandler c then emit (UserClose (c_userData c) ev) ?c else ?c)"
    by (intro keeps_if keeps_then [OF _ emit_keeps]) simp_all
  with False show ?thesis by (simp add: closeUser_def Let_def)
qed (simp add: closeUser_def keeps_refl)

lemma close_event_keeps: "side L c \<Longrightarrow> keeps L c (close_event now ev c)"
proof -
  assume s: "side L c"
  have "keeps L c (finishWhenReady now (closeUser ev (c\<lparr>c_closed := True\<rparr>)))"
    unfolding finishWhenReady_def
    by (rule keeps_then [OF keeps_then [OF upd_keeps(7) [OF s] closeUser_keeps] emit_keeps]) simp_all
  with s show ?thesis by (simp add: close_event_def keeps_refl)
qed

lemma possiblyClose_keeps: "side L c \<Longrightarrow> keeps L c (possiblyClose now c)"
  by (simp add: possiblyClose_def keeps_refl close_event_keeps)

lemma fail_keeps: "side L c \<Longrightarrow> keeps L c (fail now ev c)"
  unfolding fail_def
  by (rule keeps_then [OF keeps_then [OF keeps_then [OF keeps_then [OF upd_keeps(6) probe_close_keeps] receiver_fail_keeps] sender_fail_keeps]
        possiblyClose_keeps])

lemma conn_close_side:
  assumes "side L c"
  shows "side_step (record_frames (close_frames c) L) c (conn_close z now c)"
  unfolding conn_close_def
  by (rule side_step_then [OF side_step_then [OF sender_close_side [OF assms] receiver_close_side] keeps_step [OF possiblyClose_keeps]])

lemma finish_keeps: "side L c \<Longrightarrow> keeps L c (finish c)"
  unfolding finish_def by (rule emit_keeps) simp_all

section \<open>Acks\<close>

lemma keys_om_erase: "om_inv m \<Longrightarrow> fst ` set (om_erase k m) = fst ` set m - {k}"
  using om.dom_erase [of m k] by (simp add: dom_om_find)

lemma located_ack:
  assumes "located L s j" and "ledger_ok L" and "i \<in> lg_done L" and "lg_count L \<le> 2 ^ 16"
    and "fst ` set (re_window r) = fst ` set (re_window (sn_retrier s)) - {i}"
  shows "located L (s\<lparr>sn_retrier := r\<rparr>) j"
proof -
  consider (seen) "j \<in> lg_seen L" | (queue) "length (lg_frames L) \<le> j + length (sq_frames (sn_dataQueue s))"
    | (window) k where "k < lg_count L" "of_nat k \<in> fst ` set (re_window (sn_retrier s))" "fst (lg_table L k) = DATA_RELIABLE" "j \<in> set (snd (lg_table L k))"
    using assms(1) unfolding located_def by blast
  then show ?thesis
  proof cases
    case (window k)
    show ?thesis
    proof (cases "of_nat k = i")
      case True
      obtain k' where k': "k' < lg_count L" "i = of_nat k'" "fst (lg_table L k') = DATA_RELIABLE \<longrightarrow> set (snd (lg_table L k')) \<subseteq> lg_seen L"
        using assms(2,3) unfolding ledger_ok_def by blast
      have "k < 0 + 2 ^ 16" "k' < 0 + 2 ^ 16" using window(1) k'(1) assms(4) by simp_all
      then have "k = k'" using True k'(2) of_nat_u16_inj [of 0 k k'] by blast
      with k'(3) window(3,4) have "j \<in> lg_seen L" by blast
      then show ?thesis by (simp add: located_def)
    next
      case False
      with window assms(5) show ?thesis by (intro located_window [of k]) (simp_all del: DATA_RELIABLE_def)
    qed
  qed (simp_all add: located_def)
qed

lemma sender_ok_ack:
  assumes "sender_ok L s" and "ledger_ok L" and "i \<in> lg_done L"
  shows "sender_ok L (s\<lparr>sn_retrier := snd (re_ack i now d (sn_retrier s))\<rparr>)"
proof (cases "om_find (re_window (sn_retrier s)) i")
  case None
  then show ?thesis using assms(1) by (simp add: re_ack_def)
next
  case (Some retry)
  let ?r = "snd (re_ack i now d (sn_retrier s))"
  have w: "window_entries_ok L (sn_retrier s)" using assms(1) by (simp add: sender_ok_def)
  then have inv: "om_inv (re_window (sn_retrier s))" by (simp add: window_entries_ok_def)
  have r: "re_window ?r = om_erase i (re_window (sn_retrier s))" "re_status ?r = re_status (sn_retrier s)" using Some by (simp_all add: re_ack_def)
  have "window_entries_ok L ?r" using w inv by (auto simp: window_entries_ok_def r om.om_invs dest: set_om_erase)
  moreover have "covered L (s\<lparr>sn_retrier := ?r\<rparr>)"
    unfolding covered_def
  proof (intro impI conjI allI)
    assume a: "lg_count L \<le> 2 ^ 16 \<and> sq_status (sn_dataQueue (s\<lparr>sn_retrier := ?r\<rparr>)) = IS_OPEN"
    then have c: "re_status (sn_retrier s) = IS_OPEN" "\<forall>j < length (lg_frames L). located L s j"
      using assms(1) by (simp_all add: sender_ok_def covered_def)
    show "re_status (sn_retrier (s\<lparr>sn_retrier := ?r\<rparr>)) = IS_OPEN" using c(1) r(2) by simp
    fix j assume "j < length (lg_frames L)"
    with c(2) a show "located L (s\<lparr>sn_retrier := ?r\<rparr>) j"
      by (intro located_ack [OF _ assms(2,3)]) (simp_all add: r(1) keys_om_erase [OF inv])
  qed
  ultimately show ?thesis using assms(1) by (simp add: sender_ok_def data_queue_ok_def ack_queue_ok_def)
qed

lemma set_timing_keeps: "side L c \<Longrightarrow> keeps L c (c\<lparr>c_sender := (c_sender c)\<lparr>sn_rtt := x, sn_windowSize := w\<rparr>\<rparr>)"
  by (rule keeps_same) (simp_all add: same_side_def same_sender_def quiet_def heard_def)

lemma onAck_side:
  assumes "side L c" and "i \<in> lg_done L"
  shows "side_step L c (onAck z now i d c)"
proof -
  define res where "res = re_ack i now d (sn_retrier (c_sender c))"
  define c1 where "c1 = c\<lparr>c_sender := (c_sender c)\<lparr>sn_retrier := snd res\<rparr>\<rparr>"
  define c3 where "c3 = c1\<lparr>c_sender := (c_sender c1)\<lparr>sn_rtt := rtt_onSample (ar_rtt (fst res)) (sn_rtt (c_sender c1)),
    sn_windowSize := window_onSample (rtt_onSample (ar_rtt (fst res)) (sn_rtt (c_sender c1)))\<rparr>\<rparr>"
  have 1: "keeps L c c1" unfolding c1_def res_def
    by (rule set_sender_keeps [OF assms(1) sender_ok_ack [OF sideD(4,1) [OF assms(1)] assms(2)]])
  have 3: "keeps L c c3" unfolding c3_def by (rule keeps_then [OF 1 set_timing_keeps])
  have "keeps L c (if ar_contained (fst res) then if ar_needsRetryTimeoutRecalculation (fst res) then conn_recalculateRetryTimeout c3 else c3 else c1)"
    (is "keeps L c ?c2") using 1 3 by (intro keeps_if keeps_then [OF 3 conn_recalculate_keeps])
  then have "side_step L c (possiblyClose now (scheduleDataQueueProcessing z now RELIABLE True ?c2))"
    by (intro side_step_then [OF side_step_then [OF keeps_step scheduleDataQueueProcessing_side] keeps_step [OF possiblyClose_keeps]])
  then show ?thesis unfolding onAck_def Let_def case_prod_beta res_def [symmetric] c1_def [symmetric] c3_def [symmetric] .
qed

lemma sender_onReceive_side:
  assumes "side L c" and "isAck (pk_type p) \<Longrightarrow> pk_id p \<in> lg_done L"
  shows "side_step L c (sender_onReceive z now p c)"
  unfolding sender_onReceive_def
  using assms keeps_then [OF sender_fail_keeps [OF assms(1)] possiblyClose_keeps] by (simp add: onAck_side keeps_step side_step_refl)

section \<open>Timeouts\<close>

lemma resend_paths_keeps:
  assumes "side L c" and "\<forall>pa \<in> set paths. logical_ok L (fst pa)"
  shows "keeps L c (fold (\<lambda>(packet, address). resend now packet address) paths c)"
  using assms by (intro keeps_fold) (auto simp: case_prod_beta intro: resend_keeps)

lemma onRetryTimeout_keeps:
  assumes "side L c"
  shows "keeps L c (onRetryTimeout now c)"
proof (cases "getNextRetry (sn_retrier (c_sender c))")
  case None
  then show ?thesis using assms by (simp add: onRetryTimeout_def keeps_refl)
next
  case (Some x)
  obtain i retry where x: "x = (i, retry)" by (cases x)
  have mem: "(i, retry) \<in> set (re_window (sn_retrier (c_sender c)))" using getNextRetry_in_window Some x by simp
  then have paths: "\<forall>pa \<in> set (rt_paths retry). logical_ok L (fst pa)"
    using sideD(8) [OF assms] entry_logical unfolding window_entries_ok_def by blast
  let ?retry = "retry\<lparr>rt_attempts := rt_attempts retry + 1, rt_sentAt := now\<rparr>"
  let ?c1 = "c\<lparr>c_sender := (c_sender c)\<lparr>sn_retrier := set_retry i ?retry (sn_retrier (c_sender c))\<rparr>\<rparr>"
  let ?c2 = "fold (\<lambda>(packet, address). resend now packet address) (rt_paths retry) ?c1"
  have "keeps L c ?c1" by (rule set_retry_keeps [OF assms mem]) simp
  then have "keeps L c ?c2" by (rule keeps_then) (rule resend_paths_keeps [OF _ paths])
  then have "keeps L c (conn_recalculateRetryTimeout (?c2\<lparr>c_sender := (c_sender ?c2)\<lparr>sn_rtt := y, sn_windowSize := w\<rparr>\<rparr>))" for y w
    by (intro keeps_then [OF keeps_then [OF _ set_timing_keeps] conn_recalculate_keeps])
  then show ?thesis using Some x assms by (simp add: onRetryTimeout_def Let_def fail_keeps conn_recalculate_keeps)
qed

lemma probe_onTimeout_side:
  assumes "side L c"
  shows "side_step L c (probe_onTimeout now c)"
proof -
  let ?c1 = "c\<lparr>c_probe := (c_probe c)\<lparr>pr_isRegistered := False\<rparr>\<rparr>"
  have 1: "keeps L c ?c1" by (rule upd_keeps(2) [OF assms])
  have 2: "side_step L c (probe_on now ?c1)" by (rule keeps_step [OF keeps_then [OF 1 probe_on_keeps]])
  have "side_step L c (sendReliably now (set_type PROBE new_packet) None (probe_on now ?c1))"
    by (rule side_step_then [OF 2 control_side]) (simp_all add: reliable_types_def)
  moreover have "side_step L c (fail now MRUDP_EVENT_TIMEOUT (probe_on now ?c1))" by (rule side_step_then [OF 2 keeps_step [OF fail_keeps]])
  moreover have "side_step L c (registerTimeout t ?c1)" for t by (rule keeps_step [OF keeps_then [OF 1 registerTimeout_keeps]])
  ultimately show ?thesis using assms by (simp add: probe_onTimeout_def Let_def side_step_refl)
qed

end
