(* ===== verification/Stream_Receive.thy ===== *)
theory Stream_Receive
  imports Stream_Side
begin

text \<open>
  One end of a connection as the receiver of packets of the other end: reliable data goes through the receive queue to the user, and every
  other packet leaves what the user has received alone. In both cases the end stays in accordance with its ledger.
\<close>

section \<open>Listening\<close>

text \<open>
  The frames \<open>fs\<close> have been processed with the receive queue at \<open>q\<close>: the user has got the data of the first of them, and of all of them if it still listens.
\<close>

definition listens :: "Ledger \<Rightarrow> ReceiveQueue \<Rightarrow> Frame list \<Rightarrow> Connection \<Rightarrow> Connection \<Rightarrow> bool" where
  "listens L q fs c c' \<longleftrightarrow> (\<exists>L'. grows L L' \<and> side L' c' \<and> lg_count L' + sent_count c \<le> lg_count L + sent_count c')
     \<and> rv_receiveQueue (c_receiver c') = q \<and> (c_receiveHandler c' \<longrightarrow> c_receiveHandler c)
     \<and> (\<not> c_receiveHandler c \<longrightarrow> heard c' = heard c)
     \<and> (\<exists>m \<le> length fs. heard c' = heard c @ concat (map f_data (take m fs)) \<and> (c_receiveHandler c' \<longrightarrow> m = length fs))"

lemma listens_quiet: "side_step L c c' \<Longrightarrow> \<forall>f \<in> set fs. f_data f = [] \<Longrightarrow> listens L (rv_receiveQueue (c_receiver c)) fs c c'"
  unfolding listens_def side_step_def quiet_def by (auto intro!: exI [of _ "length fs"])

lemma listens_append:
  assumes "listens L q fs a b" and "\<And>L'. grows L L' \<Longrightarrow> side L' b \<Longrightarrow> listens L' (rv_receiveQueue (c_receiver b)) gs b c"
  shows "listens L q (fs @ gs) a c"
proof -
  obtain L1 where 1: "grows L L1" "side L1 b" "lg_count L1 + sent_count a \<le> lg_count L + sent_count b"
    using assms(1) unfolding listens_def by blast
  note 2 = assms(2) [OF 1(1,2)]
  obtain L2 where 3: "grows L1 L2" "side L2 c" "lg_count L2 + sent_count b \<le> lg_count L1 + sent_count c"
    using 2 unfolding listens_def by blast
  obtain m1 where m1: "m1 \<le> length fs" "heard b = heard a @ concat (map f_data (take m1 fs))" "c_receiveHandler b \<longrightarrow> m1 = length fs"
    using assms(1) unfolding listens_def by blast
  obtain m2 where m2: "m2 \<le> length gs" "heard c = heard b @ concat (map f_data (take m2 gs))" "c_receiveHandler c \<longrightarrow> m2 = length gs"
    using 2 unfolding listens_def by blast
  have q: "rv_receiveQueue (c_receiver b) = q" "rv_receiveQueue (c_receiver c) = rv_receiveQueue (c_receiver b)"
    "c_receiveHandler c \<longrightarrow> c_receiveHandler b" "c_receiveHandler b \<longrightarrow> c_receiveHandler a"
    "\<not> c_receiveHandler b \<longrightarrow> heard c = heard b" "\<not> c_receiveHandler a \<longrightarrow> heard b = heard a"
    using assms(1) 2 unfolding listens_def by simp_all
  have "\<exists>m \<le> length (fs @ gs). heard c = heard a @ concat (map f_data (take m (fs @ gs))) \<and> (c_receiveHandler c \<longrightarrow> m = length (fs @ gs))"
  proof (cases "c_receiveHandler b")
    case True
    then show ?thesis using m1 m2 by (intro exI [of _ "length fs + m2"]) auto
  next
    case False
    then show ?thesis using m1 q by (intro exI [of _ m1]) auto
  qed
  moreover have "lg_count L2 + sent_count a \<le> lg_count L + sent_count c" using 1(3) 3(3) by linarith
  moreover have "rv_receiveQueue (c_receiver c) = q" "c_receiveHandler c \<longrightarrow> c_receiveHandler a" "\<not> c_receiveHandler a \<longrightarrow> heard c = heard a"
    using q by auto
  ultimately show ?thesis using grows_trans [OF 1(1) 3(1)] 3(2) unfolding listens_def by blast
qed

lemma receive_data_fields:
  "sent_packets (c_out (receive_data bs r c)) = sent_packets (c_out c)" "c_sender (receive_data bs r c) = c_sender c" "c_id (receive_data bs r c) = c_id c"
  "c_options (receive_data bs r c) = c_options c" "c_receiver (receive_data bs r c) = c_receiver c" "c_receiveHandler (receive_data bs r c) = c_receiveHandler c"
  "heard (receive_data bs r c) = heard c @ (if c_receiveHandler c \<and> r = RELIABLE then bs else [])"
  by (simp_all add: receive_data_def emit_def heard_def Let_def)

lemma receive_data_keeps_unreliable: "side L c \<Longrightarrow> keeps L c (receive_data bs UNRELIABLE c)"
  by (rule keeps_same) (simp_all add: same_side_def same_sender_def quiet_def receive_data_fields)

lemma receive_data_listens:
  assumes "side L c"
  shows "listens L (rv_receiveQueue (c_receiver c)) [f] c (receive_data (f_data f) RELIABLE c)"
proof -
  have "side L (receive_data (f_data f) RELIABLE c)" using assms by (simp add: side_def receive_data_fields)
  then show ?thesis unfolding listens_def
    by (intro conjI exI [of _ L] exI [of _ "if c_receiveHandler c then 1 else 0"]) (simp_all add: receive_data_fields)
qed

definition stream_frame :: "Frame \<Rightarrow> bool" where
  "stream_frame f \<longleftrightarrow> f_type f = DATA \<or> f_type f = CLOSE_WRITE \<and> f_data f = []"

lemma processReceived_listens:
  assumes "side L c" and "stream_frame f"
  shows "listens L (rv_receiveQueue (c_receiver c)) [f] c (processReceived z u now RELIABLE f c)"
proof (cases "f_type f = DATA")
  case True
  then have "processReceived z u now RELIABLE f c = receive_data (f_data f) RELIABLE c" by (simp add: processReceived_def)
  with receive_data_listens [OF assms(1)] show ?thesis by simp
next
  case False
  with assms(2) have f: "f_type f = CLOSE_WRITE" "f_data f = []" by (simp_all add: stream_frame_def)
  then have "processReceived z u now RELIABLE f c = possiblyClose now (receiver_close now c)" by (simp add: processReceived_def)
  moreover have "side_step L c (possiblyClose now (receiver_close now c))"
    by (rule side_step_then [OF receiver_close_side [OF assms(1)] keeps_step [OF possiblyClose_keeps]])
  ultimately show ?thesis using listens_quiet [of L c _ "[f]"] f(2) by simp
qed

lemma processReceived_fold_listens:
  assumes "side L c" and "\<forall>f \<in> set fs. stream_frame f"
  shows "listens L (rv_receiveQueue (c_receiver c)) fs c (fold (processReceived z u now RELIABLE) fs c)"
  using assms
proof (induction fs arbitrary: L c)
  case Nil
  then show ?case using listens_quiet [OF side_step_refl, of L c "[]"] by simp
next
  case (Cons f fs)
  have "listens L (rv_receiveQueue (c_receiver c)) ([f] @ fs) c (fold (processReceived z u now RELIABLE) fs (processReceived z u now RELIABLE f c))"
    using Cons.prems by (intro listens_append [OF processReceived_listens]) (auto intro: Cons.IH)
  then show ?case by simp
qed

section \<open>Packets that carry no stream\<close>

lemma processReceived_unreliable:
  assumes "side L c" and "ack_frame_ok (lg_done L) f"
  shows "side_step L c (processReceived z u now UNRELIABLE f c)"
proof (cases "f_type f = DATA")
  case True
  then show ?thesis using receive_data_keeps_unreliable [OF assms(1)] by (simp add: processReceived_def keeps_step)
next
  case False
  then obtain i d where f: "f_type f = ACK_FRAME" "i \<in> lg_done L" "f_data f = enc_ack i d" using assms(2) unfolding ack_frame_ok_def by blast
  then have "processReceived z u now UNRELIABLE f c = onAck z now i d c"
    by (simp add: processReceived_def enc_ack_def)
  with onAck_side [OF assms(1) f(2)] show ?thesis by simp
qed

lemma over_read_keeps: "side L c \<Longrightarrow> keeps L c (over_read b c)"
  by (simp add: over_read_def keeps_refl emit_keeps)

lemma unreliable_packet_side:
  assumes "side L c" and "ack_packet_ok (lg_done L) p"
  shows "side_step L c (let (frames, over) = urq_onReceive p in over_read over (fold (processReceived z u now UNRELIABLE) frames c))"
proof -
  have "side_step L c (fold (processReceived z u now UNRELIABLE) (frames_of p) c)"
    using assms grows_fields(4) by (intro side_step_fold) (auto simp: ack_packet_ok_def intro!: processReceived_unreliable)
  then have "side_step L c (over_read b (fold (processReceived z u now UNRELIABLE) (frames_of p) c))" for b
    by (rule side_step_then) (rule keeps_step [OF over_read_keeps])
  then show ?thesis by (simp add: frames_of_def case_prod_beta)
qed

text \<open>What the other end may send, apart from reliable data.\<close>

definition incoming_ok :: "Ledger \<Rightarrow> Packet \<Rightarrow> bool" where
  "incoming_ok L p \<longleftrightarrow> pk_type p \<noteq> DATA_RELIABLE \<and> (isAck (pk_type p) \<longrightarrow> pk_id p \<in> lg_done L)
     \<and> (pk_type p = DATA_UNRELIABLE \<longrightarrow> ack_packet_ok (lg_done L) p) \<and> (pk_type p \<in> reliable_types \<longrightarrow> pk_id p \<in> lg_acks L)"

lemma incoming_ok_grows: "grows L L' \<Longrightarrow> incoming_ok L p \<Longrightarrow> incoming_ok L' p"
  using grows_fields(3,4) [of L L'] by (simp add: incoming_ok_def)

lemma receiver_onReceive_side:
  assumes "side L c" and "incoming_ok L p"
  shows "side_step L c (receiver_onReceive z u now p c)"
proof -
  have ack: "requiresAck (pk_type p) \<Longrightarrow> pk_id p \<in> lg_acks L" using assms(2) by (auto simp: incoming_ok_def requiresAck_def reliable_types_def)
  define c1 where "c1 = (if requiresAck (pk_type p) then sender_ack z now (pk_id p) c else c)"
  have 1: "side_step L c c1" using assms(1) ack by (simp add: c1_def sender_ack_side side_step_refl)
  have "side_step L c (receiver_dispatch z u now p c1)"
  proof (cases "pk_type p = DATA_UNRELIABLE")
    case True
    have "ack_packet_ok (lg_done L') p" if "grows L L'" for L' using incoming_ok_grows [OF that assms(2)] True by (simp add: incoming_ok_def)
    then have "side_step L c (let (frames, over) = urq_onReceive p in over_read over (fold (processReceived z u now UNRELIABLE) frames c1))"
      by (intro side_step_then [OF 1 unreliable_packet_side])
    with True show ?thesis by (simp add: receiver_dispatch_def)
  next
    case False
    with 1 assms(2) show ?thesis by (simp add: receiver_dispatch_def incoming_ok_def)
  qed
  with assms(1) show ?thesis by (simp add: receiver_onReceive_def c1_def side_step_refl)
qed

section \<open>Handshake and network path\<close>

lemma set_waitingFor_keeps: "side L c \<Longrightarrow> keeps L c (set_waitingFor t c)"
  unfolding set_waitingFor_def by (rule upd_keeps(3))

text \<open>The receive queue holds nothing that could be delivered.\<close>

definition drained :: "Connection \<Rightarrow> bool" where
  "drained c \<longleftrightarrow> processQueue (rv_receiveQueue (c_receiver c)) = ([], rv_receiveQueue (c_receiver c))"

lemma drained_quiet: "quiet c c' \<Longrightarrow> drained c \<Longrightarrow> drained c'"
  by (simp add: quiet_def drained_def)

lemma side_step_quiet: "side_step L c c' \<Longrightarrow> quiet c c'" and keeps_quiet: "keeps L c c' \<Longrightarrow> quiet c c'"
  by (simp_all add: side_step_def keeps_def)

lemma onHandshakeComplete_side:
  assumes "side L c" and "drained c"
  shows "side_step L c (onHandshakeComplete z u now c)"
proof -
  have "set_receiveQueue (rv_receiveQueue (c_receiver c)) c = c" by (simp add: set_receiveQueue_def)
  then have "receiver_open z u now c = (if rv_status (c_receiver c) = UNINITIALIZED then set_rv_status OPEN c else c)"
    using assms(2) by (simp add: receiver_open_def drained_def)
  then have "side_step L c (receiver_open z u now c)" using assms(1) by (simp add: keeps_step set_rv_status_keeps side_step_refl)
  then show ?thesis unfolding onHandshakeComplete_def by (rule side_step_then) (rule sender_open_side)
qed

lemma reply_logical:
  assumes "pk_type q = H1 \<or> pk_type q = H3 \<or> pk_type q = AUTHENTICATE_RESPONSE" and "pk_id q \<in> lg_acks L"
  shows "logical_ok L q"
  using assms by (auto simp: logical_ok_def reliable_types_def isAck_def)

lemma pk_id_simps: "pk_id (set_id i p) = i" "pk_id (snd (pushT p bs)) = pk_id p" "pk_id (p\<lparr>pk_data := d\<rparr>) = pk_id p" "pk_type (p\<lparr>pk_data := d\<rparr>) = pk_type p"
  by (simp_all add: set_id_def pk_id_def pk_type_def pushT_def pushData_def Let_def)

lemma complete_side:
  assumes "keeps L c c1" and "drained c"
  shows "side_step L c (onHandshakeComplete z u now ((set_waitingFor HANDSHAKE_COMPLETE c1)\<lparr>c_remoteID := i\<rparr>))"
    and "side_step L c (onHandshakeComplete z u now ((set_waitingFor HANDSHAKE_COMPLETE c1)\<lparr>c_remoteID := i, c_handshake := h\<rparr>))"
proof -
  have k: "keeps L c ((set_waitingFor HANDSHAKE_COMPLETE c1)\<lparr>c_remoteID := i\<rparr>)"
    by (rule keeps_then [OF keeps_then [OF assms(1) set_waitingFor_keeps] upd_keeps(4)])
  then have k': "keeps L c ((set_waitingFor HANDSHAKE_COMPLETE c1)\<lparr>c_remoteID := i, c_handshake := h\<rparr>)"
    by (rule keeps_then) (rule upd_keeps(3))
  show "side_step L c (onHandshakeComplete z u now ((set_waitingFor HANDSHAKE_COMPLETE c1)\<lparr>c_remoteID := i\<rparr>))"
    by (rule side_step_then [OF keeps_step [OF k] onHandshakeComplete_side [OF _ drained_quiet [OF keeps_quiet [OF k] assms(2)]]])
  show "side_step L c (onHandshakeComplete z u now ((set_waitingFor HANDSHAKE_COMPLETE c1)\<lparr>c_remoteID := i, c_handshake := h\<rparr>))"
    by (rule side_step_then [OF keeps_step [OF k'] onHandshakeComplete_side [OF _ drained_quiet [OF keeps_quiet [OF k'] assms(2)]]])
qed

lemma pk_id_readRemoteID: "pk_id (snd (readRemoteID p)) = pk_id p"
  by (auto simp: readRemoteID_def popData_def pk_id_def Let_def split: option.splits if_splits)

lemma handlePacket_side:
  assumes "side L c" and "drained c" and "pk_type p = H0 \<or> pk_type p = H2 \<Longrightarrow> pk_id p \<in> lg_acks L"
  shows "side_step L c (snd (handlePacket z u now p c))"
proof -
  consider "pk_type p = H0" | "pk_type p = H1" | "pk_type p = H2" | "pk_type p = H3" | "pk_type p \<notin> {H0, H1, H2, H3}" by blast
  then show ?thesis
  proof cases
    case 1
    then have "logical_ok L (handshake_ack H1 p)" using assms(3) by (intro reply_logical) (simp_all add: handshake_ack_def pk_id_simps)
    then have k: "keeps L c (conn_send now (handshake_ack H1 p) None c)" by (rule conn_send_keeps [OF assms(1)])
    show ?thesis using 1 keeps_step [OF k] keeps_step [OF keeps_then [OF k set_waitingFor_keeps]] by (simp add: handlePacket_def Let_def)
  next
    case 2
    have "side_step L c (sendReliably now (snd (pushT (set_type H2 new_packet) (enc_word 2 (c_localID c)))) None (set_waitingFor H3 c))"
      by (rule side_step_then [OF keeps_step [OF set_waitingFor_keeps [OF assms(1)]] control_side]) (simp_all add: reliable_types_def)
    with 2 assms(1) show ?thesis by (simp add: handlePacket_def Let_def side_step_refl)
  next
    case 3
    let ?q = "snd (pushT (handshake_ack H3 (snd (readRemoteID p))) (enc_word 2 (c_localID c)))"
    have "logical_ok L ?q" using assms(3) 3 by (intro reply_logical) (simp_all add: handshake_ack_def pk_id_simps pk_id_readRemoteID)
    then have k: "keeps L c (conn_send now ?q None c)" by (rule conn_send_keeps [OF assms(1)])
    show ?thesis using 3 keeps_step [OF k] complete_side(2) [OF k assms(2)] by (simp add: handlePacket_def Let_def case_prod_beta)
  next
    case 4
    then show ?thesis using complete_side(1) [OF keeps_refl [OF assms(1)] assms(2)] assms(1)
      by (simp add: handlePacket_def Let_def case_prod_beta side_step_refl)
  qed (use assms(1) in \<open>simp add: handlePacket_def Let_def side_step_refl\<close>)
qed

lemma sendChallenge_side: "side L c \<Longrightarrow> side_step L c (sendChallenge now a c)"
proof -
  assume s: "side L c"
  have "pk_type (challenge_packet now x) = AUTHENTICATE_CHALLENGE" for x by (simp add: challenge_packet_def Let_def)
  then show ?thesis unfolding sendChallenge_def
    by (intro sendReliablyMultipath_side [where J = "{}" and t = AUTHENTICATE_CHALLENGE and js = "[]"])
      (simp_all add: s sideD [OF s] paths_enter_def reliable_types_def)
qed

lemma np_onReceive_side:
  assumes "side L c" and "pk_type p = AUTHENTICATE_CHALLENGE \<Longrightarrow> pk_id p \<in> lg_acks L" and "np_onReceive now p from c = (b, p', c')"
  shows "side_step L c c'" "pk_type p' = pk_type p" "pk_id p' = pk_id p" "pk_type p \<noteq> AUTHENTICATE_RESPONSE \<Longrightarrow> p' = p"
proof -
  have pop: "pk_id (snd (popVector q)) = pk_id q" for q
    by (auto simp: popVector_def popData_def pk_id_def Let_def split: option.splits if_splits)
  have v: "pk_id (snd (verifyChallengeResponse now p from c)) = pk_id p"
    using pop [of p] pop [of "snd (popVector p)"]
    by (auto simp: verifyChallengeResponse_def Let_def split: prod.splits option.splits if_splits)
  have "pk_type p = AUTHENTICATE_CHALLENGE \<Longrightarrow>
      logical_ok L ((set_id (pk_id p) (set_type AUTHENTICATE_RESPONSE new_packet))\<lparr>pk_data := pk_data p\<rparr>)"
    using assms(2) by (intro reply_logical) (simp_all add: pk_id_simps)
  then have 1: "pk_type p = AUTHENTICATE_CHALLENGE \<Longrightarrow> side_step L c (sendChallengeResponse now p c)"
    unfolding sendChallengeResponse_def by (rule keeps_step [OF conn_send_keeps [OF assms(1)]])
  have 2: "side_step L c (onRemoteAddressChanged from c)"
    unfolding onRemoteAddressChanged_def by (rule keeps_step [OF keeps_then [OF upd_keeps(5) [OF assms(1)] emit_keeps]]) simp_all
  show "side_step L c c'" using assms(3) 1 2 sendChallenge_side [OF assms(1)] side_step_refl [OF assms(1)]
    by (auto simp: np_onReceive_def split: if_splits prod.splits bool.splits)
  show "pk_type p' = pk_type p" "pk_id p' = pk_id p" "pk_type p \<noteq> AUTHENTICATE_RESPONSE \<Longrightarrow> p' = p"
    using assms(3) v verify_type [of now p "from" c] by (auto simp: np_onReceive_def split: if_splits prod.splits bool.splits)
qed

section \<open>Receiving a packet\<close>

lemma incoming_ok_cong: "incoming_ok L p \<Longrightarrow> pk_type q = pk_type p \<Longrightarrow> pk_id q = pk_id p \<Longrightarrow> (pk_type p = DATA_UNRELIABLE \<Longrightarrow> q = p) \<Longrightarrow> incoming_ok L q"
  unfolding incoming_ok_def by metis

lemma ho_onReceive_keeps:
  assumes "side L c" and "ho_onReceive p c = Some (p', c')"
  shows "keeps L c c'" "pk_type p' = pk_type p" "pk_id p' = pk_id p" "pk_type p \<noteq> H3 \<Longrightarrow> p' = p"
proof -
  have "keeps L c (c\<lparr>c_options := (c_options c)\<lparr>opt_probe_delay_ms := x, opt_maximum_retry_attempts := y\<rparr>\<rparr>)" for x y
    by (rule keeps_same [OF assms(1)]) (simp_all add: same_side_def same_sender_def quiet_def heard_def)
  then show "keeps L c c'" using assms by (auto simp: ho_onReceive_def keeps_refl split: if_splits option.splits)
  show "pk_type p' = pk_type p" "pk_id p' = pk_id p" "pk_type p \<noteq> H3 \<Longrightarrow> p' = p"
    using assms(2) by (auto simp: ho_onReceive_def popData_def pk_type_def pk_id_def Let_def split: if_splits option.splits)
qed

lemma handshake_onReceive_side:
  assumes "side L c" and "drained c" and "incoming_ok L p" and "handshake_onReceive z u now p c = (p', c')"
  shows "side_step L c c'" "incoming_ok L p'"
proof -
  have "side_step L c (snd (handlePacket z u now p c))"
    using assms(3) by (intro handlePacket_side [OF assms(1,2)]) (auto simp: incoming_ok_def reliable_types_def)
  then show "side_step L c c'" using assms(1,4) by (simp add: handshake_onReceive_def side_step_refl split: if_splits)
  have "fst (handlePacket z u now p c) = p \<or> fst (handlePacket z u now p c) = snd (readRemoteID p)"
    by (simp add: handlePacket_def Let_def case_prod_beta)
  then have "incoming_ok L (fst (handlePacket z u now p c))" if "isHandshake (pk_type p)"
    using that assms(3) by (elim disjE) (auto intro!: incoming_ok_cong [OF assms(3)] simp: pk_id_readRemoteID isHandshake_def)
  then show "incoming_ok L p'" using assms(3,4) by (simp add: handshake_onReceive_def split: if_splits)
qed

lemma receive_other:
  assumes "side L c" and "drained c" and "incoming_ok L p"
  shows "side_step L c (conn_receive z u now p from c)"
proof (cases "ho_onReceive p c")
  case None
  then show ?thesis using assms(1) by (simp add: conn_receive_def side_step_refl)
next
  case (Some x)
  obtain p1 c1 where x: "ho_onReceive p c = Some (p1, c1)" using Some by (cases x) auto
  note ho = ho_onReceive_keeps [OF assms(1) x]
  let ?c2 = "c1\<lparr>c_statistics := stat_onReceive p1 (c_statistics c1)\<rparr>"
  have 2: "keeps L c ?c2" by (rule keeps_then [OF ho(1) upd_keeps(1)])
  then have s2: "side L ?c2" by (simp add: keeps_def)
  have i1: "incoming_ok L p1" by (rule incoming_ok_cong [OF assms(3) ho(2,3)]) (rule ho(4), simp)
  obtain b p2 c3 where np: "np_onReceive now p1 from ?c2 = (b, p2, c3)" by (metis surj_pair)
  have "pk_type p1 = AUTHENTICATE_CHALLENGE \<Longrightarrow> pk_id p1 \<in> lg_acks L" using i1 by (auto simp: incoming_ok_def reliable_types_def)
  then have n: "pk_type p2 = pk_type p1" "pk_id p2 = pk_id p1" "pk_type p1 \<noteq> AUTHENTICATE_RESPONSE \<Longrightarrow> p2 = p1"
    using np_onReceive_side(2-4) [OF s2 _ np] by blast+
  have 3: "side_step L c c3" using side_step_then [OF keeps_step [OF 2], of c3] np_onReceive_side(1) [OF _ _ np] i1 incoming_ok_grows
    by (auto simp: incoming_ok_def reliable_types_def)
  have i2: "incoming_ok L p2" by (rule incoming_ok_cong [OF i1 n(1,2)]) (rule n(3), simp)
  show ?thesis
  proof (cases b)
    case False
    then show ?thesis using x np 3 by (simp add: conn_receive_def)
  next
    case True
    obtain p3 c4 where h: "handshake_onReceive z u now p2 c3 = (p3, c4)" by (metis surj_pair)
    have d: "drained c3" by (rule drained_quiet [OF side_step_quiet [OF 3] assms(2)])
    have 4: "side_step L c c4"
      by (rule side_step_then [OF 3]) (rule handshake_onReceive_side(1) [OF _ d incoming_ok_grows [OF _ i2] h])
    have i3: "incoming_ok L' p3" if "grows L L'" for L'
    proof -
      obtain L3 where L3: "grows L L3" "side L3 c3" using 3 by (auto simp: side_step_def)
      have "incoming_ok L3 p3" by (rule handshake_onReceive_side(2) [OF L3(2) d incoming_ok_grows [OF L3(1) i2] h])
      then show ?thesis using grows_fields(3,4) [OF L3(1)] grows_fields(3,4) [OF that] by (simp add: incoming_ok_def)
    qed
    have "side_step L c (sender_onReceive z now p3 (probe_on now c4))"
      by (rule side_step_then [OF side_step_then [OF 4 keeps_step [OF probe_on_keeps]] sender_onReceive_side])
        (use i3 in \<open>simp_all add: incoming_ok_def\<close>)
    then have "side_step L c (receiver_onReceive z u now p3 (sender_onReceive z now p3 (probe_on now c4)))"
      by (rule side_step_then) (rule receiver_onReceive_side, simp_all add: i3)
    then show ?thesis using x np h True by (simp add: conn_receive_def)
  qed
qed

text \<open>
  A packet of reliable data is dropped, or it is acknowledged and its frames go through the receive queue.
\<close>

definition acking :: "PacketID \<Rightarrow> Ledger \<Rightarrow> Ledger" where
  "acking i L = L\<lparr>lg_acks := insert i (lg_acks L)\<rparr>"

lemma receive_reliable:
  assumes "side L c" and "pk_type p = DATA_RELIABLE" and "rq_onReceive (rv_receiveQueue (c_receiver c)) p = (fs, q)" and "\<forall>f \<in> set fs. stream_frame f"
    and "side (acking (pk_id p) L) c"
  shows "side_step L c (conn_receive z u now p from c) \<or> listens (acking (pk_id p) L) q fs c (conn_receive z u now p from c)"
proof -
  let ?c2 = "c\<lparr>c_statistics := stat_onReceive p (c_statistics c)\<rparr>"
  let ?c3 = "probe_on now ?c2" and ?L = "acking (pk_id p) L"
  have ho: "ho_onReceive p c = Some (p, c)" using assms(2) by (simp add: ho_onReceive_def)
  have k: "keeps M c ?c2" "keeps M c ?c3" if "side M c" for M
    using upd_keeps(1) [OF that] keeps_then [OF upd_keeps(1) [OF that] probe_on_keeps] by blast+
  show ?thesis
  proof (cases "from = c_remoteAddress c \<and> rv_status (c_receiver c) = OPEN")
    case False
    have "side_step L c (conn_receive z u now p from c)"
    proof (cases "from = c_remoteAddress c")
      case True
      with False have st: "rv_status (c_receiver c) \<noteq> OPEN" by simp
      have "conn_receive z u now p from c = ?c3"
        using True assms(2) ho st by (simp add: conn_receive_def np_onReceive_def handshake_onReceive_def isHandshake_def
            sender_onReceive_def isAck_def receiver_onReceive_def)
      with k(2) [OF assms(1)] show ?thesis by (simp add: keeps_step)
    next
      case False
      then have "conn_receive z u now p from c = sendChallenge now from ?c2"
        using assms(2) ho by (simp add: conn_receive_def np_onReceive_def)
      with side_step_then [OF keeps_step [OF k(1) [OF assms(1)]] sendChallenge_side] show ?thesis by simp
    qed
    then show ?thesis ..
  next
    case True
    define c4 where "c4 = sender_ack z now (pk_id p) ?c3"
    have 4: "side_step ?L c c4" unfolding c4_def
    proof (rule side_step_then [OF keeps_step [OF k(2) [OF assms(5)]] sender_ack_side])
      show "pk_id p \<in> lg_acks L'" if "grows ?L L'" for L' using grows_fields(3) [OF that] by (simp add: acking_def)
    qed
    have st: "rv_receiveQueue (c_receiver c4) = rv_receiveQueue (c_receiver c)" using side_step_quiet [OF 4] by (simp add: quiet_def)
    have eq: "conn_receive z u now p from c = fold (processReceived z u now RELIABLE) fs (set_receiveQueue q c4)"
      using True assms(2,3) ho st unfolding c4_def
      by (simp add: conn_receive_def np_onReceive_def handshake_onReceive_def isHandshake_def sender_onReceive_def isAck_def
          receiver_onReceive_def requiresAck_def receiver_dispatch_def case_prod_beta)
    obtain L4 where L4: "grows ?L L4" "side L4 c4" "lg_count L4 + sent_count c \<le> lg_count ?L + sent_count c4"
      using 4 by (auto simp: side_step_def)
    have "side L4 (set_receiveQueue q c4)" using L4(2) by (simp add: side_def set_receiveQueue_def)
    then have l: "listens L4 q fs (set_receiveQueue q c4) (conn_receive z u now p from c)"
      using processReceived_fold_listens [of L4 "set_receiveQueue q c4" fs z u now] assms(4) eq by (simp add: set_receiveQueue_def)
    have same: "sent_packets (c_out (set_receiveQueue q c4)) = sent_packets (c_out c4)" "heard (set_receiveQueue q c4) = heard c"
      "c_receiveHandler (set_receiveQueue q c4) \<longrightarrow> c_receiveHandler c"
      using side_step_quiet [OF 4] by (simp_all add: set_receiveQueue_def heard_def quiet_def)
    have "listens ?L q fs c (conn_receive z u now p from c)"
      using l same grows_trans [OF L4(1)] L4(3) unfolding listens_def by (elim conjE exE) (intro conjI exI, assumption | force)+
    then show ?thesis ..
  qed
qed

end
