(* ===== verification/Reliable_Stream.thy ===== *)
theory Reliable_Stream
  imports Stream_Receive
begin

text \<open>
  Two connections and a network that loses, repeats, delays and reorders packets, with data going both ways. The data each user has received is the beginning of
  the data the other has sent, and all of it when the other's sender has nothing left to send or to have acknowledged: an ack means that the data has arrived.
\<close>

section \<open>The two ends\<close>

text \<open>A connection with the data its user has given it for reliable delivery, and the number of frames they were put into.\<close>

record End =
  en_conn :: Connection
  en_sent :: bytes
  en_frames :: nat

definition end_send :: "compressor \<Rightarrow> timepoint \<Rightarrow> bytes \<Rightarrow> Reliability \<Rightarrow> End \<Rightarrow> End" where
  "end_send z now data r e =
     (let res = user_send z now data r (en_conn e)
      in \<lparr>en_conn = snd res, en_sent = en_sent e @ (if r = RELIABLE \<and> fst res = OK then data else []),
          en_frames = en_frames e + length (send_frames data r (en_conn e))\<rparr>)"

definition end_close :: "compressor \<Rightarrow> timepoint \<Rightarrow> End \<Rightarrow> End" where
  "end_close z now e = e\<lparr>en_conn := conn_close z now (en_conn e), en_frames := en_frames e + length (close_frames (en_conn e))\<rparr>"

text \<open>The handlers that put nothing into the stream.\<close>

inductive conn_other :: "compressor \<Rightarrow> Connection \<Rightarrow> Connection \<Rightarrow> bool" for z where
  "conn_other z c (closeUser event c)"
| "conn_other z c (close_event now event c)"
| "conn_other z c (onRetryTimeout now c)"
| "conn_other z c (processSchedule z now reliability c)"
| "conn_other z c (probe_onTimeout now c)"
| "conn_other z c (finish c)"
| "conn_other z c (snd (conn_open now status c))"

inductive end_local :: "compressor \<Rightarrow> End \<Rightarrow> End \<Rightarrow> bool" for z where
  sends: "end_local z e (end_send z now data r e)"
| closes: "end_local z e (end_close z now e)"
| runs: "conn_other z (en_conn e) c \<Longrightarrow> end_local z e (e\<lparr>en_conn := c\<rparr>)"

definition end_receive :: "compressor \<Rightarrow> decompressor \<Rightarrow> timepoint \<Rightarrow> Packet \<Rightarrow> Address \<Rightarrow> End \<Rightarrow> End" where
  "end_receive z u now p from e = e\<lparr>en_conn := conn_receive z u now (snd (getLookUp p)) from (en_conn e)\<rparr>"

inductive link_step :: "compressor \<Rightarrow> decompressor \<Rightarrow> End \<times> End \<Rightarrow> End \<times> End \<Rightarrow> bool" for z u where
  first_runs: "end_local z a a' \<Longrightarrow> link_step z u (a, b) (a', b)"
| second_runs: "end_local z b b' \<Longrightarrow> link_step z u (a, b) (a, b')"
| to_second: "p \<in> set (sent_packets (c_out (en_conn a))) \<Longrightarrow> link_step z u (a, b) (a, end_receive z u now p from b)"
| to_first: "p \<in> set (sent_packets (c_out (en_conn b))) \<Longrightarrow> link_step z u (a, b) (end_receive z u now p from a, b)"

text \<open>Every handler of a connection is among them.\<close>

lemma end_local_complete: "conn_local z c c' \<Longrightarrow> en_conn e = c \<Longrightarrow> \<exists>e'. end_local z e e' \<and> en_conn e' = c'"
proof (erule conn_localE)
  fix now data r assume "en_conn e = c" "c' = snd (user_send z now data r c)"
  then have "en_conn (end_send z now data r e) = c'" by (simp add: end_send_def Let_def)
  then show ?thesis using end_local.sends [of z e now data r] by blast
next
  fix now assume "en_conn e = c" "c' = conn_close z now c"
  then have "en_conn (end_close z now e) = c'" by (simp add: end_close_def)
  then show ?thesis using end_local.closes [of z e now] by blast
qed (auto intro!: exI [of _ "e\<lparr>en_conn := c'\<rparr>"] end_local.runs conn_other.intros)

section \<open>What an end does to its ledger\<close>

lemma conn_other_side:
  assumes "conn_other z c c'" and "side L c"
  shows "side_step L c c'"
  using assms(1)
  by cases (simp_all add: keeps_step closeUser_keeps close_event_keeps onRetryTimeout_keeps processSchedule_side probe_onTimeout_side finish_keeps
      conn_open_def probe_on_keeps side_step_refl assms(2))

lemma user_send_side:
  assumes "side L c"
  shows "side_step (record_frames (send_frames data r c) L) c (snd (user_send z now data r c))"
proof -
  let ?c = "c\<lparr>c_statistics := stat_onSendDataFrame (length data) r (c_statistics c)\<rparr>"
  have "keeps L c ?c" by (rule upd_keeps(1) [OF assms])
  then have "side L ?c" "quiet c ?c" "sent_packets (c_out ?c) = sent_packets (c_out c)" by (simp_all add: keeps_def)
  moreover have "send_frames data r ?c = send_frames data r c" by (simp add: send_frames_def)
  ultimately show ?thesis using sender_send_side [of L ?c data r z now] quiet_trans
    unfolding user_send_def side_step_def by simp
qed

lemma open_unless_closed: "data_queue_ok F s \<Longrightarrow> sn_status s \<noteq> CLOSED \<Longrightarrow> sq_status (sn_dataQueue s) = IS_OPEN"
  by (cases "sq_status (sn_dataQueue s)") (auto simp: data_queue_ok_def)

lemma send_frames_data:
  assumes "side L c"
  shows "concat (map f_data (send_frames data r c)) = (if r = RELIABLE \<and> fst (user_send z now data r c) = OK then data else [])"
proof -
  let ?m = "co_mode (opt_coalesce_reliable (c_options c))"
  have plain: "?m \<noteq> MRUDP_COALESCE_STREAM_COMPRESSED" using sideD(3) [OF assms] by (simp add: plain_modes_def)
  have ok: "fst (user_send z now data RELIABLE c) = OK \<longleftrightarrow> sn_status (c_sender c) \<noteq> CLOSED \<and> admissible data ?m"
    by (simp add: user_send_def send_admissible coalesce_of_def)
  show ?thesis
  proof (cases "r = RELIABLE \<and> sn_status (c_sender c) \<noteq> CLOSED \<and> admissible data ?m")
    case True
    have "enqueue_type_ok DATA data ?m" using True plain by (simp add: enqueue_type_ok_def)
    from enq_frames_adds [OF sideD(6) [OF assms] this open_unless_closed [OF sideD(6) [OF assms]]] True
    have "concat (map f_data (send_frames data r c)) = data" by (simp add: send_frames_def adds_frames_def)
    with True ok show ?thesis by simp
  next
    case False
    then have "send_frames data r c = []" by (auto simp: send_frames_def)
    with False ok show ?thesis by auto
  qed
qed

lemma close_frames_data:
  assumes "side L c"
  shows "concat (map f_data (close_frames c)) = []"
proof (cases "sn_status (c_sender c) = CLOSED")
  case False
  have "enqueue_type_ok CLOSE_WRITE [] MRUDP_COALESCE_PACKET" by (simp add: enqueue_type_ok_def admissible_def)
  from enq_frames_adds [OF sideD(6) [OF assms] this open_unless_closed [OF sideD(6) [OF assms] False]] False
  show ?thesis by (simp add: close_frames_def adds_frames_def)
qed (simp add: close_frames_def)

text \<open>A handler extends the stream by some frames, whose data is what the user gave.\<close>

lemma end_local_side:
  assumes "end_local z e e'" and "side L (en_conn e)"
  shows "\<exists>new. side_step (record_frames new L) (en_conn e) (en_conn e') \<and> en_frames e' = en_frames e + length new
    \<and> en_sent e' = en_sent e @ concat (map f_data new)"
  using assms(1)
proof cases
  case (sends now data r)
  then show ?thesis using user_send_side [OF assms(2)] send_frames_data [OF assms(2)]
    by (intro exI [of _ "send_frames data r (en_conn e)"]) (simp add: end_send_def Let_def)
next
  case (closes now)
  then show ?thesis using conn_close_side [OF assms(2)] close_frames_data [OF assms(2)]
    by (intro exI [of _ "close_frames (en_conn e)"]) (simp add: end_close_def)
next
  case (runs c)
  then show ?thesis using conn_other_side [OF _ assms(2)] by (intro exI [of _ "[]"]) simp
qed

section \<open>The stream at the other end\<close>

definition stream :: "Frame list \<Rightarrow> nat \<Rightarrow> Frame" where
  "stream F n = (if n < length F then F ! n else \<lparr>f_id = of_nat n, f_type = DATA, f_data = []\<rparr>)"

lemma stream_numbered: "stream_ok F \<Longrightarrow> numbered (stream F)"
proof -
  assume "stream_ok F"
  then have "map f_id F = map (\<lambda>k. of_nat k) [0..<length F]" by (simp add: stream_ok_def consecutive_def)
  then have "f_id (F ! n) = of_nat n" if "n < length F" for n using that by (metis add_0 diff_zero length_upt nth_map nth_upt)
  then show ?thesis by (simp add: numbered_def stream_def)
qed

text \<open>
  The receive queue has the frames with the numbers \<open>seen\<close>; the user has got the data up to the first missing one, or up to where it stopped listening.
\<close>

definition flows :: "Frame list \<Rightarrow> nat list \<Rightarrow> Connection \<Rightarrow> bool" where
  "flows F seen c \<longleftrightarrow> set seen \<subseteq> {..<length F} \<and> rq_state (stream F) (set seen) (mex seen) (rv_receiveQueue (c_receiver c))
     \<and> (\<exists>m \<le> mex seen. heard c = concat (map f_data (take m F)) \<and> (c_receiveHandler c \<longrightarrow> m = mex seen))"

lemma mex_le: "set seen \<subseteq> {..<n} \<Longrightarrow> mex seen \<le> n"
  using mex_below [of n seen] by (meson lessThan_iff not_le_imp_less less_irrefl subsetD)

lemma flows_quiet: "flows F seen c \<Longrightarrow> quiet c c' \<Longrightarrow> flows F seen c'"
  unfolding flows_def quiet_def by auto

lemma rq_state_extend:
  assumes "rq_state (stream F) R e q" and "R \<subseteq> {..<length F}"
  shows "rq_state (stream (F @ new)) R e q"
proof -
  have "stream (F @ new) n = stream F n" if "n \<in> R" for n using that assms(2) by (auto simp: stream_def nth_append)
  with assms(1) show ?thesis unfolding rq_state_def queue_holds_def by simp
qed

lemma flows_extend:
  assumes "flows F seen c"
  shows "flows (F @ new) seen c"
proof -
  have s: "set seen \<subseteq> {..<length F}" using assms by (simp add: flows_def)
  obtain m where m: "m \<le> mex seen" "heard c = concat (map f_data (take m F))" "c_receiveHandler c \<longrightarrow> m = mex seen"
    using assms by (auto simp: flows_def)
  have "m \<le> length F" using m(1) mex_le [OF s] by simp
  with m have "\<exists>m \<le> mex seen. heard c = concat (map f_data (take m (F @ new))) \<and> (c_receiveHandler c \<longrightarrow> m = mex seen)" by (intro exI [of _ m]) simp
  then show ?thesis using assms rq_state_extend [OF _ s] s unfolding flows_def by auto
qed

lemma flows_drained: "flows F seen c \<Longrightarrow> drained c"
proof -
  assume "flows F seen c"
  then have "rq_state (stream F) (set seen) (mex seen) (rv_receiveQueue (c_receiver c))" by (simp add: flows_def)
  then have "om_find (rq_queue (rv_receiveQueue (c_receiver c))) (rq_expectedID (rv_receiveQueue (c_receiver c))) = None"
    using mex_notin [of seen] by (simp add: rq_state_def queue_holds_def)
  then show ?thesis unfolding drained_def by (subst processQueue.simps) (simp add: processNext_def)
qed

lemma window_small:
  assumes "length F < 2 ^ 15" and "set seen \<subseteq> {..<length F}" and "set js \<subseteq> {..<length F}"
  shows "window_ok seen js"
  using assms(2,3)
proof (induction js arbitrary: seen)
  case (Cons j js)
  have "mex seen \<le> length F" by (rule mex_le [OF Cons.prems(1)])
  moreover have "j < length F" using Cons.prems(2) by simp
  ultimately have "in_window (mex seen) j" using assms(1) unfolding in_window_def by linarith
  with Cons show ?case by simp
qed simp

text \<open>A packet of the stream arrives.\<close>

lemma flows_receive:
  assumes "flows F seen c" and "stream_ok F" and "length F < 2 ^ 15" and "set js \<subseteq> {..<length F}"
    and "pk_data p = concat (map (\<lambda>j. enc_frame (F ! j)) js)"
    and "rq_onReceive (rv_receiveQueue (c_receiver c)) p = (fs, q)"
  shows "fs = map (stream F) [mex seen..<mex (seen @ js)]" and "rq_state (stream F) (set (seen @ js)) (mex (seen @ js)) q"
    and "\<forall>f \<in> set fs. stream_frame f"
proof -
  have s: "set seen \<subseteq> {..<length F}" and rq: "rq_state (stream F) (set seen) (mex seen) (rv_receiveQueue (c_receiver c))"
    using assms(1) by (simp_all add: flows_def)
  have "map (\<lambda>j. enc_frame (F ! j)) js = map enc_frame (map (stream F) js)" using assms(4) by (auto simp: stream_def)
  moreover have "\<forall>f \<in> set (map (stream F) js). small_frame f" using assms(2,4) by (auto simp: stream_ok_def stream_def)
  ultimately have "carries p (map (stream F) js)" using assms(5) by (simp only: carries_def)
  then have "rq_onReceive (rv_receiveQueue (c_receiver c)) p = receive_frames (rv_receiveQueue (c_receiver c)) (map (stream F) js)"
    by (rule rq_onReceive_carries)
  with receive_frames_run [OF rq stream_numbered [OF assms(2)] window_small [OF assms(3) s assms(4)]] assms(6)
  show fs: "fs = map (stream F) [mex seen..<mex (seen @ js)]" and "rq_state (stream F) (set (seen @ js)) (mex (seen @ js)) q" by simp_all
  have "set (seen @ js) \<subseteq> {..<length F}" using s assms(4) by simp
  then have "mex (seen @ js) \<le> length F" by (rule mex_le)
  then show "\<forall>f \<in> set fs. stream_frame f" using assms(2) unfolding fs by (auto simp: stream_def stream_ok_def stream_frame_def)
qed

lemma flows_listens:
  assumes "flows F seen c" and "set js \<subseteq> {..<length F}" and "fs = map (stream F) [mex seen..<mex (seen @ js)]"
    and "rq_state (stream F) (set (seen @ js)) (mex (seen @ js)) q" and "listens L q fs c c'"
  shows "flows F (seen @ js) c'"
proof -
  have s: "set (seen @ js) \<subseteq> {..<length F}" using assms(1,2) by (simp add: flows_def)
  have mono: "mex seen \<le> mex (seen @ js)" by (rule mex_mono) simp
  obtain m where m: "m \<le> mex seen" "heard c = concat (map f_data (take m F))" "c_receiveHandler c \<longrightarrow> m = mex seen"
    using assms(1) by (auto simp: flows_def)
  obtain k where k: "k \<le> length fs" "heard c' = heard c @ concat (map f_data (take k fs))" "c_receiveHandler c' \<longrightarrow> k = length fs"
    and q: "rv_receiveQueue (c_receiver c') = q" "c_receiveHandler c' \<longrightarrow> c_receiveHandler c" "\<not> c_receiveHandler c \<longrightarrow> heard c' = heard c"
    using assms(5) unfolding listens_def by blast
  have len: "length fs = mex (seen @ js) - mex seen" by (simp add: assms(3))
  have "\<exists>m \<le> mex (seen @ js). heard c' = concat (map f_data (take m F)) \<and> (c_receiveHandler c' \<longrightarrow> m = mex (seen @ js))"
  proof (cases "c_receiveHandler c")
    case True
    have "take k fs = take k (drop (mex seen) F)"
      using k(1) mex_le [OF s] unfolding assms(3) by (intro nth_equalityI) (auto simp: stream_def)
    then have "heard c' = concat (map f_data (take (mex seen) F @ take k (drop (mex seen) F)))" using k(2) m True by simp
    then have "heard c' = concat (map f_data (take (mex seen + k) F))" by (simp only: take_add)
    then show ?thesis using k len mono by (intro exI [of _ "mex seen + k"]) auto
  next
    case False
    then show ?thesis using m q mono by (intro exI [of _ m]) auto
  qed
  with assms(4) s q(1) show ?thesis by (simp add: flows_def)
qed

section \<open>The invariant of the two ends\<close>

text \<open>One direction: from \<open>a\<close>, whose ledger is \<open>L\<close>, to \<open>b\<close>, whose ledger is \<open>M\<close>.\<close>

definition half :: "Ledger \<Rightarrow> Ledger \<Rightarrow> nat list \<Rightarrow> End \<Rightarrow> End \<Rightarrow> bool" where
  "half L M seen a b \<longleftrightarrow> side L (en_conn a) \<and> length (lg_frames L) = en_frames a \<and> concat (map f_data (lg_frames L)) = en_sent a
     \<and> lg_seen L = set seen \<and> flows (lg_frames L) seen (en_conn b) \<and> lg_done L = lg_acks M \<and> lg_count L \<le> sent_count (en_conn a)"

definition link_inv :: "End \<times> End \<Rightarrow> bool" where
  "link_inv x \<longleftrightarrow> (case x of (a, b) \<Rightarrow> en_frames a < 2 ^ 15 \<and> en_frames b < 2 ^ 15 \<longrightarrow> (\<exists>L M s t. half L M s a b \<and> half M L t b a))"

lemma link_inv_sym: "link_inv (a, b) \<Longrightarrow> link_inv (b, a)"
  unfolding link_inv_def by blast

lemma end_local_frames: "end_local z e e' \<Longrightarrow> en_frames e \<le> en_frames e'"
  by (induction rule: end_local.induct) (simp_all add: end_send_def end_close_def Let_def)

lemma link_local:
  assumes "link_inv (a, b)" and "end_local z a a'"
  shows "link_inv (a', b)"
  unfolding link_inv_def split
proof (intro impI)
  assume small: "en_frames a' < 2 ^ 15 \<and> en_frames b < 2 ^ 15"
  then have "en_frames a < 2 ^ 15 \<and> en_frames b < 2 ^ 15" using end_local_frames [OF assms(2)] by simp
  then obtain L M s t where h: "half L M s a b" "half M L t b a" using assms(1) unfolding link_inv_def by blast
  then have "side L (en_conn a)" by (simp add: half_def)
  from end_local_side [OF assms(2) this] obtain new where new: "side_step (record_frames new L) (en_conn a) (en_conn a')"
    "en_frames a' = en_frames a + length new" "en_sent a' = en_sent a @ concat (map f_data new)" by blast
  then obtain L' where L': "quiet (en_conn a) (en_conn a')" "grows (record_frames new L) L'" "side L' (en_conn a')"
    "lg_count L' + sent_count (en_conn a) \<le> lg_count L + sent_count (en_conn a')" by (auto simp: side_step_def)
  note g = grows_fields [OF L'(2), unfolded record_frames_simps]
  have "half L' M s a' b" using h(1) L' new g(1-4) flows_extend [of "lg_frames L" s "en_conn b" new] by (auto simp: half_def)
  moreover have "half M L' t b a'" using h(2) flows_quiet [OF _ L'(1)] g(3) by (simp add: half_def)
  ultimately show "\<exists>L M s t. half L M s a' b \<and> half M L t b a'" by blast
qed

text \<open>What the other end has got and may acknowledge only grows.\<close>

definition arrives :: "PacketID \<Rightarrow> nat list \<Rightarrow> Ledger \<Rightarrow> Ledger" where
  "arrives i js L = L\<lparr>lg_seen := lg_seen L \<union> set js, lg_done := insert i (lg_done L)\<rparr>"

lemma arrives_simps [simp]:
  "lg_frames (arrives i js L) = lg_frames L" "lg_acks (arrives i js L) = lg_acks L" "lg_count (arrives i js L) = lg_count L"
  "lg_table (arrives i js L) = lg_table L" "lg_seen (arrives i js L) = lg_seen L \<union> set js" "lg_done (arrives i js L) = insert i (lg_done L)"
  "payload (arrives i js L) = payload L"
  by (simp_all add: arrives_def payload_def fun_eq_iff)

lemma side_arrives:
  assumes "side L c" and "entry_ok L k p" and "pk_type p = DATA_RELIABLE \<longrightarrow> js = snd (lg_table L k)"
  shows "side (arrives (pk_id p) js L) c"
proof -
  let ?L = "arrives (pk_id p) js L"
  have e: "entry_ok ?L = entry_ok L" by (simp add: fun_eq_iff entry_ok_def)
  have l: "logical_ok ?L = logical_ok L" by (simp add: fun_eq_iff logical_ok_def e)
  have "ledger_ok ?L" using sideD(1) [OF assms(1)] assms(2,3) unfolding ledger_ok_def entry_ok_def arrives_simps by (auto 0 4)
  moreover have "sender_ok ?L (c_sender c)"
    using sideD(4) [OF assms(1)] by (auto simp: sender_ok_def window_entries_ok_def e covered_def located_def)
  ultimately show ?thesis using assms(1) by (simp add: side_def l)
qed

lemma acking_simps [simp]:
  "lg_frames (acking i L) = lg_frames L" "lg_seen (acking i L) = lg_seen L" "lg_acks (acking i L) = insert i (lg_acks L)" "lg_done (acking i L) = lg_done L"
  "lg_count (acking i L) = lg_count L" "lg_table (acking i L) = lg_table L" "payload (acking i L) = payload L"
  by (simp_all add: acking_def payload_def fun_eq_iff)

lemma side_acking:
  assumes "side L c"
  shows "side (acking i L) c"
proof -
  let ?L = "acking i L"
  have e: "entry_ok ?L = entry_ok L" by (simp add: fun_eq_iff entry_ok_def)
  have f: "ack_frame_ok A f \<Longrightarrow> A \<subseteq> B \<Longrightarrow> ack_frame_ok B f" for A B f by (auto simp: ack_frame_ok_def)
  have l: "logical_ok ?L p" if "logical_ok L p" for p
    using that f [of "lg_acks L" _ "lg_acks ?L"] unfolding logical_ok_def e ack_packet_ok_def by (simp add: subset_insertI)
  have "ack_queue_ok (lg_acks ?L) (c_sender c)" using sideD(7) [OF assms] f [of "lg_acks L" _ "lg_acks ?L"]
    unfolding ack_queue_ok_def by (auto simp: subset_insertI)
  moreover have "ledger_ok ?L" using sideD(1) [OF assms] by (simp add: ledger_ok_def)
  moreover have "window_entries_ok ?L (sn_retrier (c_sender c))" "covered ?L (c_sender c)"
    using sideD(8,9) [OF assms] by (simp_all add: window_entries_ok_def e covered_def located_def)
  ultimately show ?thesis using assms l by (simp add: side_def sender_ok_def)
qed

text \<open>The other direction, from the receiving end, after a packet that only changes its ledger.\<close>

lemma half_back:
  assumes "half M L t b a" and "grows M' M''" and "side M'' (en_conn b')"
    and "lg_count M'' + sent_count (en_conn b) \<le> lg_count M' + sent_count (en_conn b')"
    and "en_frames b' = en_frames b" and "en_sent b' = en_sent b" and "lg_frames M' = lg_frames M" and "lg_seen M' = lg_seen M" and "lg_done M' = lg_done M"
    and "lg_count M' = lg_count M" and "lg_acks L' = lg_acks L"
  shows "half M'' L' t b' a"
  using assms(1,3-11) grows_fields [OF assms(2)] by (auto simp: half_def)

lemma deliver_other:
  assumes "half L M s a b" and "half M L t b a" and "logical_ok L p" and "pk_type p \<noteq> DATA_RELIABLE" and "en_conn b' = conn_receive z u now p from (en_conn b)"
    and "en_frames b' = en_frames b" and "en_sent b' = en_sent b"
  shows "\<exists>L M. half L M s a b' \<and> half M L t b' a"
proof -
  have sL: "side L (en_conn a)" and sM: "side M (en_conn b)" and dn: "lg_done L = lg_acks M" "lg_done M = lg_acks L"
    and fl: "flows (lg_frames L) s (en_conn b)" using assms(1,2) by (simp_all add: half_def)
  define L' where "L' = (if pk_type p \<in> reliable_types then arrives (pk_id p) [] L else L)"
  define M' where "M' = (if pk_type p \<in> reliable_types then acking (pk_id p) M else M)"
  have "\<exists>k. entry_ok L k p" if "pk_type p \<in> reliable_types" using assms(3) that by (simp add: logical_ok_def)
  then have sL': "side L' (en_conn a)" using side_arrives [OF sL, of _ p "[]"] sL assms(4) by (auto simp: L'_def)
  have sM': "side M' (en_conn b)" using side_acking [OF sM] sM by (simp add: M'_def)
  have "incoming_ok M' p" using assms(3,4) dn(2) by (auto simp: incoming_ok_def logical_ok_def M'_def)
  with receive_other [OF sM' flows_drained [OF fl]] assms(5)
  have st: "side_step M' (en_conn b) (en_conn b')" by simp
  then obtain M'' where M'': "grows M' M''" "side M'' (en_conn b')" "lg_count M'' + sent_count (en_conn b) \<le> lg_count M' + sent_count (en_conn b')"
    by (auto simp: side_step_def)
  have fM: "lg_frames M' = lg_frames M" "lg_seen M' = lg_seen M" "lg_done M' = lg_done M" "lg_count M' = lg_count M" "lg_acks L' = lg_acks L"
    "lg_frames L' = lg_frames L" "lg_seen L' = lg_seen L" "lg_count L' = lg_count L" "lg_done L' = lg_acks M'"
    using dn(1) by (simp_all add: M'_def L'_def)
  have "half L' M'' s a b'" using assms(1) sL' fM flows_quiet [OF fl side_step_quiet [OF st]] grows_fields(3) [OF M''(1)] by (simp add: half_def)
  moreover have "half M'' L' t b' a" by (rule half_back [OF assms(2) M'' assms(6,7) fM(1-5)])
  ultimately show ?thesis by blast
qed

lemma deliver_data:
  assumes "half L M s a b" and "half M L t b a" and "entry_ok L k p" and "pk_type p = DATA_RELIABLE" and "en_frames a < 2 ^ 15"
    and "en_conn b' = conn_receive z u now p from (en_conn b)" and "en_frames b' = en_frames b" and "en_sent b' = en_sent b"
  shows "\<exists>L M s. half L M s a b' \<and> half M L t b' a"
proof -
  have sL: "side L (en_conn a)" and sM: "side M (en_conn b)" and dn: "lg_done L = lg_acks M" and fl: "flows (lg_frames L) s (en_conn b)"
    and n: "length (lg_frames L) = en_frames a" using assms(1,2) by (simp_all add: half_def)
  have F: "stream_ok (lg_frames L)" using sideD(1) [OF sL] by (simp add: ledger_ok_def)
  define js where "js = snd (lg_table L k)"
  have js: "set js \<subseteq> {..<length (lg_frames L)}" "pk_data p = concat (map (\<lambda>j. enc_frame (lg_frames L ! j)) js)"
    using assms(3,4) by (simp_all add: entry_ok_def js_def payload_def)
  obtain fs q where rq: "rq_onReceive (rv_receiveQueue (c_receiver (en_conn b))) p = (fs, q)" by fastforce
  note r = flows_receive [OF fl F _ js rq, unfolded n, OF assms(5)]
  let ?M = "acking (pk_id p) M" and ?L = "arrives (pk_id p) js L"
  from receive_reliable [OF sM assms(4) rq r(3) side_acking [OF sM], of z u now "from"] assms(6)
  consider (drop) "side_step M (en_conn b) (en_conn b')" | (take) "listens ?M q fs (en_conn b) (en_conn b')" by auto
  then show ?thesis
  proof cases
    case drop
    then obtain M'' where M'': "grows M M''" "side M'' (en_conn b')" "lg_count M'' + sent_count (en_conn b) \<le> lg_count M + sent_count (en_conn b')"
      by (auto simp: side_step_def)
    have "half L M'' s a b'" using assms(1) flows_quiet [OF fl side_step_quiet [OF drop]] grows_fields(3) [OF M''(1)] by (simp add: half_def)
    moreover have "half M'' L t b' a" using M'' assms(2,7,8) grows_fields [OF M''(1)] by (auto simp: half_def)
    ultimately show ?thesis by blast
  next
    case take
    then obtain M'' where M'': "grows ?M M''" "side M'' (en_conn b')" "lg_count M'' + sent_count (en_conn b) \<le> lg_count ?M + sent_count (en_conn b')"
      by (auto simp: listens_def)
    note g = grows_fields [OF M''(1), unfolded acking_simps]
    have "side ?L (en_conn a)" by (rule side_arrives [OF sL assms(3)]) (simp add: js_def)
    then have "half ?L M'' (s @ js) a b'"
      using assms(1) flows_listens [OF fl js(1) r(1,2) take] g(3) dn by (simp add: half_def)
    moreover have "half M'' ?L t b' a" using M'' assms(2,7,8) g by (auto simp: half_def)
    ultimately show ?thesis by blast
  qed
qed

lemma link_receive:
  assumes "link_inv (a, b)" and "p \<in> set (sent_packets (c_out (en_conn a)))"
  shows "link_inv (a, end_receive z u now p from b)"
  unfolding link_inv_def split
proof (intro impI)
  let ?b = "end_receive z u now p from b" and ?p = "snd (getLookUp p)"
  have b: "en_conn ?b = conn_receive z u now ?p from (en_conn b)" "en_frames ?b = en_frames b" "en_sent ?b = en_sent b" by (simp_all add: end_receive_def)
  assume small: "en_frames a < 2 ^ 15 \<and> en_frames ?b < 2 ^ 15"
  then obtain L M s t where h: "half L M s a b" "half M L t b a" using assms(1) b(2) unfolding link_inv_def by auto
  then have "side L (en_conn a)" by (simp add: half_def)
  then have l: "logical_ok L ?p" using assms(2) by (simp add: side_def)
  show "\<exists>L M s t. half L M s a ?b \<and> half M L t ?b a"
  proof (cases "pk_type ?p = DATA_RELIABLE")
    case True
    then obtain k where "entry_ok L k ?p" using l by (auto simp: logical_ok_def reliable_types_def)
    from deliver_data [OF h this True _ b] small show ?thesis by blast
  next
    case False
    from deliver_other [OF h l False b] show ?thesis by blast
  qed
qed

lemma link_step_inv:
  assumes "link_inv x" and "link_step z u x y"
  shows "link_inv y"
  using assms(2)
proof cases
  case (first_runs a a' b)
  then show ?thesis using link_local [of a b z a'] assms(1) by simp
next
  case (second_runs b b' a)
  then show ?thesis using link_inv_sym [OF link_local [OF link_inv_sym, of a b z b']] assms(1) by simp
next
  case (to_second p a b now "from")
  then show ?thesis using link_receive [of a b p] assms(1) by simp
next
  case (to_first p b a now "from")
  then show ?thesis using link_inv_sym [OF link_receive [OF link_inv_sym, of a b p]] assms(1) by simp
qed

interpretation link: invariant_system "link_step z u" link_inv for z u
  by unfold_locales (rule link_step_inv)

section \<open>From the start\<close>

text \<open>A connection that its user has opened and nothing has been sent on.\<close>

definition opened_end :: "Connection \<Rightarrow> End" where
  "opened_end c = \<lparr>en_conn = c, en_sent = [], en_frames = 0\<rparr>"

definition empty_ledger :: Ledger where
  "empty_ledger = \<lparr>lg_frames = [], lg_seen = {}, lg_acks = {}, lg_done = {}, lg_count = 0, lg_table = (\<lambda>_. (0, []))\<rparr>"

lemma opened_connection_fresh:
  assumes "c = opened_connection o1 i a l o2 ud rh ch"
  shows "c_sender c = new_Sender" "c_receiver c = new_Receiver" "c_id c = i" "c_out c = []"
  unfolding assms by (simp_all add: opened_connection_def openUser_def new_Connection_def Let_def split: option.splits)

lemma opened_ledger:
  assumes "length i = 16" and "c = opened_connection o1 i a l o2 ud rh ch" and "plain_modes (c_options c)"
  shows "side empty_ledger c"
  unfolding side_def sender_ok_def opened_connection_fresh [OF assms(2)]
  using assms(1,3) opened_connection_fields(1)
  by (simp add: ledger_ok_def stream_ok_def consecutive_def data_queue_ok_def ack_queue_ok_def window_entries_ok_def covered_def empty_ledger_def
      new_Sender_def new_SendQueue_def new_Retrier_def sq_inv_def sq_frames_def sent_packets_def om_inv_def)

lemma opened_half:
  assumes "length i = 16" and "c = opened_connection o1 i a l o2 ud rh ch" and "plain_modes (c_options c)"
    and "quiet (opened_connection o3 j b m o4 ud' rh' ch') d"
  shows "half empty_ledger empty_ledger [] (opened_end c) (opened_end d)"
proof -
  have "flows [] [] (opened_connection o3 j b m o4 ud' rh' ch')"
    using opened_connection_fresh [OF refl, of o3 j b m o4 ud' rh' ch'] rq_state_new [of "stream []"]
    by (simp add: flows_def new_Receiver_def heard_def mex_def)
  then show ?thesis using opened_ledger [OF assms(1-3)] flows_quiet [OF _ assms(4)]
    by (simp add: half_def opened_end_def empty_ledger_def)
qed

lemma client_start_side:
  assumes "side L c"
  shows "side_step L c (client_start now c)"
proof -
  have 1: "side_step L c (snd (conn_open now MRUDP_OK c))"
    using probe_on_keeps [OF assms] by (simp add: conn_open_def keeps_step)
  have "side_step K d (initiate now d)" if "side K d" for K d
    unfolding initiate_def
    by (rule side_step_then [OF control_side [OF that] keeps_step [OF set_waitingFor_keeps]]) (simp_all add: reliable_types_def)
  then show ?thesis unfolding client_start_def by (rule side_step_then [OF 1])
qed

lemma link_start:
  assumes "length i = 16" and "c = opened_connection o1 i a l o2 ud rh ch" and "plain_modes (c_options c)"
    and "d = opened_connection o3 i a' l' o4 ud' rh' ch'" and "plain_modes (c_options d)"
  shows "link_inv (opened_end (client_start now c), opened_end d)"
proof -
  obtain L where L: "quiet c (client_start now c)" "grows empty_ledger L" "side L (client_start now c)"
    "lg_count L + sent_count c \<le> lg_count empty_ledger + sent_count (client_start now c)"
    using client_start_side [OF opened_ledger [OF assms(1-3)], of now] by (auto simp: side_step_def)
  note g = grows_fields(1-4) [OF L(2)]
  have "half empty_ledger empty_ledger [] (opened_end c) (opened_end d)"
    by (rule opened_half [OF assms(1-3), of o3 i a' l' o4 ud' rh' ch']) (simp add: assms(4))
  then have "half L empty_ledger [] (opened_end (client_start now c)) (opened_end d)"
    using L(3,4) g by (simp add: half_def opened_end_def empty_ledger_def)
  moreover have "half empty_ledger empty_ledger [] (opened_end d) (opened_end (client_start now c))"
    by (rule opened_half [OF assms(1,4,5), of o1 i a l o2 ud rh ch]) (use L(1) assms(2) in simp)
  then have "half empty_ledger L [] (opened_end d) (opened_end (client_start now c))" using g(3) by (simp add: half_def)
  ultimately show ?thesis unfolding link_inv_def by auto
qed

text \<open>What the invariant says of the data.\<close>

lemma half_prefix:
  assumes "half L M s a b"
  shows "\<exists>rest. en_sent a = heard (en_conn b) @ rest"
proof -
  obtain m where "heard (en_conn b) = concat (map f_data (take m (lg_frames L)))" using assms by (auto simp: half_def flows_def)
  moreover have "en_sent a = concat (map f_data (lg_frames L))" using assms by (simp add: half_def)
  ultimately have "en_sent a = heard (en_conn b) @ concat (map f_data (drop m (lg_frames L)))"
    by (metis append_take_drop_id concat_append map_append)
  then show ?thesis ..
qed

lemma half_all:
  assumes "half L M s a b" and "sender_empty (en_conn a)" and "sq_status (sn_dataQueue (c_sender (en_conn a))) = IS_OPEN"
    and "sent_count (en_conn a) \<le> 2 ^ 16" and "c_receiveHandler (en_conn b)"
  shows "heard (en_conn b) = en_sent a"
proof -
  have sL: "side L (en_conn a)" and n: "lg_count L \<le> 2 ^ 16" and seen: "lg_seen L = set s" and sub: "set s \<subseteq> {..<length (lg_frames L)}"
    using assms(1,4) by (auto simp: half_def flows_def)
  have q: "sq_frames (sn_dataQueue (c_sender (en_conn a))) = []" and w: "re_window (sn_retrier (c_sender (en_conn a))) = []"
    using assms(2) by (simp_all add: sender_empty_def re_empty_def sq_empty_def sq_frames_def)
  have "located L (c_sender (en_conn a)) j" if "j < length (lg_frames L)" for j
    using sideD(9) [OF sL] n assms(3) that unfolding covered_def by blast
  then have all: "j \<in> set s" if "j < length (lg_frames L)" for j using that q w seen by (fastforce simp: located_def)
  have "mex s = length (lg_frames L)"
    using mex_le [OF sub] all [of "mex s"] mex_notin [of s] by fastforce
  moreover have "heard (en_conn b) = concat (map f_data (take (mex s) (lg_frames L)))" using assms(1,5) by (auto simp: half_def flows_def)
  moreover have "en_sent a = concat (map f_data (lg_frames L))" using assms(1) by (simp add: half_def)
  ultimately show ?thesis by simp
qed

definition all_acknowledged :: "End \<Rightarrow> bool" where
  "all_acknowledged a \<longleftrightarrow> sender_empty (en_conn a) \<and> sq_status (sn_dataQueue (c_sender (en_conn a))) = IS_OPEN \<and> sent_count (en_conn a) \<le> 2 ^ 16"

text \<open>
  C1: Reliable delivery, both ways, by whole connections. A client and a server run from the start, their users send and close, timers expire in any order, and the
  network delivers any packet that was ever sent, as often and as late as it likes, from any address. As long as each side has put fewer than \<open>2\<^sup>1\<^sup>5\<close> frames
  into its stream, what a user has received reliably is the beginning of what the other has sent. And when a sender that has not failed, after at most
  \<open>2\<^sup>1\<^sup>6\<close> packets, has nothing left to send or to have acknowledged, the other user, if it still listens, has received all of it.
\<close>

theorem reliable_stream:
  assumes "length i = 16" and "c = opened_connection o1 i a0 l o2 ud rh ch" and "plain_modes (c_options c)"
    and "d = opened_connection o3 i b0 l' o4 ud' rh' ch'" and "plain_modes (c_options d)"
    and "(link_step z u)\<^sup>*\<^sup>* (opened_end (client_start now c), opened_end d) (a, b)" and "en_frames a < 2 ^ 15" and "en_frames b < 2 ^ 15"
  shows "(\<exists>rest. en_sent a = heard (en_conn b) @ rest) \<and> (\<exists>rest. en_sent b = heard (en_conn a) @ rest)
    \<and> (all_acknowledged a \<and> c_receiveHandler (en_conn b) \<longrightarrow> heard (en_conn b) = en_sent a)
    \<and> (all_acknowledged b \<and> c_receiveHandler (en_conn a) \<longrightarrow> heard (en_conn a) = en_sent b)"
proof -
  have "link_inv (a, b)" by (rule link.inv_run [OF assms(6) link_start [OF assms(1-5)]])
  then obtain L M s t where h: "half L M s a b" "half M L t b a" using assms(7,8) unfolding link_inv_def by auto
  show ?thesis using half_prefix [OF h(1)] half_prefix [OF h(2)] half_all [OF h(1)] half_all [OF h(2)] unfolding all_acknowledged_def by blast
qed

definition plain_options :: ConnectionOptions where
  "plain_options = mrudp_default_connection_options
     \<lparr>opt_coalesce_reliable := \<lparr>co_mode = MRUDP_COALESCE_PACKET, co_delay_ms = 5, co_compression_level = 0\<rparr>\<rparr>"

abbreviation stream_client :: Connection where
  "stream_client \<equiv> opened_connection plain_options (replicate 16 1) empty_address 9 None 7 True True"

abbreviation stream_server :: Connection where
  "stream_server \<equiv> opened_connection plain_options (replicate 16 1) empty_address 5 None 8 True True"

lemma stream_options: "c_options (opened_connection plain_options i a l None ud rh ch) = plain_options" "plain_modes plain_options"
  by (simp_all add: opened_connection_def openUser_def new_Connection_def plain_modes_def plain_options_def mrudp_default_connection_options_def Let_def)

lemma stream_server_sends:
  "en_sent (end_send z now [1, 2, 3] RELIABLE (opened_end stream_server)) = [1, 2, 3]"
  "en_frames (end_send z now [1, 2, 3] RELIABLE (opened_end stream_server)) = 1"
proof -
  have s: "sn_status (c_sender stream_server) = UNINITIALIZED" "sn_dataQueue (c_sender stream_server) = new_SendQueue"
    using opened_connection_fresh(1) [OF refl] by (simp_all add: new_Sender_def)
  have m: "co_mode (opt_coalesce_reliable plain_options) = MRUDP_COALESCE_PACKET" by (simp add: plain_options_def)
  have q: "length (sq_frames (sq_enqueue new_SendQueue DATA [1, 2, 3] MRUDP_COALESCE_PACKET)) = 1" "sq_frames new_SendQueue = []" by code_simp+
  show "en_sent (end_send z now [1, 2, 3] RELIABLE (opened_end stream_server)) = [1, 2, 3]"
    "en_frames (end_send z now [1, 2, 3] RELIABLE (opened_end stream_server)) = 1"
    unfolding end_send_def user_send_def send_admissible coalesce_of_def send_frames_def enq_frames_def opened_end_def
    using s q by (simp_all add: stream_options m admissible_def Let_def del: MRUDP_COALESCE_PACKET_def DATA_def)
qed

theorem reliable_stream_witness:
  "let b = end_send (\<lambda>_ _ _. None) 1 [1, 2, 3] RELIABLE (opened_end stream_server);
       a = opened_end (client_start 0 stream_client)
   in (link_step (\<lambda>_ _ _. None) (\<lambda>_ _. []))\<^sup>*\<^sup>* (a, opened_end stream_server) (a, b)
      \<and> en_sent b = [1, 2, 3] \<and> (\<exists>rest. [1, 2, 3] = heard (en_conn a) @ rest) \<and> heard (en_conn b) = []"
proof -
  let ?b = "end_send (\<lambda>_ _ _. None) 1 [1, 2, 3] RELIABLE (opened_end stream_server)"
  let ?a = "opened_end (client_start 0 stream_client)"
  have run: "(link_step (\<lambda>_ _ _. None) (\<lambda>_ _. []))\<^sup>*\<^sup>* (?a, opened_end stream_server) (?a, ?b)"
    by (rule r_into_rtranclp, rule link_step.second_runs, rule end_local.sends)
  have "en_frames ?a = 0" "en_sent ?a = []" by (simp_all add: opened_end_def)
  with reliable_stream [OF _ refl _ refl _ run] run show ?thesis
    by (simp add: stream_options stream_server_sends Let_def)
qed

end
