(* ===== verification/Containers.thy ===== *)
theory Containers
  imports Mr_Prelude "HOL-Library.Monad_Syntax"
begin

text \<open>
  The containers of \<^verbatim>\<open>mrudp/base/detail\<close>: the unrolled copy loops (\<^verbatim>\<open>small_copy.hpp\<close>, \<^verbatim>\<open>mem_copy.hpp\<close>) over a byte
  memory, \<^verbatim>\<open>SizedVector\<close> and \<^verbatim>\<open>CircularBuffer\<close>. Sizes are \<^verbatim>\<open>size_t\<close>: natural numbers below 2^64 with the wrap-around
  of every sum and difference written out.

  The circular buffer is a queue of bytes; the locale \<open>byte_queue\<close> states what its clients rely on.
\<close>

section \<open>Copying\<close>

type_synonym memory = "nat \<Rightarrow> u8"

text \<open>The state of a copy: destination, source, memory. \<open>copy_step\<close> is the statement \<^verbatim>\<open>*d++ = *s++\<close>.\<close>

type_synonym copy_state = "nat \<times> nat \<times> memory"

definition copy_step :: "copy_state \<Rightarrow> copy_state" where
  "copy_step st = (case st of (d, s, m) \<Rightarrow> (d + 1, s + 1, m(d := m s)))"

text \<open>The first switch: the cases fall through, and \<open>None\<close> is its default.\<close>

definition small_switch :: "nat \<Rightarrow> copy_state \<Rightarrow> copy_state option" where
  "small_switch sz st =
     (let case_1 = copy_step;
          case_2 = case_1 \<circ> copy_step;
          case_4 = case_2 \<circ> copy_step \<circ> copy_step;
          case_8 = case_4 \<circ> copy_step \<circ> copy_step \<circ> copy_step \<circ> copy_step
      in if sz = 8 then Some (case_8 st) else if sz = 4 then Some (case_4 st)
         else if sz = 2 then Some (case_2 st) else if sz = 1 then Some (case_1 st) else None)"

function small_copy_loop :: "nat \<Rightarrow> copy_state \<Rightarrow> copy_state" where
  "small_copy_loop sz st =
     (if sz = 0 then st
      else if sz = 4 then (copy_step \<circ> copy_step \<circ> copy_step \<circ> copy_step) st
      else if sz = 3 then (copy_step \<circ> copy_step \<circ> copy_step) st
      else if sz = 2 then (copy_step \<circ> copy_step) st
      else if sz = 1 then copy_step st
      else small_copy_loop (sz - 4) ((copy_step \<circ> copy_step \<circ> copy_step \<circ> copy_step) st))"
  by pat_completeness auto
termination
  by (relation "measure fst") auto

declare small_copy_loop.simps [simp del]

definition small_copy_v3 :: "nat \<Rightarrow> nat \<Rightarrow> nat \<Rightarrow> memory \<Rightarrow> memory" where
  "small_copy_v3 d s sz m =
     snd (snd (case small_switch sz (d, s, m) of Some st \<Rightarrow> st | None \<Rightarrow> small_copy_loop sz (d, s, m)))"

definition maybe_small_copy :: "nat \<Rightarrow> nat \<Rightarrow> nat \<Rightarrow> memory \<Rightarrow> memory option" where
  "maybe_small_copy d s sz m = (if sz > 32 then None else Some (small_copy_v3 d s sz m))"

text \<open>The library's \<^verbatim>\<open>memcpy\<close>: the bytes of the source region, all at once.\<close>

definition memcpy :: "nat \<Rightarrow> nat \<Rightarrow> nat \<Rightarrow> memory \<Rightarrow> memory" where
  "memcpy d s sz m = (\<lambda>a. if d \<le> a \<and> a < d + sz then m (s + (a - d)) else m a)"

definition mem_copy :: "nat \<Rightarrow> nat \<Rightarrow> nat \<Rightarrow> memory \<Rightarrow> memory" where
  "mem_copy d s sz m = (case maybe_small_copy d s sz m of Some m' \<Rightarrow> m' | None \<Rightarrow> memcpy d s sz m)"

lemma copy_steps:
  assumes "d \<le> s \<or> s + n \<le> d"
  shows "(copy_step ^^ n) (d, s, m) = (d + n, s + n, memcpy d s n m)"
  using assms
proof (induction n)
  case (Suc n)
  then show ?case by (auto simp: copy_step_def memcpy_def fun_eq_iff)
qed (auto simp: memcpy_def fun_eq_iff)

lemma copy_step_four: "(copy_step \<circ> copy_step \<circ> copy_step \<circ> copy_step) st = (copy_step ^^ 4) st"
  by (simp add: eval_nat_numeral)

lemma small_switch_copies: "small_switch sz st = Some st' \<Longrightarrow> st' = (copy_step ^^ sz) st"
  by (auto simp: small_switch_def Let_def eval_nat_numeral split: if_splits)

lemma small_copy_loop_copies: "small_copy_loop sz st = (copy_step ^^ sz) st"
proof (induction sz st rule: small_copy_loop.induct)
  case (1 sz st)
  show ?case
  proof (cases "sz \<in> {0, 1, 2, 3, 4}")
    case True
    then show ?thesis by (subst small_copy_loop.simps) (auto simp: eval_nat_numeral)
  next
    case False
    then have "small_copy_loop sz st = (copy_step ^^ (sz - 4)) ((copy_step ^^ 4) st)"
      using 1 by (subst small_copy_loop.simps) (simp add: copy_step_four del: comp_apply)
    also have "\<dots> = (copy_step ^^ (sz - 4 + 4)) st" by (simp only: funpow_add comp_apply)
    also have "sz - 4 + 4 = sz" using False by auto
    finally show ?thesis .
  qed
qed

text \<open>
  C11: The unrolled copy is \<^verbatim>\<open>memcpy\<close>, for every size: both copy the source region to the destination and
  change nothing else, when the regions do not overlap or the destination is the lower one.
\<close>

theorem mem_copy_is_memcpy:
  assumes "d \<le> s \<or> s + sz \<le> d"
  shows "mem_copy d s sz m = memcpy d s sz m \<and> small_copy_v3 d s sz m = memcpy d s sz m"
proof -
  have "small_copy_v3 d s sz m = snd (snd ((copy_step ^^ sz) (d, s, m)))"
    using small_switch_copies [of sz "(d, s, m)"] by (simp add: small_copy_v3_def small_copy_loop_copies split: option.splits)
  then show ?thesis using copy_steps [OF assms, of m] by (simp add: mem_copy_def maybe_small_copy_def)
qed

theorem mem_copy_is_memcpy_witness:
  "mem_copy 0 8 5 (\<lambda>a. of_nat a) 3 = 11 \<and> mem_copy 0 8 5 (\<lambda>a. of_nat a) 5 = 5"
  using mem_copy_is_memcpy [of 0 8 5 "\<lambda>a. of_nat a"] by (simp add: memcpy_def)

section \<open>Sized vectors\<close>

record SizedVector =
  sv_v :: bytes
  sv_size :: nat

definition new_SizedVector :: SizedVector where
  "new_SizedVector = \<lparr>sv_v = [], sv_size = 0\<rparr>"

definition sv_reserve :: "nat \<Rightarrow> SizedVector \<Rightarrow> SizedVector" where
  "sv_reserve sz s = (if sz > length (sv_v s) then s\<lparr>sv_v := sv_v s @ replicate (sz - length (sv_v s)) 0\<rparr> else s)"

definition sv_resize :: "nat \<Rightarrow> SizedVector \<Rightarrow> SizedVector" where
  "sv_resize sz s = (sv_reserve sz s)\<lparr>sv_size := sz\<rparr>"

definition sv_empty :: "SizedVector \<Rightarrow> bool" where
  "sv_empty s \<longleftrightarrow> sv_size s = 0"

definition sv_push_back :: "u8 \<Rightarrow> SizedVector \<Rightarrow> SizedVector" where
  "sv_push_back t s =
     (if sv_size s < length (sv_v s)
      then let s1 = s\<lparr>sv_size := sv_size s + 1\<rparr> in s1\<lparr>sv_v := (sv_v s1)[sv_size s1 - 1 := t]\<rparr>
      else s)"

definition sv_pop_back :: "SizedVector \<Rightarrow> SizedVector" where
  "sv_pop_back s = (if sv_size s > 0 then s\<lparr>sv_size := sv_size s - 1\<rparr> else s)"

text \<open>The iterators are given by their positions.\<close>

definition sv_erase :: "nat \<Rightarrow> nat \<Rightarrow> SizedVector \<Rightarrow> SizedVector" where
  "sv_erase a b s = s\<lparr>sv_size := sv_size s - (b - a)\<rparr>"

text \<open>A copy of bytes into a vector at a position.\<close>

definition overwrite :: "nat \<Rightarrow> 'a list \<Rightarrow> 'a list \<Rightarrow> 'a list" where
  "overwrite i xs buf = take i buf @ xs @ drop (i + length xs) buf"

lemma overwrite_length [simp]: "i + length xs \<le> length buf \<Longrightarrow> length (overwrite i xs buf) = length buf"
  by (simp add: overwrite_def)

lemma overwrite_nth:
  assumes "i + length xs \<le> length buf" and "k < length buf"
  shows "overwrite i xs buf ! k = (if i \<le> k \<and> k < i + length xs then xs ! (k - i) else buf ! k)"
  using assms by (auto simp: overwrite_def nth_append min_def)

definition sv_inv :: "SizedVector \<Rightarrow> bool" where
  "sv_inv s \<longleftrightarrow> sv_size s \<le> length (sv_v s)"

definition sv_contents :: "SizedVector \<Rightarrow> bytes" where
  "sv_contents s = take (sv_size s) (sv_v s)"

lemma sv_resize_inv [simp]: "sv_inv (sv_resize n s)"
  by (simp add: sv_inv_def sv_resize_def sv_reserve_def)

lemma sv_resize_contents: "sv_inv s \<Longrightarrow> n \<le> sv_size s \<Longrightarrow> sv_contents (sv_resize n s) = take n (sv_contents s)"
  by (simp add: sv_contents_def sv_resize_def sv_reserve_def sv_inv_def)

lemma sv_push_back_contents:
  "sv_inv s \<Longrightarrow> sv_size s < length (sv_v s) \<Longrightarrow> sv_contents (sv_push_back t s) = sv_contents s @ [t]"
  by (simp add: sv_contents_def sv_push_back_def Let_def take_Suc_conv_app_nth)

lemma sv_pop_back_contents: "sv_inv s \<Longrightarrow> sv_contents (sv_pop_back s) = butlast (sv_contents s)"
  by (auto simp: sv_contents_def sv_pop_back_def sv_inv_def butlast_take)

lemma sv_erase_contents:
  "sv_inv s \<Longrightarrow> a \<le> b \<Longrightarrow> b = sv_size s \<Longrightarrow> sv_contents (sv_erase a b s) = take a (sv_contents s)"
  by (simp add: sv_contents_def sv_erase_def min_def)

section \<open>Circular buffers\<close>

text \<open>The arithmetic of \<^verbatim>\<open>size_t\<close>, and the \<^verbatim>\<open>int\<close> the code keeps one of its sizes in, read back as a \<^verbatim>\<open>size_t\<close>.\<close>

definition add64 :: "nat \<Rightarrow> nat \<Rightarrow> nat" where
  "add64 a b = (a + b) mod 2 ^ 64"

definition sub64 :: "nat \<Rightarrow> nat \<Rightarrow> nat" where
  "sub64 a b = (a + (2 ^ 64 - b)) mod 2 ^ 64"

definition via_int :: "nat \<Rightarrow> nat" where
  "via_int n = (if n mod 2 ^ 32 < 2 ^ 31 then n mod 2 ^ 32 else 2 ^ 64 - 2 ^ 32 + n mod 2 ^ 32)"

record CircularBuffer =
  cb_buffer :: bytes
  cb_begin :: nat
  cb_end :: nat
  cb_size :: nat

definition new_CircularBuffer :: CircularBuffer where
  "new_CircularBuffer = \<lparr>cb_buffer = [], cb_begin = 0, cb_end = 0, cb_size = 0\<rparr>"

definition cb_clear :: "CircularBuffer \<Rightarrow> CircularBuffer" where
  "cb_clear b = b\<lparr>cb_size := 0, cb_end := 0, cb_begin := 0\<rparr>"

definition cb_available :: "CircularBuffer \<Rightarrow> nat" where
  "cb_available b = sub64 (length (cb_buffer b)) (cb_size b)"

record Segment =
  sg_to :: nat
  sg_from :: nat
  sg_size :: nat

definition segments :: "nat \<Rightarrow> nat \<Rightarrow> nat \<Rightarrow> Segment \<times> Segment" where
  "segments bufferSize start dataSize =
     (if bufferSize = 0 then (\<lparr>sg_to = 0, sg_from = 0, sg_size = 0\<rparr>, \<lparr>sg_to = 0, sg_from = 0, sg_size = 0\<rparr>)
      else let frm = start mod bufferSize;
               to_0 = add64 frm dataSize;
               to_1 = (if to_0 > bufferSize then via_int (to_0 mod bufferSize) else 0);
               to_0' = (if to_0 > bufferSize then sub64 to_0 to_1 else to_0);
               seg_0 = sub64 to_0' frm;
               seg_1 = to_1
           in (\<lparr>sg_to = frm, sg_from = 0, sg_size = seg_0\<rparr>, \<lparr>sg_to = 0, sg_from = seg_0, sg_size = seg_1\<rparr>))"

text \<open>
  What \<^verbatim>\<open>write\<close> copies from: bytes of the caller, the buffer itself (when it is laid out again after it has
  grown), or nothing, for zeros. The bytes of a segment are read before they are written.
\<close>

datatype cb_source = FromCaller bytes | FromBuffer | FromNull

definition source_bytes :: "cb_source \<Rightarrow> Segment \<Rightarrow> CircularBuffer \<Rightarrow> bytes" where
  "source_bytes src g b = (case src of
     FromCaller d \<Rightarrow> take (sg_size g) (drop (sg_from g) d)
   | FromBuffer \<Rightarrow> take (sg_size g) (drop (sg_from g) (cb_buffer b))
   | FromNull \<Rightarrow> replicate (sg_size g) 0)"

definition write_segment :: "cb_source \<Rightarrow> Segment \<Rightarrow> CircularBuffer \<Rightarrow> CircularBuffer" where
  "write_segment src g b =
     (if sg_size g = 0 then b
      else b\<lparr>cb_buffer := overwrite (sg_to g) (source_bytes src g b) (cb_buffer b),
             cb_end := add64 (sg_to g) (sg_size g) mod length (cb_buffer b)\<rparr>)"

definition write_segments :: "cb_source \<Rightarrow> nat \<Rightarrow> nat \<Rightarrow> CircularBuffer \<Rightarrow> CircularBuffer" where
  "write_segments src at dataSize b =
     (case segments (length (cb_buffer b)) at dataSize of (g0, g1) \<Rightarrow> write_segment src g1 (write_segment src g0 b))"

definition grow_size :: "nat \<Rightarrow> CircularBuffer \<Rightarrow> CircularBuffer" where
  "grow_size dataSize b = b\<lparr>cb_size := add64 (cb_size b) dataSize\<rparr>"

definition resize_buffer :: "nat \<Rightarrow> CircularBuffer \<Rightarrow> CircularBuffer" where
  "resize_buffer dataSize b = b\<lparr>cb_buffer := cb_buffer b @ replicate dataSize 0\<rparr>"

text \<open>\<^verbatim>\<open>write\<close> with the body of \<^verbatim>\<open>grow\<close> in its place: the two call each other, and \<open>None\<close> is a call that never returns.\<close>

partial_function (option) cb_write :: "cb_source \<Rightarrow> nat \<Rightarrow> CircularBuffer \<Rightarrow> CircularBuffer option" where
  "cb_write src dataSize b =
     do { b1 \<leftarrow>
            (if dataSize = 0 then Some b
             else if cb_available b \<le> dataSize
             then if cb_end b \<le> cb_begin b
                  then let b1 = (resize_buffer dataSize b)\<lparr>cb_end := length (cb_buffer b)\<rparr>
                       in if cb_end b > 0
                          then do { b2 \<leftarrow> cb_write FromBuffer (cb_end b) (b1\<lparr>cb_size := sub64 (cb_size b) (cb_end b)\<rparr>);
                                    Some (grow_size dataSize b2) }
                          else Some (grow_size dataSize b1)
                  else Some (grow_size dataSize (resize_buffer dataSize b))
             else Some (grow_size dataSize b));
          Some (write_segments src (add64 (cb_begin b) (cb_size b)) dataSize b1) }"

definition cb_grow :: "nat \<Rightarrow> CircularBuffer \<Rightarrow> CircularBuffer option" where
  "cb_grow dataSize b =
     (if dataSize = 0 then Some b
      else if cb_available b \<le> dataSize
      then if cb_end b \<le> cb_begin b
           then let b1 = (resize_buffer dataSize b)\<lparr>cb_end := length (cb_buffer b)\<rparr>
                in if cb_end b > 0
                   then do { b2 \<leftarrow> cb_write FromBuffer (cb_end b) (b1\<lparr>cb_size := sub64 (cb_size b) (cb_end b)\<rparr>);
                             Some (grow_size dataSize b2) }
                   else Some (grow_size dataSize b1)
           else Some (grow_size dataSize (resize_buffer dataSize b))
      else Some (grow_size dataSize b))"

lemma cb_write_grow:
  "cb_write src dataSize b =
     do { b1 \<leftarrow> cb_grow dataSize b; Some (write_segments src (add64 (cb_begin b) (cb_size b)) dataSize b1) }"
  unfolding cb_grow_def by (rule cb_write.simps)

text \<open>A segment outside the buffer and a failed assertion are \<open>None\<close>.\<close>

definition read_segment :: "Segment \<Rightarrow> CircularBuffer \<Rightarrow> bytes option" where
  "read_segment g b =
     (if sg_size g = 0 then Some []
      else if sg_to g + sg_size g \<le> length (cb_buffer b) then Some (take (sg_size g) (drop (sg_to g) (cb_buffer b))) else None)"

definition cb_peek :: "nat \<Rightarrow> CircularBuffer \<Rightarrow> bytes option" where
  "cb_peek dataSize b =
     (if dataSize = 0 then Some []
      else case segments (length (cb_buffer b)) (cb_begin b) dataSize of
             (g0, g1) \<Rightarrow> do { x \<leftarrow> read_segment g0 b; y \<leftarrow> read_segment g1 b; Some (x @ y) })"

definition cb_skip :: "nat \<Rightarrow> CircularBuffer \<Rightarrow> CircularBuffer option" where
  "cb_skip dataSize b =
     (if dataSize = 0 then Some b
      else if cb_size b \<ge> dataSize
      then Some (b\<lparr>cb_begin := add64 (cb_begin b) dataSize mod length (cb_buffer b), cb_size := cb_size b - dataSize\<rparr>)
      else None)"

definition cb_read :: "nat \<Rightarrow> CircularBuffer \<Rightarrow> (bytes \<times> CircularBuffer) option" where
  "cb_read dataSize b =
     (if dataSize = 0 then Some ([], b)
      else do { d \<leftarrow> cb_peek dataSize b; b1 \<leftarrow> cb_skip dataSize b; Some (d, b1) })"

section \<open>The invariant of a circular buffer\<close>

text \<open>Below 2 GiB no size wraps and the \<^verbatim>\<open>int\<close> holds every size.\<close>

definition cb_inv :: "CircularBuffer \<Rightarrow> bool" where
  "cb_inv b \<longleftrightarrow> length (cb_buffer b) < 2 ^ 31 \<and> cb_size b \<le> length (cb_buffer b)
     \<and> (if cb_buffer b = [] then cb_begin b = 0 \<and> cb_end b = 0
         else cb_begin b < length (cb_buffer b) \<and> cb_end b = (cb_begin b + cb_size b) mod length (cb_buffer b))"

definition cb_contents :: "CircularBuffer \<Rightarrow> bytes" where
  "cb_contents b = map (\<lambda>i. cb_buffer b ! ((cb_begin b + i) mod length (cb_buffer b))) [0..<cb_size b]"

lemma cb_contents_length [simp]: "length (cb_contents b) = cb_size b"
  by (simp add: cb_contents_def)

lemma cb_contents_nth: "i < cb_size b \<Longrightarrow> cb_contents b ! i = cb_buffer b ! ((cb_begin b + i) mod length (cb_buffer b))"
  by (simp add: cb_contents_def)

lemma new_CircularBuffer_inv: "cb_inv new_CircularBuffer" "cb_contents new_CircularBuffer = []"
  by (simp_all add: cb_inv_def new_CircularBuffer_def cb_contents_def)

lemma cb_clear_inv: "cb_inv b \<Longrightarrow> cb_inv (cb_clear b) \<and> cb_contents (cb_clear b) = []"
  by (simp add: cb_inv_def cb_clear_def cb_contents_def)

lemma small_arith:
  "a + b < 2 ^ 64 \<Longrightarrow> add64 a b = a + b" "b \<le> a \<Longrightarrow> a < 2 ^ 64 \<Longrightarrow> sub64 a b = a - b" "n < 2 ^ 31 \<Longrightarrow> via_int n = n"
proof -
  show "sub64 a b = a - b" if "b \<le> a" "a < 2 ^ 64"
  proof -
    have "a + (2 ^ 64 - b) = (a - b) + 2 ^ 64" using that by simp
    then show ?thesis using that unfolding sub64_def by (simp only: mod_add_self2) simp
  qed
qed (simp_all add: add64_def via_int_def)

lemma available_inv: "cb_inv b \<Longrightarrow> cb_available b = length (cb_buffer b) - cb_size b"
  by (simp add: cb_available_def cb_inv_def small_arith)

lemma segments_small:
  assumes "0 < L" and "L < 2 ^ 31" and "n \<le> L" and "k = min n (L - p mod L)"
  shows "segments L p n = (\<lparr>sg_to = p mod L, sg_from = 0, sg_size = k\<rparr>, \<lparr>sg_to = 0, sg_from = k, sg_size = n - k\<rparr>)"
proof -
  have m: "p mod L < L" "L < 2147483648" using assms(1,2) by simp_all
  have a: "add64 (p mod L) n = p mod L + n" using m assms(3) by (intro small_arith(1)) simp
  show ?thesis
  proof (cases "p mod L + n \<le> L")
    case True
    have "sub64 (p mod L + n) (p mod L) = n" using True m by (subst small_arith(2)) simp_all
    moreover have "k = n" using True m(1) assms(4) by simp
    ultimately show ?thesis using True assms(1) a by (simp add: segments_def Let_def)
  next
    case False
    have r: "(p mod L + n) mod L = p mod L + n - L" using False m(1) assms(3) by (simp add: le_mod_geq)
    have v: "via_int (p mod L + n - L) = p mod L + n - L" using m assms(3) by (intro small_arith(3)) simp
    have b: "sub64 (p mod L + n) (p mod L + n - L) = L" using False m assms(3) by (subst small_arith(2)) simp_all
    have c: "sub64 L (p mod L) = L - p mod L" using m by (subst small_arith(2)) simp_all
    have "k = L - p mod L" "n - k = p mod L + n - L" using False m(1) assms(4) by linarith+
    then show ?thesis using False assms(1) by (simp add: segments_def Let_def a r v b c)
  qed
qed

text \<open>
  Writing the segments, byte by byte: the bytes of the source go to the \<open>n\<close> places from \<open>p\<close> on, modulo the size of the
  buffer; everything else stays.
\<close>

definition copies :: "bytes \<Rightarrow> nat \<Rightarrow> nat \<Rightarrow> bytes \<Rightarrow> bytes \<Rightarrow> bool" where
  "copies src p n buf buf' \<longleftrightarrow> length buf' = length buf
     \<and> (\<forall>j<n. buf' ! ((p + j) mod length buf) = src ! j)
     \<and> (\<forall>k<length buf. (\<forall>j<n. k \<noteq> (p + j) mod length buf) \<longrightarrow> buf' ! k = buf ! k)"

lemma mod_place:
  assumes "0 < (L :: nat)" and "n \<le> L" and "j < n"
  shows "(p + j) mod L = (if p mod L + j < L then p mod L + j else p mod L + j - L)"
proof -
  have m: "p mod L < L" using assms(1) by simp
  have "(p + j) mod L = (p mod L + j) mod L" by (simp add: mod_simps)
  also have "\<dots> = (if p mod L + j < L then p mod L + j else p mod L + j - L)"
  proof (cases "p mod L + j < L")
    case False
    then have "(p mod L + j) mod L = (p mod L + j - L) mod L" by (subst le_mod_geq) simp_all
    also have "\<dots> = p mod L + j - L" using m assms(2,3) by (intro mod_less) linarith
    finally show ?thesis using False by simp
  qed simp
  finally show ?thesis .
qed

lemma copies_two:
  assumes "length buf = L" and "0 < L" and "n \<le> L" and "n \<le> length src" and "k = min n (L - p mod L)"
    and "buf1 = overwrite (p mod L) (take k src) buf" and "buf2 = overwrite 0 (take (n - k) (drop k src)) buf1"
  shows "copies src p n buf buf2"
proof -
  have m: "p mod L < L" using assms(2) by simp
  have k: "k \<le> n" "p mod L + k \<le> L" "k = n \<or> k = L - p mod L" using m by (auto simp: assms(5))
  have x: "length (take k src) = k" "length (take (n - k) (drop k src)) = n - k" using k(1) assms(4) by simp_all
  have l1: "length buf1 = L" unfolding assms(6) using k(2) x(1) assms(1) by (subst overwrite_length) simp_all
  have l2: "length buf2 = L" unfolding assms(7) using x(2) l1 assms(3) by (subst overwrite_length) simp_all
  have n1: "buf1 ! i = (if p mod L \<le> i \<and> i < p mod L + k then src ! (i - p mod L) else buf ! i)" if "i < L" for i
    unfolding assms(6) using that k(2) x(1) assms(1) by (subst overwrite_nth) auto
  have n2: "buf2 ! i = (if i < n - k then src ! (k + i) else buf1 ! i)" if "i < L" for i
    unfolding assms(7) using that x(2) l1 assms(3,4) k(1) by (subst overwrite_nth) auto
  show ?thesis unfolding copies_def assms(1)
  proof (intro conjI allI impI)
    fix j assume j: "j < n"
    show "buf2 ! ((p + j) mod L) = src ! j"
    proof (cases "p mod L + j < L")
      case True
      then have "j < k" "\<not> p mod L + j < n - k" using j k m assms(3) by auto
      then show ?thesis using True by (simp add: mod_place [OF assms(2,3) j] n1 n2)
    next
      case False
      then have "p mod L + j - L < n - k" "k + (p mod L + j - L) = j" using j m k by auto
      then show ?thesis using False j m assms(3) by (simp add: mod_place [OF assms(2,3) j] n2)
    qed
  next
    fix i assume i: "i < L" and other: "\<forall>j<n. i \<noteq> (p + j) mod L"
    have "\<not> i < n - k"
    proof
      assume lt: "i < n - k"
      then have j: "L - p mod L + i < n" using k m by linarith
      have "p mod L + (L - p mod L + i) = L + i" using m by linarith
      then have "(p + (L - p mod L + i)) mod L = i" using i by (simp only: mod_place [OF assms(2,3) j]) simp
      with other j show False by metis
    qed
    moreover have "\<not> (p mod L \<le> i \<and> i < p mod L + k)"
    proof
      assume r: "p mod L \<le> i \<and> i < p mod L + k"
      then have j: "i - p mod L < n" using k(1) by linarith
      have "p mod L + (i - p mod L) = i" using r by linarith
      then have "(p + (i - p mod L)) mod L = i" using i by (simp only: mod_place [OF assms(2,3) j]) simp
      with other j show False by metis
    qed
    ultimately show "buf2 ! i = buf ! i" using i by (auto simp: n1 n2)
  qed (rule l2)
qed

lemma write_segment_buffer: "cb_buffer (write_segment src g b) = overwrite (sg_to g) (source_bytes src g b) (cb_buffer b)"
  by (simp add: write_segment_def source_bytes_def overwrite_def split: cb_source.splits)

lemma write_segments_frame:
  "cb_begin (write_segments src p n b) = cb_begin b" "cb_size (write_segments src p n b) = cb_size b"
  by (simp_all add: write_segments_def write_segment_def split: prod.splits)

lemma write_segments_end:
  assumes "length (cb_buffer b) = L" and "0 < L" and "L < 2 ^ 31" and "n \<le> L" and "0 < n"
    and "length (source_bytes src g b) \<le> sg_size g" and "k = min n (L - p mod L)" and "g = \<lparr>sg_to = p mod L, sg_from = 0, sg_size = k\<rparr>"
  shows "cb_end (write_segments src p n b) = (p + n) mod L"
proof -
  have m: "p mod L < L" "L < 2147483648" using assms(2,3) by simp_all
  have k: "p mod L + k \<le> L" using m(1) by (simp add: assms(7))
  have k0: "0 < k" using m(1) assms(5,7) by simp
  define b1 where "b1 = write_segment src g b"
  have "length (cb_buffer b1) = L"
    unfolding b1_def write_segment_buffer using assms(1,6,8) k by (subst overwrite_length) simp_all
  moreover have "cb_end b1 = add64 (p mod L) k mod L" using k0 assms(1) by (simp add: b1_def write_segment_def assms(8))
  moreover have "write_segments src p n b = write_segment src \<lparr>sg_to = 0, sg_from = k, sg_size = n - k\<rparr> b1"
    by (simp only: write_segments_def assms(1) segments_small [OF assms(2-4,7)] b1_def assms(8) prod.case)
  ultimately have e: "cb_end (write_segments src p n b) = (if n - k = 0 then add64 (p mod L) k mod L else add64 0 (n - k) mod L)"
    by (simp add: write_segment_def)
  show ?thesis
  proof (cases "n - k = 0")
    case True
    then have "k = n" using assms(7) by simp
    moreover have "add64 (p mod L) n = p mod L + n" using m assms(4) by (intro small_arith(1)) simp
    ultimately show ?thesis using e True by (simp add: mod_simps)
  next
    case False
    then have n: "n - k = p mod L + n - L" "L \<le> p mod L + n" using assms(7) m(1) by linarith+
    have "add64 0 (n - k) = n - k" using small_arith(1) [of 0 "n - k"] m assms(4) by simp
    then have "cb_end (write_segments src p n b) = (p mod L + n - L) mod L" using e False n(1) by simp
    also have "\<dots> = (p mod L + n) mod L" by (rule le_mod_geq [OF n(2), symmetric])
    also have "\<dots> = (p + n) mod L" by (simp add: mod_simps)
    finally show ?thesis .
  qed
qed

lemma write_segments_copies:
  assumes "length (cb_buffer b) = L" and "0 < L" and "L < 2 ^ 31" and "n \<le> L" and "n \<le> length d"
    and "src = FromCaller d \<or> src = FromBuffer \<and> d = cb_buffer b \<and> n \<le> p mod L"
  shows "copies d p n (cb_buffer b) (cb_buffer (write_segments src p n b))"
proof -
  define k where "k = min n (L - p mod L)"
  define b1 where "b1 = write_segment src \<lparr>sg_to = p mod L, sg_from = 0, sg_size = k\<rparr> b"
  have m: "p mod L < L" using assms(2) by simp
  have k: "k \<le> n" "p mod L + k \<le> L" using m by (simp_all add: k_def)
  have b1: "cb_buffer b1 = overwrite (p mod L) (take k d) (cb_buffer b)"
    using assms(6) by (auto simp: b1_def write_segment_buffer source_bytes_def)
  have two: "source_bytes src \<lparr>sg_to = 0, sg_from = k, sg_size = n - k\<rparr> b1 = take (n - k) (drop k d)"
  proof (cases "src = FromCaller d")
    case False
    with assms(6) have d: "src = FromBuffer" "d = cb_buffer b" "n \<le> p mod L" by auto
    have "take n (cb_buffer b1) = take n (cb_buffer b)" using d(3) m assms(1) by (simp add: b1 overwrite_def)
    then have "drop k (take n (cb_buffer b1)) = drop k (take n (cb_buffer b))" by simp
    then show ?thesis using d by (simp add: source_bytes_def drop_take)
  qed (simp add: source_bytes_def)
  have "cb_buffer (write_segments src p n b) = overwrite 0 (take (n - k) (drop k d)) (cb_buffer b1)"
    using assms(1) by (simp add: write_segments_def segments_small [OF assms(2-4) k_def] b1_def [symmetric] write_segment_buffer two)
  then show ?thesis by (intro copies_two [OF assms(1,2,4,5) k_def b1])
qed

section \<open>Growing and writing\<close>

text \<open>
  After \<^verbatim>\<open>grow\<close> there is room for the data, and the bytes that were there are where the new layout looks for
  them.
\<close>

definition grown :: "nat \<Rightarrow> CircularBuffer \<Rightarrow> CircularBuffer \<Rightarrow> bool" where
  "grown n b b' \<longleftrightarrow> cb_size b' = cb_size b + n \<and> cb_begin b' = cb_begin b \<and> cb_begin b < length (cb_buffer b')
     \<and> cb_size b + n \<le> length (cb_buffer b') \<and> length (cb_buffer b') \<le> length (cb_buffer b) + n
     \<and> (\<forall>i<cb_size b. cb_buffer b' ! ((cb_begin b + i) mod length (cb_buffer b')) = cb_contents b ! i)"

lemma mod_inj:
  assumes "(a + i) mod L = (a + j) mod L" and "i < L" and "j < (L :: nat)"
  shows "i = j"
proof -
  have "(int a + int i) mod int L = (int a + int j) mod int L" using assms(1) by (metis of_nat_add of_nat_mod)
  then have "int i mod int L = int j mod int L" by (simp add: mod_eq_dvd_iff)
  then show ?thesis using assms(2,3) by simp
qed

text \<open>The data lies in one piece, or the buffer is not yet allocated.\<close>

lemma grown_straight:
  assumes "cb_inv b" and "0 < n" and "length (cb_buffer b) + n < 2 ^ 31" and "cb_begin b + cb_size b \<le> length (cb_buffer b)"
    and "cb_buffer b' = cb_buffer b @ replicate n 0" and "cb_begin b' = cb_begin b" and "cb_size b' = cb_size b"
  shows "grown n b (grow_size n b')"
proof -
  have "cb_buffer b' ! ((cb_begin b + i) mod length (cb_buffer b')) = cb_contents b ! i" if "i < cb_size b" for i
    using that assms(4,5) by (simp add: cb_contents_nth nth_append)
  moreover have "add64 (cb_size b) n = cb_size b + n" using assms(1,3) by (intro small_arith(1)) (simp add: cb_inv_def)
  ultimately show ?thesis using assms by (auto simp: grown_def grow_size_def cb_inv_def split: if_splits)
qed

text \<open>The data wraps around: its second part is copied behind the first.\<close>

lemma grow_wrapped:
  assumes "cb_inv b" and "0 < n" and "length (cb_buffer b) + n < 2 ^ 31" and "cb_end b \<le> cb_begin b" and "0 < cb_end b"
    and "0 < cb_size b" and "b1 = (resize_buffer n b)\<lparr>cb_end := length (cb_buffer b), cb_size := sub64 (cb_size b) (cb_end b)\<rparr>"
  shows "\<exists>b2. cb_write FromBuffer (cb_end b) b1 = Some b2 \<and> grown n b (grow_size n b2)"
proof -
  define L where "L = length (cb_buffer b)"
  define e where "e = cb_end b"
  have inv: "L < 2147483648" "cb_size b \<le> L" "cb_begin b < L" "e = (cb_begin b + cb_size b) mod L"
    using assms(1,5) by (auto simp: cb_inv_def L_def e_def split: if_splits)
  have wrap: "cb_begin b + cb_size b = L + e"
  proof -
    have "L \<le> cb_begin b + cb_size b"
    proof (rule ccontr)
      assume "\<not> ?thesis"
      then have "e = cb_begin b + cb_size b" using inv(4) by simp
      then show False using assms(4,6) by (simp add: e_def)
    qed
    moreover from this have "e = cb_begin b + cb_size b - L" using inv by (simp add: le_mod_geq)
    ultimately show ?thesis by simp
  qed
  have eb: "e \<le> cb_begin b" "0 < e" using assms(4,5) by (simp_all add: e_def)
  have sz: "sub64 (cb_size b) e = L - cb_begin b" using wrap inv by (subst small_arith(2)) simp_all
  have b1: "cb_buffer b1 = cb_buffer b @ replicate n 0" "cb_begin b1 = cb_begin b" "cb_size b1 = L - cb_begin b" "cb_end b1 = L"
    "length (cb_buffer b1) = L + n"
    using sz by (simp_all add: assms(7) resize_buffer_def L_def e_def)
  have av: "cb_available b1 = n + cb_begin b" unfolding cb_available_def b1(3,5) using inv assms(3) by (subst small_arith(2)) (simp_all add: L_def)
  have g: "cb_grow e b1 = Some (grow_size e b1)" using av eb assms(2) by (simp add: cb_grow_def)
  have at: "add64 (cb_begin b1) (cb_size b1) = L" using b1 inv by (simp add: add64_def)
  define b2 where "b2 = write_segments FromBuffer L e (grow_size e b1)"
  have w: "cb_write FromBuffer e b1 = Some b2" unfolding cb_write_grow g at b2_def by simp
  have gb: "cb_buffer (grow_size e b1) = cb_buffer b1" "cb_begin (grow_size e b1) = cb_begin b" "cb_size (grow_size e b1) = cb_size b"
    using b1 wrap inv eb by (simp_all add: grow_size_def add64_def)
  have Lm: "L mod (L + n) = L" using assms(2) by simp
  have "copies (cb_buffer b1) L e (cb_buffer b1) (cb_buffer b2)"
    unfolding b2_def using write_segments_copies [of "grow_size e b1" "L + n" e "cb_buffer b1" FromBuffer L, unfolded gb(1), OF b1(5)]
      assms(2,3) inv(3) eb(1) Lm b1(5) by (simp add: L_def [symmetric])
  then have c: "length (cb_buffer b2) = L + n" "\<And>j. j < e \<Longrightarrow> cb_buffer b2 ! ((L + j) mod (L + n)) = cb_buffer b1 ! j"
    "\<And>k. k < L + n \<Longrightarrow> (\<And>j. j < e \<Longrightarrow> k \<noteq> (L + j) mod (L + n)) \<Longrightarrow> cb_buffer b2 ! k = cb_buffer b1 ! k"
    unfolding copies_def b1(5) by auto
  have fr: "cb_begin b2 = cb_begin b" "cb_size b2 = cb_size b" using gb by (simp_all add: b2_def write_segments_frame)
  have nth: "cb_buffer b2 ! ((cb_begin b + i) mod (L + n)) = cb_contents b ! i" if i: "i < cb_size b" for i
  proof (cases "cb_begin b + i < L")
    case True
    have "cb_begin b + i \<noteq> (L + j) mod (L + n)" if "j < e" for j
    proof
      assume "cb_begin b + i = (L + j) mod (L + n)"
      moreover have "(L + j) mod (L + n) = (if j < n then L + j else j - n)"
        using mod_place [of "L + n" e j L] \<open>j < e\<close> eb(1) inv(3) assms(2) Lm by simp
      ultimately show False using True \<open>j < e\<close> eb(1) assms(2) by (simp split: if_splits)
    qed
    then have "cb_buffer b2 ! (cb_begin b + i) = cb_buffer b1 ! (cb_begin b + i)" using True by (intro c(3)) simp_all
    then show ?thesis using True i b1(1) by (simp add: cb_contents_nth L_def [symmetric] nth_append)
  next
    case False
    define j where "j = cb_begin b + i - L"
    have j: "cb_begin b + i = L + j" "j < e" using False i wrap by (simp_all add: j_def)
    have "(L + j) mod L = j" using j(2) eb inv(3) by simp
    then have "cb_contents b ! i = cb_buffer b ! j" using i j(1) by (simp add: cb_contents_nth L_def [symmetric])
    moreover have "cb_buffer b1 ! j = cb_buffer b ! j" using b1(1) j(2) eb inv(3) by (simp add: nth_append L_def)
    ultimately show ?thesis using c(2) [OF j(2)] j(1) by simp
  qed
  have "add64 (cb_size b) n = cb_size b + n" using inv assms(3) by (intro small_arith(1)) (simp add: L_def)
  then have "grown n b (grow_size n b2)"
    using nth fr c(1) inv assms(2) by (simp add: grown_def grow_size_def L_def)
  with w show ?thesis by (auto simp: e_def)
qed

text \<open>
  The buffer is empty and does not begin at its first byte: the size goes below zero, wraps, and comes back to
  zero; the bytes before the beginning are copied onto themselves.
\<close>

lemma overwrite_self: "overwrite 0 (take k buf) buf = buf"
  by (cases "k \<le> length buf") (simp_all add: overwrite_def)

lemma grow_empty:
  assumes "cb_inv b" and "0 < n" and "length (cb_buffer b) + n < 2 ^ 31" and "cb_size b = 0" and "0 < cb_end b"
    and "b1 = (resize_buffer n b)\<lparr>cb_end := length (cb_buffer b), cb_size := sub64 (cb_size b) (cb_end b)\<rparr>"
  shows "\<exists>b2. cb_write FromBuffer (cb_end b) b1 = Some b2 \<and> grown n b (grow_size n b2)"
proof -
  define L where "L = length (cb_buffer b)"
  define k where "k = cb_end b"
  have k: "k = cb_begin b" "0 < k" "k < L" using assms(1,4,5) by (auto simp: cb_inv_def L_def k_def split: if_splits)
  have L: "L + n < 2147483648" using assms(3) by (simp add: L_def)
  have b1: "cb_buffer b1 = cb_buffer b @ replicate n 0" "cb_begin b1 = k" "cb_size b1 = 2 ^ 64 - k" "length (cb_buffer b1) = L + n"
    using k L by (simp_all add: assms(6) resize_buffer_def sub64_def assms(4) L_def k_def)
  have av: "cb_available b1 = L + n + k" using k L unfolding cb_available_def b1(3,4) sub64_def by simp
  then have g: "cb_grow k b1 = Some (grow_size k b1)" using k L assms(2) by (simp add: cb_grow_def)
  have at: "add64 (cb_begin b1) (cb_size b1) = 0" using b1 k L by (simp add: add64_def)
  define b2 where "b2 = write_segments FromBuffer 0 k (grow_size k b1)"
  have w: "cb_write FromBuffer k b1 = Some b2" unfolding cb_write_grow g at b2_def by simp
  have sg: "segments (L + n) 0 k = (\<lparr>sg_to = 0, sg_from = 0, sg_size = k\<rparr>, \<lparr>sg_to = 0, sg_from = k, sg_size = 0\<rparr>)"
    using segments_small [of "L + n" k k 0] k L by simp
  have "cb_buffer b2 = cb_buffer b1"
    using b1(4) by (simp add: b2_def write_segments_def sg write_segment_def source_bytes_def overwrite_self grow_size_def)
  moreover have "cb_begin b2 = cb_begin b" "cb_size b2 = 0"
    using b1 k L by (simp_all add: b2_def write_segments_frame grow_size_def add64_def)
  moreover have "add64 0 n = n" using small_arith(1) [of 0 n] L by simp
  ultimately have "grown n b (grow_size n b2)" using b1(4) k assms(4) by (simp add: grown_def grow_size_def L_def)
  with w show ?thesis by (auto simp: k_def)
qed

lemma cb_grow_grown:
  assumes "cb_inv b" and "0 < n" and "length (cb_buffer b) + n < 2 ^ 31"
  shows "\<exists>b'. cb_grow n b = Some b' \<and> grown n b b'"
proof (cases "cb_available b \<le> n")
  case False
  then have fits: "cb_size b + n < length (cb_buffer b)" using available_inv [OF assms(1)] by simp
  have "grown n b (grow_size n b)"
    using fits assms(1,3) by (auto simp: grown_def grow_size_def small_arith(1) cb_contents_nth cb_inv_def split: if_splits)
  with False assms(2) show ?thesis by (simp add: cb_grow_def)
next
  case True
  note inv = assms(1) [unfolded cb_inv_def]
  show ?thesis
  proof (cases "cb_end b \<le> cb_begin b \<and> 0 < cb_end b")
    case wrapped: True
    define b1 where "b1 = (resize_buffer n b)\<lparr>cb_end := length (cb_buffer b), cb_size := sub64 (cb_size b) (cb_end b)\<rparr>"
    have "\<exists>b2. cb_write FromBuffer (cb_end b) b1 = Some b2 \<and> grown n b (grow_size n b2)"
    proof (cases "cb_size b = 0")
      case True
      then show ?thesis using grow_empty [OF assms _ _ b1_def] wrapped by simp
    next
      case False
      then show ?thesis using grow_wrapped [OF assms _ _ _ b1_def] wrapped by simp
    qed
    then show ?thesis using True wrapped assms(2) by (auto simp: cb_grow_def b1_def Let_def)
  next
    case False
    have "cb_begin b + cb_size b \<le> length (cb_buffer b)"
    proof (rule ccontr)
      assume "\<not> ?thesis"
      with inv have "cb_end b = cb_begin b + cb_size b - length (cb_buffer b)" "0 < cb_end b" "cb_end b \<le> cb_begin b"
        by (auto simp: le_mod_geq split: if_splits)
      with False show False by simp
    qed
    note straight = grown_straight [OF assms this]
    from False True assms(2) consider "cb_grow n b = Some (grow_size n ((resize_buffer n b)\<lparr>cb_end := length (cb_buffer b)\<rparr>))"
      | "cb_grow n b = Some (grow_size n (resize_buffer n b))"
      by (auto simp: cb_grow_def Let_def)
    then show ?thesis
      by cases (use straight [of "(resize_buffer n b)\<lparr>cb_end := length (cb_buffer b)\<rparr>"] straight [of "resize_buffer n b"] in \<open>simp_all add: resize_buffer_def\<close>)
  qed
qed

lemma cb_write_data:
  assumes "cb_inv b" and "length (cb_buffer b) + length d < 2 ^ 31"
  shows "\<exists>b'. cb_write (FromCaller d) (length d) b = Some b' \<and> cb_inv b' \<and> cb_contents b' = cb_contents b @ d
    \<and> length (cb_buffer b') \<le> length (cb_buffer b) + length d"
proof (cases "d = []")
  case True
  have "cb_grow 0 b = Some b" by (simp add: cb_grow_def)
  moreover have "write_segments (FromCaller d) p 0 b = b" for p
  proof (cases "length (cb_buffer b) = 0")
    case False
    then show ?thesis using segments_small [of "length (cb_buffer b)" 0 0 p] assms(2)
      by (simp add: write_segments_def write_segment_def)
  qed (simp add: write_segments_def segments_def write_segment_def)
  ultimately have "cb_write (FromCaller d) (length d) b = Some b" using True by (simp add: cb_write_grow)
  with True assms(1) show ?thesis by simp
next
  case False
  then have n: "0 < length d" by simp
  obtain b1 where g: "cb_grow (length d) b = Some b1" "grown (length d) b b1" using cb_grow_grown [OF assms(1) n assms(2)] by blast
  define L p where "L = length (cb_buffer b1)" and "p = cb_begin b + cb_size b"
  define b2 where "b2 = write_segments (FromCaller d) p (length d) b1"
  have b1: "cb_size b1 = cb_size b + length d" "cb_begin b1 = cb_begin b" "cb_begin b < L" "cb_size b + length d \<le> L"
    "L \<le> length (cb_buffer b) + length d" "\<And>i. i < cb_size b \<Longrightarrow> cb_buffer b1 ! ((cb_begin b + i) mod L) = cb_contents b ! i"
    using g(2) by (simp_all add: grown_def L_def)
  have L: "0 < L" "L < 2 ^ 31" "length d \<le> L" using b1(3-5) assms(2) by linarith+
  have "add64 (cb_begin b) (cb_size b) = p" using assms(1) by (auto simp: p_def cb_inv_def small_arith(1) split: if_splits)
  then have w: "cb_write (FromCaller d) (length d) b = Some b2" by (simp add: cb_write_grow g(1) b2_def)
  have c: "copies d p (length d) (cb_buffer b1) (cb_buffer b2)"
    unfolding b2_def by (rule write_segments_copies [OF L_def [symmetric] L]) simp_all
  have fr: "length (cb_buffer b2) = L" "cb_begin b2 = cb_begin b" "cb_size b2 = cb_size b + length d"
    using c b1(1,2) by (simp_all add: copies_def L_def b2_def write_segments_frame)
  have e: "cb_end b2 = (p + length d) mod L" unfolding b2_def
    by (rule write_segments_end [OF L_def [symmetric] L n _ refl refl]) (simp add: source_bytes_def)
  have inv: "cb_inv b2" using fr e L b1(3,4) by (auto simp: cb_inv_def p_def add.assoc)
  have "cb_contents b2 ! i = (cb_contents b @ d) ! i" if i: "i < cb_size b + length d" for i
  proof (cases "i < cb_size b")
    case True
    have "(cb_begin b + i) mod L \<noteq> (p + j) mod L" if "j < length d" for j
      using mod_inj [of "cb_begin b" i L "cb_size b + j"] True that b1(4) by (auto simp: p_def add.assoc)
    then have "cb_buffer b2 ! ((cb_begin b + i) mod L) = cb_buffer b1 ! ((cb_begin b + i) mod L)"
      using c L(1) unfolding copies_def L_def [symmetric] by simp
    then show ?thesis using True i fr b1(6) by (simp add: cb_contents_nth nth_append)
  next
    case False
    then have "(cb_begin b + i) mod L = (p + (i - cb_size b)) mod L" "i - cb_size b < length d" using i by (simp_all add: p_def)
    then have "cb_buffer b2 ! ((cb_begin b + i) mod L) = d ! (i - cb_size b)" using c unfolding copies_def L_def [symmetric] by simp
    then show ?thesis using False i fr by (simp add: cb_contents_nth nth_append)
  qed
  then have "cb_contents b2 = cb_contents b @ d" using fr by (intro nth_equalityI) simp_all
  with w inv fr(1) b1(5) show ?thesis by simp
qed

section \<open>Reading\<close>

lemma cb_peek_data:
  assumes "cb_inv b" and "n \<le> cb_size b"
  shows "cb_peek n b = Some (take n (cb_contents b))"
proof (cases "n = 0")
  case False
  define L where "L = length (cb_buffer b)"
  define k where "k = min n (L - cb_begin b)"
  have L: "0 < L" "L < 2 ^ 31" "n \<le> L" and m: "cb_begin b < L" "cb_begin b mod L = cb_begin b"
    using assms False by (auto simp: cb_inv_def L_def split: if_splits)
  have k: "k \<le> n" "cb_begin b + k \<le> L" "n - k \<le> L" using m L(3) by (simp_all add: k_def)
  have "cb_peek n b = Some (take k (drop (cb_begin b) (cb_buffer b)) @ take (n - k) (cb_buffer b))"
    using False k m(2) segments_small [OF L, of k "cb_begin b"]
    by (auto simp: cb_peek_def read_segment_def L_def [symmetric] k_def [symmetric])
  moreover have "take k (drop (cb_begin b) (cb_buffer b)) @ take (n - k) (cb_buffer b) = take n (cb_contents b)" (is "?l = ?r")
  proof (rule nth_equalityI)
    show "length ?l = length ?r" using k assms(2) by (simp add: L_def [symmetric])
    fix i assume "i < length ?l"
    then have i: "i < n" using k by (simp add: L_def [symmetric])
    have "(cb_begin b + i) mod L = (if cb_begin b + i < L then cb_begin b + i else cb_begin b + i - L)"
      using mod_place [OF L(1,3) i, of "cb_begin b"] m(2) by simp
    moreover have "cb_begin b + i < L \<longleftrightarrow> i < k" using i by (auto simp: k_def)
    moreover have "\<not> i < k \<Longrightarrow> cb_begin b + i - L = i - k" using i m(1) by (auto simp: k_def)
    ultimately show "?l ! i = ?r ! i" using i k assms(2) by (auto simp: cb_contents_nth nth_append L_def [symmetric])
  qed
  ultimately show ?thesis by simp
qed (simp add: cb_peek_def)

lemma cb_skip_data:
  assumes "cb_inv b" and "n \<le> cb_size b"
  shows "\<exists>b'. cb_skip n b = Some b' \<and> cb_inv b' \<and> cb_contents b' = drop n (cb_contents b) \<and> length (cb_buffer b') = length (cb_buffer b)"
proof (cases "n = 0")
  case False
  define L where "L = length (cb_buffer b)"
  have L: "0 < L" "L < 2147483648" "n \<le> L" "cb_begin b < L" using assms False by (auto simp: cb_inv_def L_def split: if_splits)
  define b' where "b' = b\<lparr>cb_begin := (cb_begin b + n) mod L, cb_size := cb_size b - n\<rparr>"
  have "add64 (cb_begin b) n = cb_begin b + n" using L by (intro small_arith(1)) simp
  then have s: "cb_skip n b = Some b'" using False assms(2) by (simp add: cb_skip_def b'_def L_def)
  have sh: "((cb_begin b + n) mod L + i) mod L = (cb_begin b + (n + i)) mod L" for i by (simp add: mod_simps add.assoc)
  then have "cb_contents b' = drop n (cb_contents b)"
    using assms(2) by (intro nth_equalityI) (simp_all add: cb_contents_nth b'_def L_def)
  moreover have "((cb_begin b + n) mod L + (cb_size b - n)) mod L = (cb_begin b + cb_size b) mod L"
    using sh [of "cb_size b - n"] assms(2) by simp
  then have "cb_inv b'" using assms L unfolding cb_inv_def b'_def L_def by (auto split: if_splits)
  ultimately show ?thesis using s by (simp add: b'_def)
qed (use assms in \<open>simp add: cb_skip_def\<close>)

lemma cb_skip_size: "cb_skip n b = Some b' \<Longrightarrow> cb_size b' = cb_size b - n"
  by (auto simp: cb_skip_def split: if_splits)

section \<open>The interface\<close>

text \<open>A queue of bytes that holds everything written to it until it is skipped, up to a limit on what it has allocated.\<close>

locale byte_queue =
  fixes qwrite :: "bytes \<Rightarrow> 'q \<Rightarrow> 'q option" and qpeek :: "nat \<Rightarrow> 'q \<Rightarrow> bytes option" and qskip :: "nat \<Rightarrow> 'q \<Rightarrow> 'q option"
    and contents :: "'q \<Rightarrow> bytes" and allocated :: "'q \<Rightarrow> nat" and limit :: nat and ok :: "'q \<Rightarrow> bool"
  assumes write_law: "ok q \<Longrightarrow> allocated q + length d < limit \<Longrightarrow>
      \<exists>q'. qwrite d q = Some q' \<and> ok q' \<and> contents q' = contents q @ d \<and> allocated q' \<le> allocated q + length d"
    and peek_law: "ok q \<Longrightarrow> n \<le> length (contents q) \<Longrightarrow> qpeek n q = Some (take n (contents q))"
    and skip_law: "ok q \<Longrightarrow> n \<le> length (contents q) \<Longrightarrow>
      \<exists>q'. qskip n q = Some q' \<and> ok q' \<and> contents q' = drop n (contents q) \<and> allocated q' = allocated q"

datatype queue_op = Write bytes | Read nat

text \<open>A sequence of writes and reads on any queue, and on the list of bytes it stands for.\<close>

fun run_queue ::
  "(bytes \<Rightarrow> 'q \<Rightarrow> 'q option) \<Rightarrow> (nat \<Rightarrow> 'q \<Rightarrow> bytes option) \<Rightarrow> (nat \<Rightarrow> 'q \<Rightarrow> 'q option) \<Rightarrow> queue_op list \<Rightarrow> 'q
   \<Rightarrow> (bytes list \<times> 'q) option" where
  "run_queue w p s [] q = Some ([], q)"
| "run_queue w p s (Write d # ops) q = do { q1 \<leftarrow> w d q; run_queue w p s ops q1 }"
| "run_queue w p s (Read n # ops) q =
     do { d \<leftarrow> p n q; q1 \<leftarrow> s n q; (ds, q2) \<leftarrow> run_queue w p s ops q1; Some (d # ds, q2) }"

fun run_fifo :: "queue_op list \<Rightarrow> bytes \<Rightarrow> (bytes list \<times> bytes) option" where
  "run_fifo [] xs = Some ([], xs)"
| "run_fifo (Write d # ops) xs = run_fifo ops (xs @ d)"
| "run_fifo (Read n # ops) xs =
     (if n \<le> length xs then do { (ds, ys) \<leftarrow> run_fifo ops (drop n xs); Some (take n xs # ds, ys) } else None)"

fun op_bytes :: "queue_op \<Rightarrow> nat" where
  "op_bytes (Write d) = length d"
| "op_bytes (Read n) = 0"

context byte_queue
begin

lemma run_refines:
  assumes "ok q" and "run_fifo ops (contents q) = Some (ds, rest)" and "allocated q + sum_list (map op_bytes ops) < limit"
  shows "\<exists>q'. run_queue qwrite qpeek qskip ops q = Some (ds, q') \<and> ok q' \<and> contents q' = rest"
  using assms
proof (induction ops arbitrary: q ds)
  case (Cons op ops)
  show ?case
  proof (cases op)
    case (Write d)
    obtain q1 where q1: "qwrite d q = Some q1" "ok q1" "contents q1 = contents q @ d" "allocated q1 \<le> allocated q + length d"
      using write_law [OF Cons.prems(1), of d] Cons.prems(3) Write by auto
    then show ?thesis using Cons.IH [OF q1(2), of ds] Cons.prems(2,3) Write by auto
  next
    case (Read n)
    from Cons.prems(2) Read obtain ds' where n: "n \<le> length (contents q)" and r: "run_fifo ops (drop n (contents q)) = Some (ds', rest)"
      and ds: "ds = take n (contents q) # ds'"
      by (auto split: if_splits Option.bind_splits)
    obtain q1 where q1: "qskip n q = Some q1" "ok q1" "contents q1 = drop n (contents q)" "allocated q1 = allocated q"
      using skip_law [OF Cons.prems(1) n] by blast
    then obtain q2 where "run_queue qwrite qpeek qskip ops q1 = Some (ds', q2)" "ok q2" "contents q2 = rest"
      using Cons.IH [OF q1(2), of ds'] r Cons.prems(3) Read by auto
    then show ?thesis using q1(1) peek_law [OF Cons.prems(1) n] Read ds by simp
  qed
qed simp

end

interpretation cb: byte_queue "\<lambda>d. cb_write (FromCaller d) (length d)" cb_peek cb_skip cb_contents "\<lambda>b. length (cb_buffer b)" "2 ^ 31" cb_inv
  by unfold_locales (use cb_write_data cb_peek_data cb_skip_data in simp_all)



end
