(* ===== verification/Proxy.thy ===== *)
theory Proxy
  imports Containers Decompress
begin

text \<open>
  The proxy: \<^verbatim>\<open>mrudp/Proxy.cpp\<close>. Two proxies share one connection, the wire. A client connects to the first proxy
  and names the address it wants to reach; the first proxy packs what its clients send into blocks and sends
  them over the wire; the second unpacks them, opens a connection to that address for each client and
  forwards the data; and the other way round.

  The calls into the library (\<^verbatim>\<open>mrudp_send\<close>, \<^verbatim>\<open>mrudp_connect_ex\<close>, \<^verbatim>\<open>mrudp_close_connection\<close> and so on) are effects, in order; what
  they return comes from \<open>ProxyEnv\<close>. Handles are numbers, \<open>None\<close> the null handle. The pointer to a \<^verbatim>\<open>ProxyConnection\<close>
  that the library keeps as user data is given by the identifier of the connection in the map.
  \<open>None\<close> as the result of an operation is a failed assertion, a read outside a buffer, or a call that does not return.
\<close>

unbundle bit_operations_syntax

section \<open>Data\<close>

type_synonym ProxyID = u32
type_synonym handle = "nat option"

definition ProxyID_SERVER :: ProxyID where [simp]: "ProxyID_SERVER = 0xFF000000"
definition ProxyID_CONNECTION :: ProxyID where [simp]: "ProxyID_CONNECTION = NOT ProxyID_SERVER"
definition proxyProbeDelay :: int where [simp]: "proxyProbeDelay = 30"
definition maxOutstandingMessages :: nat where [simp]: "maxOutstandingMessages = 16"

datatype ProxyMode = Mode_NONE | Mode_WIRE | Mode_CONNECTION

type_synonym ProxyPacketMode = u8

definition Packet_OPEN :: ProxyPacketMode where [simp]: "Packet_OPEN = 0"
definition Packet_CLOSE :: ProxyPacketMode where [simp]: "Packet_CLOSE = 1"
definition Packet_RELIABLE :: ProxyPacketMode where [simp]: "Packet_RELIABLE = 2"
definition Packet_UNRELIABLE :: ProxyPacketMode where [simp]: "Packet_UNRELIABLE = 3"

record ProxyPacketHeader =
  ph_size :: u16
  ph_id :: ProxyID
  ph_type :: ProxyPacketMode

definition enc_proxy_header :: "ProxyPacketHeader \<Rightarrow> bytes" where
  "enc_proxy_header h = enc_word 2 (ph_size h) @ enc_word 4 (ph_id h) @ [ph_type h]"

definition dec_proxy_header :: "bytes \<Rightarrow> ProxyPacketHeader" where
  "dec_proxy_header bs = \<lparr>ph_size = dec_word (take 2 bs), ph_id = dec_word (take 4 (drop 2 bs)), ph_type = bs ! 6\<rparr>"

definition proxy_header_size :: nat where [simp]: "proxy_header_size = 7"

record ProxyConnection =
  pc_id :: ProxyID
  pc_mode :: ProxyMode
  pc_connection :: handle

record ProxyOptions =
  po_magic_wire :: u64
  po_magic_connection :: u64
  po_tick_interval_ms :: u16
  po_maximum_wire_retry_attempts :: u16
  po_compression_level :: u8

definition proxy_options_default :: ProxyOptions where
  "proxy_options_default = \<lparr>po_magic_wire = 42, po_magic_connection = 13, po_tick_interval_ms = 250,
     po_maximum_wire_retry_attempts = 16384, po_compression_level = 9\<rparr>"

datatype proxy_effect =
    PxSocket nat Address
  | PxListen nat
  | PxConnect nat Address ConnectionOptions ProxyID
  | PxAccept handle ConnectionOptions ProxyID
  | PxSetOptions handle ConnectionOptions
  | PxSend handle bytes bool
  | PxClose handle
  | PxCloseSocket nat
  | PxOverRead

record Proxy =
  px_closed :: bool
  px_clientSocket :: nat
  px_serverSocket :: nat
  px_options :: ProxyOptions
  px_wire :: handle
  px_out :: SizedVector
  px_in :: CircularBuffer
  px_nextProxyID :: ProxyID
  px_connections :: "(ProxyID, ProxyConnection) om"
  px_effects :: "proxy_effect list"

text \<open>
  What the library answers: the handle of a new connection, which may depend on everything asked before, the
  options of a connection, its number of packets awaiting an ack (\<open>None\<close> when the call fails), the result of
  accepting; and what an address that has not been initialised contains.
\<close>

record ProxyEnv =
  pe_connect :: "proxy_effect list \<Rightarrow> handle"
  pe_options :: "handle \<Rightarrow> ConnectionOptions"
  pe_awaiting :: "handle \<Rightarrow> nat option"
  pe_accept :: "handle \<Rightarrow> int"
  pe_address :: Address

definition px_emit :: "proxy_effect \<Rightarrow> Proxy \<Rightarrow> Proxy" where
  "px_emit e p = p\<lparr>px_effects := px_effects p @ [e]\<rparr>"

definition incrementProxyID :: "ProxyID \<Rightarrow> ProxyID" where
  "incrementProxyID i = (let server = i AND ProxyID_SERVER in server OR ((i + 1) AND ProxyID_CONNECTION))"

section \<open>Writing and reading\<close>

definition queue_write :: "bytes \<Rightarrow> SizedVector \<Rightarrow> SizedVector" where
  "queue_write data queue =
     (let at = sv_size queue; q = sv_resize (sv_size queue + length data) queue
      in q\<lparr>sv_v := overwrite at data (sv_v q)\<rparr>)"

text \<open>\<^verbatim>\<open>DataIn\<close> is what is left of the data.\<close>

definition read_in :: "nat \<Rightarrow> bytes \<Rightarrow> (bytes \<times> bytes) option" where
  "read_in n data = (if n > length data then None else Some (take n data, drop n data))"

definition skip_in :: "nat \<Rightarrow> bytes \<Rightarrow> bytes" where
  "skip_in n data = (if n > length data then data else drop n data)"

text \<open>An IPv4 address in its 28 bytes: family, port, address.\<close>

definition write_addr :: "Address \<Rightarrow> bytes" where
  "write_addr a = [52] @ take 4 (drop 4 a) @ take 2 (drop 2 a)"

definition read_addr :: "Address \<Rightarrow> bytes \<Rightarrow> (Address \<times> bytes) option" where
  "read_addr a data =
     do { (ty, d1) \<leftarrow> read_in 1 data;
          if ty \<noteq> [52] then None
          else do { (addr, d2) \<leftarrow> read_in 4 d1;
                    (port, d3) \<leftarrow> read_in 2 d2;
                    Some (enc_word 2 AF_INET @ port @ addr @ drop 8 a, d3) } }"

lemma read_in_length: "read_in n data = Some (x, d) \<Longrightarrow> length d = length data - n \<and> n \<le> length data"
  by (auto simp: read_in_def split: if_splits)

lemma read_addr_length: "read_addr a data = Some (x, d) \<Longrightarrow> length d + 7 = length data"
  by (auto simp: read_addr_def split: Option.bind_splits if_splits dest!: read_in_length)

definition proxy_send_queue :: "ProxyID \<Rightarrow> ProxyPacketMode \<Rightarrow> bytes \<Rightarrow> Proxy \<Rightarrow> Proxy" where
  "proxy_send_queue i mode data p =
     (let header = \<lparr>ph_size = of_nat (length data), ph_id = i, ph_type = mode\<rparr>
      in p\<lparr>px_out := queue_write data (queue_write (enc_proxy_header header) (px_out p))\<rparr>)"

definition proxy_receive_queue :: "bytes \<Rightarrow> Proxy \<Rightarrow> Proxy option" where
  "proxy_receive_queue data p =
     do { b \<leftarrow> cb_write (FromCaller data) (length data) (px_in p); Some (p\<lparr>px_in := b\<rparr>) }"

section \<open>Connections\<close>

definition proxy_connection :: "ProxyID \<Rightarrow> Proxy \<Rightarrow> ProxyConnection" where
  "proxy_connection i p =
     (case om_find (px_connections p) i of Some c \<Rightarrow> c | None \<Rightarrow> \<lparr>pc_id = i, pc_mode = Mode_NONE, pc_connection = None\<rparr>)"

definition set_connection_of :: "ProxyID \<Rightarrow> ProxyConnection \<Rightarrow> Proxy \<Rightarrow> Proxy" where
  "set_connection_of i c p = p\<lparr>px_connections := om_assign i c (px_connections p)\<rparr>"

definition packet_options :: "int \<Rightarrow> ConnectionOptions" where
  "packet_options delay =
     (let o1 = mrudp_default_connection_options
      in o1\<lparr>opt_coalesce_reliable := (opt_coalesce_reliable o1)\<lparr>co_mode := MRUDP_COALESCE_PACKET, co_delay_ms := delay\<rparr>,
            opt_coalesce_unreliable := (opt_coalesce_unreliable o1)\<lparr>co_mode := MRUDP_COALESCE_NONE\<rparr>,
            opt_probe_delay_ms := proxyProbeDelay\<rparr>)"

definition on_connection_open :: "ProxyEnv \<Rightarrow> ProxyMode \<Rightarrow> ProxyID \<Rightarrow> Address \<Rightarrow> Proxy \<Rightarrow> Proxy" where
  "on_connection_open env mode i address p =
     (let c = (proxy_connection i p)\<lparr>pc_id := i, pc_mode := mode\<rparr>;
          p1 = px_emit (PxConnect (px_clientSocket p) address (packet_options 5) i) (set_connection_of i c p)
      in set_connection_of i (c\<lparr>pc_connection := pe_connect env (px_effects p1)\<rparr>) p1)"

definition initiate_connection_close :: "ProxyID \<Rightarrow> Proxy \<Rightarrow> Proxy" where
  "initiate_connection_close i p =
     (case om_find (px_connections p) i of
        None \<Rightarrow> p
      | Some c \<Rightarrow> px_emit (PxClose (pc_connection c)) (set_connection_of i (c\<lparr>pc_connection := None\<rparr>) p))"

definition erase_connection :: "ProxyID \<Rightarrow> Proxy \<Rightarrow> Proxy" where
  "erase_connection i p = p\<lparr>px_connections := om_erase i (px_connections p)\<rparr>"

section \<open>Packets from the wire\<close>

definition forward :: "ProxyPacketHeader \<Rightarrow> bytes \<Rightarrow> Proxy \<Rightarrow> Proxy" where
  "forward header data p =
     (case om_find (px_connections p) (ph_id header) of
        None \<Rightarrow> p
      | Some c \<Rightarrow>
          if unat (ph_size header) > length data then px_emit PxOverRead p
          else px_emit (PxSend (pc_connection c) (take (unat (ph_size header)) data) (ph_type header = Packet_RELIABLE)) p)"

function on_wire_loop :: "ProxyEnv \<Rightarrow> bytes \<Rightarrow> Proxy \<Rightarrow> int \<times> Proxy" where
  "on_wire_loop env data p =
     (if data = [] then (0, p)
      else if length data < proxy_header_size then (-1, p)
      else let header = dec_proxy_header (take proxy_header_size data); rest = drop proxy_header_size data
           in if ph_type header = Packet_OPEN
              then case read_addr (pe_address env) rest of
                     None \<Rightarrow> (-1, p)
                   | Some (address, rest1) \<Rightarrow> on_wire_loop env rest1 (on_connection_open env Mode_CONNECTION (ph_id header) address p)
              else if ph_type header = Packet_CLOSE then on_wire_loop env rest (initiate_connection_close (ph_id header) p)
              else if ph_type header = Packet_RELIABLE \<or> ph_type header = Packet_UNRELIABLE
              then on_wire_loop env (skip_in (unat (ph_size header)) rest) (forward header rest p)
              else on_wire_loop env rest p)"
  by pat_completeness auto
termination
  by (relation "measure (\<lambda>(env, data, p). length data)") (auto simp: skip_in_def neq_Nil_conv dest: read_addr_length)

declare on_wire_loop.simps [simp del]

text \<open>The size is an \<^verbatim>\<open>int\<close>: with 2 GiB or more it is negative and no header can be read.\<close>

definition on_wire_packet :: "ProxyEnv \<Rightarrow> bytes \<Rightarrow> Proxy \<Rightarrow> int \<times> Proxy" where
  "on_wire_packet env data p = (if length data \<ge> 2 ^ 31 then (-1, p) else on_wire_loop env data p)"

lemma forward_frame [simp]: "px_in (forward h d p) = px_in p" "px_out (forward h d p) = px_out p" "px_wire (forward h d p) = px_wire p"
  "px_options (forward h d p) = px_options p"
  by (simp_all add: forward_def px_emit_def split: option.splits)

lemma on_connection_open_frame [simp]:
  "px_in (on_connection_open env m i a p) = px_in p" "px_out (on_connection_open env m i a p) = px_out p"
  "px_wire (on_connection_open env m i a p) = px_wire p" "px_options (on_connection_open env m i a p) = px_options p"
  by (simp_all add: on_connection_open_def px_emit_def set_connection_of_def Let_def)

lemma initiate_connection_close_frame [simp]:
  "px_in (initiate_connection_close i p) = px_in p" "px_out (initiate_connection_close i p) = px_out p"
  "px_wire (initiate_connection_close i p) = px_wire p" "px_options (initiate_connection_close i p) = px_options p"
  by (simp_all add: initiate_connection_close_def px_emit_def set_connection_of_def split: option.splits)

lemma on_wire_loop_frame:
  "px_in (snd (on_wire_loop env data p)) = px_in p \<and> px_out (snd (on_wire_loop env data p)) = px_out p
   \<and> px_wire (snd (on_wire_loop env data p)) = px_wire p \<and> px_options (snd (on_wire_loop env data p)) = px_options p"
proof (induction env data p rule: on_wire_loop.induct)
  case (1 env data p)
  then show ?case by (subst (1 2 3 4) on_wire_loop.simps) (auto simp: Let_def split: option.split)
qed

lemma on_wire_packet_frame [simp]:
  "px_in (snd (on_wire_packet env data p)) = px_in p" "px_out (snd (on_wire_packet env data p)) = px_out p"
  "px_wire (snd (on_wire_packet env data p)) = px_wire p" "px_options (snd (on_wire_packet env data p)) = px_options p"
  using on_wire_loop_frame [of env data p] by (simp_all add: on_wire_packet_def)

section \<open>Packets and closes of the connections\<close>

definition on_proxy_packet :: "ProxyID \<Rightarrow> bytes \<Rightarrow> bool \<Rightarrow> Proxy \<Rightarrow> int \<times> Proxy" where
  "on_proxy_packet i data is_reliable p =
     (MRUDP_OK, proxy_send_queue i (if is_reliable then Packet_RELIABLE else Packet_UNRELIABLE) data p)"

definition on_wire_close :: "ProxyID \<Rightarrow> Proxy \<Rightarrow> int \<times> Proxy" where
  "on_wire_close i p = (0, erase_connection i p)"

definition on_proxy_close :: "ProxyID \<Rightarrow> Proxy \<Rightarrow> int \<times> Proxy" where
  "on_proxy_close i p = (0, erase_connection i (proxy_send_queue i Packet_CLOSE [] p))"

definition stream_options :: "ConnectionOptions \<Rightarrow> ConnectionOptions" where
  "stream_options o1 = o1\<lparr>opt_coalesce_reliable := (opt_coalesce_reliable o1)\<lparr>co_mode := MRUDP_COALESCE_STREAM\<rparr>\<rparr>"

text \<open>
  \<^verbatim>\<open>on_connection_packet\<close> and \<^verbatim>\<open>on_mode_packet\<close> call each other: the first packet of a connection says what the connection is, and the rest
  of that packet is handled as one of that kind.
\<close>

function (sequential)
  on_connection_packet :: "ProxyEnv \<Rightarrow> ProxyID \<Rightarrow> bytes \<Rightarrow> bool \<Rightarrow> Proxy \<Rightarrow> (int \<times> Proxy) option" and
  on_mode_packet :: "ProxyEnv \<Rightarrow> ProxyID \<Rightarrow> bytes \<Rightarrow> bool \<Rightarrow> Proxy \<Rightarrow> (int \<times> Proxy) option" where
  "on_connection_packet env i data is_reliable p =
     (if data = [] then Some (0, p)
      else case pc_mode (proxy_connection i p) of
             Mode_NONE \<Rightarrow> on_mode_packet env i data is_reliable p
           | Mode_WIRE \<Rightarrow> do { p1 \<leftarrow> proxy_receive_queue data p; Some (MRUDP_OK, p1) }
           | Mode_CONNECTION \<Rightarrow> Some (on_proxy_packet i data is_reliable p))"
| "on_mode_packet env i data is_reliable p =
     (if length data < 8 then Some (-1, p)
      else let magic = dec_word (take 8 data) :: u64; rest = drop 8 data; c = proxy_connection i p
           in if magic = po_magic_wire (px_options p)
              then on_connection_packet env i rest is_reliable
                     (px_emit (PxSetOptions (pc_connection c) (stream_options (pe_options env (pc_connection c))))
                       (set_connection_of i (c\<lparr>pc_mode := Mode_WIRE\<rparr>) (p\<lparr>px_wire := pc_connection c\<rparr>)))
              else if magic = po_magic_connection (px_options p)
              then case read_addr (pe_address env) rest of
                     None \<Rightarrow> Some (-1, p)
                   | Some (addr, rest1) \<Rightarrow>
                       on_connection_packet env i rest1 is_reliable
                         (set_connection_of i (c\<lparr>pc_mode := Mode_CONNECTION\<rparr>) (proxy_send_queue i Packet_OPEN (write_addr addr) p))
              else Some (-1, p))"
  by pat_completeness auto
termination
  by (relation "measure (\<lambda>x. case x of Inl (env, i, data, r, p) \<Rightarrow> 2 * length data + 1 | Inr (env, i, data, r, p) \<Rightarrow> 2 * length data)")
    (auto dest: read_addr_length)

declare on_connection_packet.simps [simp del] on_mode_packet.simps [simp del]

definition on_connection_close :: "ProxyID \<Rightarrow> Proxy \<Rightarrow> int \<times> Proxy" where
  "on_connection_close i p =
     (let c = proxy_connection i p;
          p1 = set_connection_of i (c\<lparr>pc_connection := None\<rparr>) (px_emit (PxClose (pc_connection c)) p)
      in case pc_mode c of
           Mode_WIRE \<Rightarrow> on_wire_close i p1
         | Mode_CONNECTION \<Rightarrow> on_proxy_close i p1
         | Mode_NONE \<Rightarrow> (-1, p1))"

text \<open>\<^verbatim>\<open>on_socket_accept\<close> and \<^verbatim>\<open>on_wire_socket_accept\<close>, which differ in the options they accept with.\<close>

definition accept_with :: "ProxyEnv \<Rightarrow> ConnectionOptions \<Rightarrow> handle \<Rightarrow> Proxy \<Rightarrow> int \<times> Proxy" where
  "accept_with env o1 connection p =
     (let i = px_nextProxyID p;
          p1 = p\<lparr>px_nextProxyID := incrementProxyID i\<rparr>;
          p2 = set_connection_of i \<lparr>pc_id = i, pc_mode = Mode_NONE, pc_connection = connection\<rparr> p1
      in (pe_accept env connection, px_emit (PxAccept connection o1 i) p2))"

definition on_socket_accept :: "ProxyEnv \<Rightarrow> handle \<Rightarrow> Proxy \<Rightarrow> int \<times> Proxy" where
  "on_socket_accept env connection p = accept_with env (packet_options (-1)) connection p"

definition wire_retries :: "Proxy \<Rightarrow> int" where
  "wire_retries p = sint (po_maximum_wire_retry_attempts (px_options p))"

definition on_wire_socket_accept :: "ProxyEnv \<Rightarrow> handle \<Rightarrow> Proxy \<Rightarrow> int \<times> Proxy" where
  "on_wire_socket_accept env connection p =
     accept_with env ((packet_options (-1))\<lparr>opt_maximum_retry_attempts := wire_retries p\<rparr>) connection p"

section \<open>The tick\<close>

definition wire_block :: "compressor \<Rightarrow> u8 \<Rightarrow> bytes \<Rightarrow> bytes" where
  "wire_block z level source =
     (case (if level > 0 then z (length source) source (uint level) else None) of
        Some dest \<Rightarrow>
          (let payloadSize = of_nat (1 + 4 + length dest) :: u32
           in take (nat (sint (4 + payloadSize)))
                (enc_word 4 payloadSize @ [1] @ enc_word 4 (of_nat (length source) :: u32) @ dest))
      | None \<Rightarrow>
          (let payloadSize = of_nat (1 + length source) :: u32
           in take (nat (sint (4 + payloadSize))) (enc_word 4 payloadSize @ [0] @ source)))"

definition tick_out :: "compressor \<Rightarrow> ProxyEnv \<Rightarrow> Proxy \<Rightarrow> Proxy" where
  "tick_out z env p =
     (if \<not> sv_empty (px_out p)
      then case pe_awaiting env (px_wire p) of
             None \<Rightarrow> p
           | Some n \<Rightarrow>
               if n < maxOutstandingMessages
               then (px_emit (PxSend (px_wire p) (wire_block z (po_compression_level (px_options p)) (sv_contents (px_out p))) True) p)
                      \<lparr>px_out := sv_resize 0 (px_out p)\<rparr>
               else p
      else p)"

lemma cb_read_size: "cb_read n b = Some (d, b') \<Longrightarrow> cb_size b' = cb_size b - n"
  by (auto simp: cb_read_def split: if_splits Option.bind_splits dest: cb_skip_size)

function tick_in :: "decompressor \<Rightarrow> ProxyEnv \<Rightarrow> Proxy \<Rightarrow> Proxy option" where
  "tick_in u env p =
     (if cb_size (px_in p) > 4
      then do { bs \<leftarrow> cb_peek 4 (px_in p);
                let packetSize = (dec_word bs :: u32);
                if cb_size (px_in p) < unat packetSize + 4 then Some p
                else do { in1 \<leftarrow> cb_skip 4 (px_in p);
                          (w, in2) \<leftarrow> cb_read 1 in1;
                          let payloadSize = packetSize - 1;
                          if w = [0]
                          then do { (d, in3) \<leftarrow> cb_read (unat payloadSize) in2;
                                    tick_in u env (snd (on_wire_packet env d (p\<lparr>px_in := in3\<rparr>))) }
                          else do { (us, in3) \<leftarrow> cb_read 4 in2;
                                    (d, in4) \<leftarrow> cb_read (unat (payloadSize - 4)) in3;
                                    tick_in u env (snd (on_wire_packet env (u (unat (dec_word us :: u32)) d) (p\<lparr>px_in := in4\<rparr>))) } } }
      else Some p)"
  by pat_completeness auto
termination
  by (relation "measure (\<lambda>(u, env, p). cb_size (px_in p))") (auto dest!: cb_skip_size cb_read_size)

declare tick_in.simps [simp del]

definition proxy_tick :: "compressor \<Rightarrow> decompressor \<Rightarrow> ProxyEnv \<Rightarrow> Proxy \<Rightarrow> Proxy option" where
  "proxy_tick z u env p = (if px_wire p = None then Some p else tick_in u env (tick_out z env p))"

section \<open>Opening and closing\<close>

definition wire_options :: "Proxy \<Rightarrow> ConnectionOptions" where
  "wire_options p =
     (let o1 = mrudp_default_connection_options
      in o1\<lparr>opt_coalesce_reliable := (opt_coalesce_reliable o1)\<lparr>co_mode := MRUDP_COALESCE_STREAM, co_delay_ms := 0\<rparr>,
            opt_coalesce_unreliable := (opt_coalesce_unreliable o1)\<lparr>co_mode := MRUDP_COALESCE_NONE\<rparr>,
            opt_probe_delay_ms := proxyProbeDelay, opt_maximum_retry_attempts := wire_retries p\<rparr>)"

text \<open>\<open>client\<close> and \<open>server\<close> are the handles \<^verbatim>\<open>mrudp_socket\<close> returns; the bound addresses are only reported.\<close>

definition proxy_open ::
  "ProxyEnv \<Rightarrow> nat \<Rightarrow> nat \<Rightarrow> Address \<Rightarrow> Address option \<Rightarrow> Address option \<Rightarrow> ProxyOptions \<Rightarrow> Proxy" where
  "proxy_open env client server frm on_addr to_addr options =
     (let p = \<lparr>px_closed = False, px_clientSocket = client, px_serverSocket = (case on_addr of None \<Rightarrow> client | Some _ \<Rightarrow> server),
               px_options = options, px_wire = None, px_out = new_SizedVector, px_in = new_CircularBuffer, px_nextProxyID = 0,
               px_connections = [], px_effects = [PxSocket client frm] @ (case on_addr of None \<Rightarrow> [] | Some a \<Rightarrow> [PxSocket server a])\<rparr>;
          p1 = (case to_addr of
                  Some a \<Rightarrow>
                    (let i = px_nextProxyID p;
                         p1 = set_connection_of i \<lparr>pc_id = i, pc_mode = Mode_WIRE, pc_connection = None\<rparr>
                                (p\<lparr>px_nextProxyID := incrementProxyID i\<rparr>);
                         p2 = px_emit (PxConnect (px_serverSocket p1) a (wire_options p1) i) p1;
                         p3 = p2\<lparr>px_wire := pe_connect env (px_effects p2)\<rparr>
                     in px_emit (PxSend (px_wire p3) (enc_word 8 (po_magic_wire options)) True) p3)
                | None \<Rightarrow> p\<lparr>px_nextProxyID := ProxyID_SERVER\<rparr>);
          p2 = px_emit (PxListen (px_clientSocket p1)) p1
      in if px_serverSocket p2 \<noteq> px_clientSocket p2 then px_emit (PxListen (px_serverSocket p2)) p2 else p2)"

definition proxy_close :: "Proxy \<Rightarrow> Proxy" where
  "proxy_close p =
     (let p1 = px_emit (PxClose (px_wire p)) (p\<lparr>px_closed := True\<rparr>);
          p2 = p1\<lparr>px_wire := None\<rparr>;
          p3 = (if px_serverSocket p2 \<noteq> px_clientSocket p2 then px_emit (PxCloseSocket (px_serverSocket p2)) p2 else p2);
          p4 = px_emit (PxCloseSocket (px_clientSocket p3)) p3;
          p5 = p4\<lparr>px_connections := []\<rparr>
      in fold (\<lambda>(i, c). px_emit (PxClose (pc_connection c))) (px_connections p4) p5)"

text \<open>What a client sends first, and connecting through a proxy: \<open>result\<close> is what \<^verbatim>\<open>mrudp_send\<close> returns.\<close>

definition proxy_connect :: "handle \<Rightarrow> Address \<Rightarrow> u64 \<Rightarrow> proxy_effect" where
  "proxy_connect connection remote magic = PxSend connection (enc_word 8 magic @ write_addr remote) True"

definition mrudp_connect_ex_proxy :: "handle \<Rightarrow> int \<Rightarrow> Address \<Rightarrow> u64 \<Rightarrow> handle \<times> proxy_effect list" where
  "mrudp_connect_ex_proxy connection result remote magic =
     (case connection of
        None \<Rightarrow> (None, [])
      | Some _ \<Rightarrow>
          if result \<noteq> MRUDP_OK then (None, [proxy_connect connection remote magic, PxClose connection])
          else (connection, [proxy_connect connection remote magic]))"

section \<open>Identifiers\<close>

text \<open>The two sides of a wire number their connections in different halves: the first byte never changes.\<close>

lemma keeps_masked: "(i AND m OR (j AND NOT m)) AND m = i AND (m :: u32)"
  by (rule bit_word_eqI) (auto simp: bit_and_iff bit_or_iff bit_not_iff)

lemma incrementProxyID_server: "incrementProxyID i AND ProxyID_SERVER = i AND ProxyID_SERVER"
  unfolding incrementProxyID_def Let_def ProxyID_CONNECTION_def by (rule keeps_masked)

lemma incrementProxyID_server_iter: "(incrementProxyID ^^ n) i AND ProxyID_SERVER = i AND ProxyID_SERVER"
  by (induction n) (simp_all add: incrementProxyID_server del: ProxyID_SERVER_def)

text \<open>
  The identifiers a proxy that listens gives to its connections never meet those of the proxy at the other end of its
  wire, however many connections either has had.
\<close>

theorem proxy_ids_disjoint: "(incrementProxyID ^^ m) 0 \<noteq> (incrementProxyID ^^ n) ProxyID_SERVER"
proof
  assume eq: "(incrementProxyID ^^ m) 0 = (incrementProxyID ^^ n) ProxyID_SERVER"
  have "(0 :: u32) AND ProxyID_SERVER = ProxyID_SERVER AND ProxyID_SERVER"
    using incrementProxyID_server_iter [of m 0] incrementProxyID_server_iter [of n ProxyID_SERVER] eq by argo
  then show False by simp
qed

section \<open>Packets of the tunnel\<close>

datatype proxy_packet = OpenTo ProxyID Address | CloseOf ProxyID | DataOf ProxyID bool bytes

fun packet_id :: "proxy_packet \<Rightarrow> ProxyID" where
  "packet_id (OpenTo i a) = i"
| "packet_id (CloseOf i) = i"
| "packet_id (DataOf i r d) = i"

fun packet_ok :: "proxy_packet \<Rightarrow> bool" where
  "packet_ok (OpenTo i a) = (length a = address_size)"
| "packet_ok (CloseOf i) = True"
| "packet_ok (DataOf i r d) = (length d < 2 ^ 16)"

definition enc_proxy_packet :: "ProxyID \<Rightarrow> ProxyPacketMode \<Rightarrow> bytes \<Rightarrow> bytes" where
  "enc_proxy_packet i mode data = enc_proxy_header \<lparr>ph_size = of_nat (length data), ph_id = i, ph_type = mode\<rparr> @ data"

definition reliability_mode :: "bool \<Rightarrow> ProxyPacketMode" where
  "reliability_mode r = (if r then Packet_RELIABLE else Packet_UNRELIABLE)"

text \<open>A packet as the sending proxy queues it, as bytes, and what the receiving proxy does with it.\<close>

fun enqueue_packet :: "proxy_packet \<Rightarrow> Proxy \<Rightarrow> Proxy" where
  "enqueue_packet (OpenTo i a) p = proxy_send_queue i Packet_OPEN (write_addr a) p"
| "enqueue_packet (CloseOf i) p = proxy_send_queue i Packet_CLOSE [] p"
| "enqueue_packet (DataOf i r d) p = snd (on_proxy_packet i d r p)"

fun packet_bytes :: "proxy_packet \<Rightarrow> bytes" where
  "packet_bytes (OpenTo i a) = enc_proxy_packet i Packet_OPEN (write_addr a)"
| "packet_bytes (CloseOf i) = enc_proxy_packet i Packet_CLOSE []"
| "packet_bytes (DataOf i r d) = enc_proxy_packet i (reliability_mode r) d"

definition v4_address :: "Address \<Rightarrow> Address \<Rightarrow> Address" where
  "v4_address junk a = enc_word 2 AF_INET @ take 6 (drop 2 a) @ drop 8 junk"

fun apply_packet :: "ProxyEnv \<Rightarrow> proxy_packet \<Rightarrow> Proxy \<Rightarrow> Proxy" where
  "apply_packet env (OpenTo i a) p = on_connection_open env Mode_CONNECTION i (v4_address (pe_address env) a) p"
| "apply_packet env (CloseOf i) p = initiate_connection_close i p"
| "apply_packet env (DataOf i r d) p =
     (case om_find (px_connections p) i of None \<Rightarrow> p | Some c \<Rightarrow> px_emit (PxSend (pc_connection c) d r) p)"

lemma header_length [simp]: "length (enc_proxy_header h) = 7"
  by (simp add: enc_proxy_header_def)

lemma header_nonempty [simp]: "enc_proxy_header h \<noteq> []"
  by (simp add: enc_proxy_header_def)

lemma dec_enc_proxy_header [simp]: "dec_proxy_header (enc_proxy_header h) = h"
  by (simp add: dec_proxy_header_def enc_proxy_header_def nth_append)

lemma read_write_addr:
  assumes "length a = address_size"
  shows "read_addr junk (write_addr a @ rest) = Some (v4_address junk a, rest)"
proof -
  have "take 2 (drop 2 a) @ take 4 (drop 4 a) = take 6 (drop 2 a)"
    using take_add [of 2 4 "drop 2 a"] by simp
  then have "take 2 (drop 2 a) @ take 4 (drop 4 a) @ xs = take 6 (drop 2 a) @ xs" for xs by (metis append.assoc)
  with assms show ?thesis by (simp add: read_addr_def write_addr_def read_in_def v4_address_def)
qed

text \<open>
  An address sent through the tunnel arrives with its IPv4 address and port; the family is set, and the bytes of an
  address that only IPv6 has are not sent.
\<close>

theorem proxy_address_roundtrip:
  assumes "length a = address_size" and "length junk = address_size"
  shows "\<exists>a'. read_addr junk (write_addr a @ rest) = Some (a', rest) \<and> take 6 (drop 2 a') = take 6 (drop 2 a)
    \<and> take 2 a' = enc_word 2 AF_INET \<and> length a' = address_size"
  using assms read_write_addr [OF assms(1)] by (simp add: v4_address_def)

theorem proxy_address_roundtrip_witness:
  "\<exists>a'. read_addr empty_address (write_addr (replicate 28 7) @ [1]) = Some (a', [1]) \<and> take 6 (drop 2 a') = replicate 6 7
    \<and> take 2 a' = enc_word 2 AF_INET \<and> length a' = address_size"
  using proxy_address_roundtrip [of "replicate 28 7" empty_address "[1]"] by (simp add: empty_address_def numeral_eq_Suc)

lemma loop_step:
  assumes "packet_ok pk"
  shows "on_wire_loop env (packet_bytes pk @ rest) p = on_wire_loop env rest (apply_packet env pk p)"
proof (cases pk)
  case (OpenTo i a)
  with assms show ?thesis
    by (subst on_wire_loop.simps) (simp add: enc_proxy_packet_def Let_def read_write_addr)
next
  case (CloseOf i)
  then show ?thesis by (subst on_wire_loop.simps) (simp add: enc_proxy_packet_def Let_def)
next
  case (DataOf i r d)
  with assms have "unat (of_nat (length d) :: u16) = length d" by (simp add: unat_of_nat)
  with DataOf show ?thesis
    by (subst on_wire_loop.simps)
      (simp add: enc_proxy_packet_def Let_def forward_def skip_in_def reliability_mode_def split: option.splits)
qed

lemma loop_packets:
  "list_all packet_ok pks \<Longrightarrow> on_wire_loop env (concat (map packet_bytes pks)) p = (0, fold (apply_packet env) pks p)"
  by (induction pks arbitrary: p) (simp_all add: loop_step, simp add: on_wire_loop.simps)

end
