(* ===== verification/Proxy_Tunnel.thy ===== *)
theory Proxy_Tunnel
  imports Proxy
begin

text \<open>
  The tunnel between two proxies: what one proxy queues is what the other one does, in order, whatever blocks the ticks cut
  it into, whether they are compressed or not, and however the wire cuts the blocks into pieces.
\<close>

section \<open>The sending side\<close>

lemma queue_write_contents:
  assumes "sv_inv s"
  shows "sv_inv (queue_write d s)" "sv_contents (queue_write d s) = sv_contents s @ d"
proof -
  define q where "q = sv_resize (sv_size s + length d) s"
  have l: "sv_size s + length d \<le> length (sv_v q)" "sv_size q = sv_size s + length d" "take (sv_size s) (sv_v q) = take (sv_size s) (sv_v s)"
    using assms by (simp_all add: q_def sv_resize_def sv_reserve_def sv_inv_def)
  have w: "queue_write d s = q\<lparr>sv_v := overwrite (sv_size s) d (sv_v q)\<rparr>" by (simp add: queue_write_def q_def Let_def)
  show "sv_inv (queue_write d s)" using l by (simp add: w sv_inv_def)
  show "sv_contents (queue_write d s) = sv_contents s @ d" using l assms by (simp add: w sv_contents_def overwrite_def sv_inv_def)
qed

lemma enqueue_packet_out:
  assumes "sv_inv (px_out p)"
  shows "sv_inv (px_out (enqueue_packet pk p))" "sv_contents (px_out (enqueue_packet pk p)) = sv_contents (px_out p) @ packet_bytes pk"
    "px_effects (enqueue_packet pk p) = px_effects p" "px_wire (enqueue_packet pk p) = px_wire p" "px_options (enqueue_packet pk p) = px_options p"
  using assms by (cases pk; simp add: proxy_send_queue_def on_proxy_packet_def queue_write_contents enc_proxy_packet_def reliability_mode_def)+

datatype tx_op = Queue proxy_packet | Tick

fun tx_step :: "compressor \<Rightarrow> ProxyEnv \<Rightarrow> tx_op \<Rightarrow> Proxy \<Rightarrow> Proxy" where
  "tx_step z env (Queue pk) p = enqueue_packet pk p"
| "tx_step z env Tick p = tick_out z env p"

fun tx_packets :: "tx_op list \<Rightarrow> proxy_packet list" where
  "tx_packets [] = []"
| "tx_packets (Queue pk # ops) = pk # tx_packets ops"
| "tx_packets (Tick # ops) = tx_packets ops"

definition group_block :: "compressor \<Rightarrow> u8 \<Rightarrow> proxy_packet list \<Rightarrow> bytes" where
  "group_block z level pks = wire_block z level (concat (map packet_bytes pks))"

text \<open>What is sent on the wire are blocks of packets in the order they were queued; the rest is still in the queue.\<close>

lemma tx_blocks:
  assumes "sv_inv (px_out p)" and "sv_contents (px_out p) = concat (map packet_bytes waiting)" and "q = fold (tx_step z env) ops p"
  shows "\<exists>groups rest. px_effects q = px_effects p @ map (\<lambda>g. PxSend (px_wire p) (group_block z (po_compression_level (px_options p)) g) True) groups
    \<and> concat groups @ rest = waiting @ tx_packets ops \<and> sv_contents (px_out q) = concat (map packet_bytes rest)"
  using assms
proof (induction ops arbitrary: p waiting)
  case (Cons op ops)
  show ?case
  proof (cases op)
    case (Queue pk)
    note e = enqueue_packet_out [OF Cons.prems(1), of pk]
    show ?thesis using Cons.IH [OF e(1), of "waiting @ [pk]"] Cons.prems(2,3) e(2-5) Queue by simp
  next
    case Tick
    show ?thesis
    proof (cases "tick_out z env p = p")
      case True
      then show ?thesis using Cons.IH [OF Cons.prems(1,2)] Cons.prems(3) Tick by simp
    next
      case False
      define p1 where "p1 = tick_out z env p"
      have p1: "px_effects p1 = px_effects p @ [PxSend (px_wire p) (group_block z (po_compression_level (px_options p)) waiting) True]"
        "px_out p1 = sv_resize 0 (px_out p)" "px_wire p1 = px_wire p" "px_options p1 = px_options p"
        using False Cons.prems(2)
        by (auto simp: p1_def tick_out_def px_emit_def group_block_def split: if_splits option.splits)
      then have "sv_inv (px_out p1)" "sv_contents (px_out p1) = concat (map packet_bytes [])"
        using Cons.prems(1) by (simp_all add: sv_resize_contents)
      from Cons.IH [OF this] obtain groups rest where
        "px_effects q = px_effects p1 @ map (\<lambda>g. PxSend (px_wire p) (group_block z (po_compression_level (px_options p)) g) True) groups"
        "concat groups @ rest = tx_packets ops" "sv_contents (px_out q) = concat (map packet_bytes rest)"
        using Cons.prems(3) Tick p1 by (auto simp: p1_def)
      then show ?thesis using p1(1) Tick by (intro exI [of _ "waiting # groups"] exI [of _ rest]) simp
    qed
  qed
qed (auto intro!: exI [of _ "[]"])

section \<open>A block on the receiving side\<close>

lemma sint_small: "n < 2 ^ 31 \<Longrightarrow> nat (sint (of_nat n :: u32)) = n"
  by (simp add: sint_uint uint_nat unat_of_nat signed_take_bit_int_eq_self)

lemma unat_small: "n < 2 ^ 32 \<Longrightarrow> unat (of_nat n :: u32) = n"
  by (simp add: unat_of_nat)

lemma wire_block_cases:
  assumes "zlib_ok z u" and "length src < 2 ^ 31 - 9"
  obtains (plain) "wire_block z level src = enc_word 4 (of_nat (1 + length src) :: u32) @ [0] @ src"
  | (packed) dest where "wire_block z level src
      = enc_word 4 (of_nat (5 + length dest) :: u32) @ [1] @ enc_word 4 (of_nat (length src) :: u32) @ dest"
      "length dest \<le> length src" "u (length src) dest = src"
proof (cases "level > 0 \<and> z (length src) src (uint level) \<noteq> None")
  case True
  then obtain dest where d: "z (length src) src (uint level) = Some dest" by auto
  then have l: "length dest \<le> length src" "u (length src) dest = src" using assms(1) unfolding zlib_ok_def by blast+
  have "nat (sint (4 + of_nat (1 + 4 + length dest) :: u32)) = 9 + length dest"
    using sint_small [of "9 + length dest"] l(1) assms(2) by simp
  with True d have "wire_block z level src
      = enc_word 4 (of_nat (5 + length dest) :: u32) @ [1] @ enc_word 4 (of_nat (length src) :: u32) @ dest"
    by (simp add: wire_block_def)
  from packed [OF this l] show ?thesis .
next
  case False
  have "nat (sint (4 + of_nat (1 + length src) :: u32)) = 5 + length src"
    using sint_small [of "5 + length src"] assms(2) by simp
  with False have "wire_block z level src = enc_word 4 (of_nat (1 + length src) :: u32) @ [0] @ src"
    by (auto simp: wire_block_def)
  then show ?thesis by (rule plain)
qed

lemma cb_read_data:
  assumes "cb_inv b" and "cb_contents b = x @ y" and "length x = n"
  shows "\<exists>b'. cb_read n b = Some (x, b') \<and> cb_inv b' \<and> cb_contents b' = y \<and> length (cb_buffer b') = length (cb_buffer b)"
proof -
  have n: "n \<le> length (cb_contents b)" using assms(2,3) by simp
  obtain b' where "cb_skip n b = Some b'" "cb_inv b'" "cb_contents b' = y" "length (cb_buffer b') = length (cb_buffer b)"
    using cb.skip_law [OF assms(1) n] assms(2,3) by auto
  moreover have "cb_peek n b = Some x" using cb.peek_law [OF assms(1) n] assms(2,3) by simp
  moreover from calculation have "cb_read n b = Some (x, b')"
    using assms(3) by (cases "n = 0") (simp_all add: cb_read_def cb_skip_def [of 0])
  ultimately show ?thesis by blast
qed

text \<open>The header of a block in front of other bytes.\<close>

lemma block_header:
  assumes "cb_inv b" and "cb_contents b = enc_word 4 (n :: u32) @ rest" and "0 < length rest"
  shows "4 < cb_size b" "cb_size b = 4 + length rest" "cb_peek 4 b = Some (enc_word 4 n)"
    "\<exists>b'. cb_skip 4 b = Some b' \<and> cb_inv b' \<and> cb_contents b' = rest \<and> length (cb_buffer b') = length (cb_buffer b)"
proof -
  show "cb_size b = 4 + length rest" using arg_cong [OF assms(2), of length] by simp
  then show l: "4 < cb_size b" using assms(3) by simp
  show "cb_peek 4 b = Some (enc_word 4 n)" using cb.peek_law [OF assms(1), of 4] l assms(2) by simp
  show "\<exists>b'. cb_skip 4 b = Some b' \<and> cb_inv b' \<and> cb_contents b' = rest \<and> length (cb_buffer b') = length (cb_buffer b)"
    using cb.skip_law [OF assms(1), of 4] l assms(2) by simp
qed

lemma tick_in_block:
  assumes "zlib_ok z u" and "length src < 2 ^ 31 - 9" and "cb_inv (px_in p)" and "cb_contents (px_in p) = wire_block z level src @ rest"
  shows "\<exists>b. tick_in u env p = tick_in u env (snd (on_wire_packet env src (p\<lparr>px_in := b\<rparr>)))
    \<and> cb_inv b \<and> cb_contents b = rest \<and> length (cb_buffer b) = length (cb_buffer (px_in p))"
  using assms(1,2)
proof (cases rule: wire_block_cases [where level = level])
  case plain
  note h = block_header [OF assms(3), of "of_nat (1 + length src)" "[0] @ src @ rest"]
  obtain b1 where b1: "cb_skip 4 (px_in p) = Some b1" "cb_inv b1" "cb_contents b1 = [0] @ src @ rest" "length (cb_buffer b1) = length (cb_buffer (px_in p))"
    using h(4) assms(4) plain by auto
  obtain b2 where b2: "cb_read 1 b1 = Some ([0], b2)" "cb_inv b2" "cb_contents b2 = src @ rest" "length (cb_buffer b2) = length (cb_buffer b1)"
    using cb_read_data [OF b1(2,3)] by auto
  obtain b3 where b3: "cb_read (length src) b2 = Some (src, b3)" "cb_inv b3" "cb_contents b3 = rest" "length (cb_buffer b3) = length (cb_buffer b2)"
    using cb_read_data [OF b2(2,3)] by auto
  have n: "unat (of_nat (1 + length src) :: u32) = 1 + length src" "unat (of_nat (1 + length src) - 1 :: u32) = length src"
    using assms(2) unat_small [of "1 + length src"] unat_small [of "length src"] by simp_all
  have "tick_in u env p = tick_in u env (snd (on_wire_packet env src (p\<lparr>px_in := b3\<rparr>)))"
    using h(1-3) assms(4) plain b1(1) b2(1) b3(1) n by (subst tick_in.simps) (simp add: Let_def)
  with b1(4) b2(4) b3 show ?thesis by auto
next
  case (packed dest)
  note h = block_header [OF assms(3), of "of_nat (5 + length dest)" "[1] @ enc_word 4 (of_nat (length src) :: u32) @ dest @ rest"]
  obtain b1 where b1: "cb_skip 4 (px_in p) = Some b1" "cb_inv b1" "cb_contents b1 = [1] @ enc_word 4 (of_nat (length src) :: u32) @ dest @ rest"
    "length (cb_buffer b1) = length (cb_buffer (px_in p))"
    using h(4) assms(4) packed(1) by auto
  obtain b2 where b2: "cb_read 1 b1 = Some ([1], b2)" "cb_inv b2" "cb_contents b2 = enc_word 4 (of_nat (length src) :: u32) @ dest @ rest"
    "length (cb_buffer b2) = length (cb_buffer b1)"
    using cb_read_data [OF b1(2,3)] by auto
  obtain b3 where b3: "cb_read 4 b2 = Some (enc_word 4 (of_nat (length src) :: u32), b3)" "cb_inv b3" "cb_contents b3 = dest @ rest"
    "length (cb_buffer b3) = length (cb_buffer b2)"
    using cb_read_data [OF b2(2,3)] by auto
  obtain b4 where b4: "cb_read (length dest) b3 = Some (dest, b4)" "cb_inv b4" "cb_contents b4 = rest" "length (cb_buffer b4) = length (cb_buffer b3)"
    using cb_read_data [OF b3(2,3)] by auto
  have n: "unat (of_nat (5 + length dest) :: u32) = 5 + length dest" "unat (of_nat (5 + length dest) - 1 - 4 :: u32) = length dest"
    "unat (of_nat (length src) :: u32) = length src"
    using assms(2) packed(2) unat_small [of "5 + length dest"] unat_small [of "length dest"] unat_small [of "length src"] by simp_all
  have "tick_in u env p = tick_in u env (snd (on_wire_packet env src (p\<lparr>px_in := b4\<rparr>)))"
    using h(1-3) assms(4) packed b1(1) b2(1) b3(1) b4(1) n by (subst tick_in.simps) (simp add: Let_def)
  with b1(4) b2(4) b3(4) b4 show ?thesis by auto
qed

section \<open>A stream of blocks on the receiving side\<close>

definition group_ok :: "proxy_packet list \<Rightarrow> bool" where
  "group_ok g \<longleftrightarrow> list_all packet_ok g \<and> length (concat (map packet_bytes g)) < 2 ^ 31 - 9"

lemma block_shape:
  assumes "zlib_ok z u" and "group_ok g"
  obtains n body where "group_block z level g = enc_word 4 (n :: u32) @ body" "unat n = length body" "0 < length body"
proof -
  let ?src = "concat (map packet_bytes g)"
  have len: "length ?src < 2 ^ 31 - 9" using assms(2) by (simp add: group_ok_def)
  show ?thesis using assms(1) len
  proof (cases rule: wire_block_cases [where level = level])
    case plain
    then show ?thesis using len unat_small [of "1 + length ?src"]
      by (intro that [of "of_nat (1 + length ?src)" "[0] @ ?src"]) (simp_all add: group_block_def)
  next
    case (packed dest)
    then show ?thesis using len unat_small [of "5 + length dest"]
      by (intro that [of "of_nat (5 + length dest)" "[1] @ enc_word 4 (of_nat (length ?src) :: u32) @ dest"]) (simp_all add: group_block_def)
  qed
qed

lemma group_block_nonempty: "zlib_ok z u \<Longrightarrow> group_ok g \<Longrightarrow> group_block z level g \<noteq> []"
  by (metis append_is_Nil_conv block_shape length_0_conv less_numeral_extra(3))

text \<open>The beginning of the next block, if there is one.\<close>

fun pending :: "compressor \<Rightarrow> u8 \<Rightarrow> bytes \<Rightarrow> proxy_packet list list \<Rightarrow> bool" where
  "pending z level r [] = (r = [])"
| "pending z level r (g # gs) = (\<exists>r'. r' \<noteq> [] \<and> r @ r' = group_block z level g)"

lemma tick_in_pending:
  assumes "zlib_ok z u" and "list_all group_ok gs" and "cb_inv (px_in p)" and "pending z level (cb_contents (px_in p)) gs"
  shows "tick_in u env p = Some p"
proof (cases "cb_size (px_in p) > 4")
  case True
  then have "cb_contents (px_in p) \<noteq> []" by (metis cb_contents_length less_nat_zero_code list.size(3))
  with assms(4) obtain g gs' r' where g: "gs = g # gs'" "r' \<noteq> []" "cb_contents (px_in p) @ r' = group_block z level g" by (cases gs) auto
  have "group_ok g" using assms(2) g(1) by simp
  then obtain n body where b: "group_block z level g = enc_word 4 (n :: u32) @ body" "unat n = length body"
    by (rule block_shape [OF assms(1)])
  have "take 4 (cb_contents (px_in p)) = enc_word 4 n"
    using True arg_cong [OF g(3), of "take 4"] b(1) by simp
  then have "cb_peek 4 (px_in p) = Some (enc_word 4 n)" using cb.peek_law [OF assms(3), of 4] True by simp
  moreover have "cb_size (px_in p) < unat n + 4"
    using arg_cong [OF g(3), of length] b g(2) by (simp add: length_greater_0_conv [symmetric] del: length_greater_0_conv)
  ultimately show ?thesis using True by (subst tick_in.simps) (simp add: Let_def)
qed (subst tick_in.simps, simp)

lemma apply_packet_in [simp]: "apply_packet env pk (p\<lparr>px_in := b\<rparr>) = (apply_packet env pk p)\<lparr>px_in := b\<rparr>"
  by (cases pk) (simp_all add: on_connection_open_def initiate_connection_close_def proxy_connection_def set_connection_of_def px_emit_def
    Let_def split: option.split)

lemma fold_apply_in: "fold (apply_packet env) pks (p\<lparr>px_in := b\<rparr>) = (fold (apply_packet env) pks p)\<lparr>px_in := b\<rparr>"
  by (induction pks arbitrary: p) simp_all

lemma tick_in_groups:
  assumes "zlib_ok z u" and "list_all group_ok gs" and "list_all group_ok later" and "cb_inv (px_in p)"
    and "cb_contents (px_in p) = concat (map (group_block z level) gs) @ r" and "pending z level r later"
  shows "\<exists>b. tick_in u env p = Some ((fold (apply_packet env) (concat gs) p)\<lparr>px_in := b\<rparr>) \<and> cb_inv b \<and> cb_contents b = r
    \<and> length (cb_buffer b) = length (cb_buffer (px_in p))"
  using assms(2,4,5)
proof (induction gs arbitrary: p)
  case Nil
  then have "tick_in u env p = Some p" using tick_in_pending [OF assms(1,3)] assms(6) by simp
  with Nil show ?case by (intro exI [of _ "px_in p"]) simp
next
  case (Cons g gs)
  let ?src = "concat (map packet_bytes g)"
  have "group_ok g" and g3: "list_all group_ok gs" using Cons.prems(1) by simp_all
  then have g: "list_all packet_ok g" "length ?src < 2 ^ 31 - 9" by (simp_all add: group_ok_def)
  have c: "cb_contents (px_in p) = wire_block z level ?src @ concat (map (group_block z level) gs) @ r"
    using Cons.prems(3) by (simp add: group_block_def [of z level g])
  obtain b where b: "tick_in u env p = tick_in u env (snd (on_wire_packet env ?src (p\<lparr>px_in := b\<rparr>)))" "cb_inv b"
    "cb_contents b = concat (map (group_block z level) gs) @ r" "length (cb_buffer b) = length (cb_buffer (px_in p))"
    using tick_in_block [OF assms(1) g(2) Cons.prems(2) c, of env] by auto
  define p1 where "p1 = (fold (apply_packet env) g p)\<lparr>px_in := b\<rparr>"
  have "snd (on_wire_packet env ?src (p\<lparr>px_in := b\<rparr>)) = p1"
    using g(2) by (simp add: on_wire_packet_def loop_packets [OF g(1)] p1_def fold_apply_in)
  with b(1) have t: "tick_in u env p = tick_in u env p1" by simp
  obtain b1 where "tick_in u env p1 = Some ((fold (apply_packet env) (concat gs) p1)\<lparr>px_in := b1\<rparr>)" "cb_inv b1" "cb_contents b1 = r"
    "length (cb_buffer b1) = length (cb_buffer (px_in p1))"
    using Cons.IH [OF g3, of p1] b(2,3) by (auto simp: p1_def)
  with t b(4) show ?case by (intro exI [of _ b1]) (simp add: p1_def fold_apply_in)
qed

lemma split_stream:
  assumes "zlib_ok z u" and "list_all group_ok gs" and "x @ y = concat (map (group_block z level) gs)"
  shows "\<exists>done later r. gs = done @ later \<and> x = concat (map (group_block z level) done) @ r
    \<and> r @ y = concat (map (group_block z level) later) \<and> pending z level r later"
  using assms(2,3)
proof (induction gs arbitrary: x)
  case Nil
  then show ?case by simp
next
  case (Cons g gs)
  show ?case
  proof (cases "length x < length (group_block z level g)")
    case True
    then have "x = take (length x) (group_block z level g)"
      using Cons.prems(2) by (simp add: append_eq_append_conv_if split: if_splits)
    then have "x @ drop (length x) (group_block z level g) = group_block z level g" by (metis append_take_drop_id)
    with True have "pending z level x (g # gs)" by (auto intro!: exI [of _ "drop (length x) (group_block z level g)"])
    with Cons.prems(2) show ?thesis by (intro exI [of _ "[]"] exI [of _ "g # gs"] exI [of _ x]) simp
  next
    case False
    define x' where "x' = drop (length (group_block z level g)) x"
    have "take (length (group_block z level g)) x = group_block z level g" and x2: "x' @ y = concat (map (group_block z level) gs)"
      using False Cons.prems(2) by (auto simp: x'_def append_eq_append_conv_if split: if_splits)
    then have x: "x = group_block z level g @ x'" unfolding x'_def by (metis append_take_drop_id)
    obtain dn later r where "gs = dn @ later" "x' = concat (map (group_block z level) dn) @ r"
      "r @ y = concat (map (group_block z level) later)" "pending z level r later"
      using Cons.IH [OF _ x2] Cons.prems(1) by auto
    then show ?thesis using x by (intro exI [of _ "g # dn"] exI [of _ later] exI [of _ r]) simp
  qed
qed

section \<open>The wire\<close>

text \<open>The wire delivers a piece to the connection with identifier \<open>w\<close>, and the proxy ticks.\<close>

fun rx_run :: "compressor \<Rightarrow> decompressor \<Rightarrow> ProxyEnv \<Rightarrow> ProxyID \<Rightarrow> bytes list \<Rightarrow> Proxy \<Rightarrow> Proxy option" where
  "rx_run z u env w [] p = Some p"
| "rx_run z u env w (c # cs) p =
     do { (r, p1) \<leftarrow> on_connection_packet env w c True p; p2 \<leftarrow> proxy_tick z u env p1; rx_run z u env w cs p2 }"

text \<open>The connection \<open>w\<close> is the wire, and the proxy has nothing to send itself.\<close>

definition rx_ok :: "ProxyID \<Rightarrow> Proxy \<Rightarrow> bool" where
  "rx_ok w p \<longleftrightarrow> om_inv (px_connections p) \<and> (\<exists>c. om_find (px_connections p) w = Some c \<and> pc_mode c = Mode_WIRE)
     \<and> px_wire p \<noteq> None \<and> sv_empty (px_out p)"

lemma rx_ok_apply: "rx_ok w p \<Longrightarrow> packet_id pk \<noteq> w \<Longrightarrow> rx_ok w (apply_packet env pk p)"
  by (cases pk) (auto simp: rx_ok_def on_connection_open_def initiate_connection_close_def set_connection_of_def px_emit_def Let_def
    om.invar_assign om.find_assign split: option.split)

lemma rx_ok_fold: "rx_ok w p \<Longrightarrow> w \<notin> packet_id ` set pks \<Longrightarrow> rx_ok w (fold (apply_packet env) pks p)"
  by (induction pks arbitrary: p) (auto simp: rx_ok_apply)

lemma rx_ok_in [simp]: "rx_ok w (p\<lparr>px_in := b\<rparr>) = rx_ok w p"
  by (simp add: rx_ok_def)

lemma wire_receives:
  assumes "rx_ok w p" and "cb_inv (px_in p)" and "length (cb_buffer (px_in p)) + length c < 2 ^ 31"
  shows "\<exists>r b. on_connection_packet env w c True p = Some (r, p\<lparr>px_in := b\<rparr>) \<and> cb_inv b \<and> cb_contents b = cb_contents (px_in p) @ c
    \<and> length (cb_buffer b) \<le> length (cb_buffer (px_in p)) + length c"
proof (cases "c = []")
  case True
  with assms(2) show ?thesis by (intro exI [of _ 0] exI [of _ "px_in p"]) (simp add: on_connection_packet.simps)
next
  case False
  have "pc_mode (proxy_connection w p) = Mode_WIRE" using assms(1) by (auto simp: rx_ok_def proxy_connection_def)
  with False have "on_connection_packet env w c True p = do { p1 \<leftarrow> proxy_receive_queue c p; Some (MRUDP_OK, p1) }"
    by (simp add: on_connection_packet.simps)
  with cb.write_law [OF assms(2,3)] show ?thesis by (auto simp: proxy_receive_queue_def)
qed

lemma rx_stream:
  assumes "zlib_ok z u" and "list_all group_ok groups" and "rx_ok w p" and "cb_inv (px_in p)" and "w \<notin> packet_id ` set (concat groups)"
    and "length (cb_buffer (px_in p)) + length (concat chunks) < 2 ^ 31"
    and "cb_contents (px_in p) @ concat chunks = concat (map (group_block z level) groups)" and "pending z level (cb_contents (px_in p)) groups"
  shows "\<exists>b. rx_run z u env w chunks p = Some ((fold (apply_packet env) (concat groups) p)\<lparr>px_in := b\<rparr>) \<and> cb_contents b = []"
  using assms(2-)
proof (induction chunks arbitrary: p groups)
  case Nil
  then have "groups = []" using arg_cong [OF Nil.prems(6), of length] by (cases groups) (auto dest: arg_cong [of _ _ length])
  with Nil show ?case by (intro exI [of _ "px_in p"]) simp
next
  case (Cons c cs)
  obtain r b where b: "on_connection_packet env w c True p = Some (r, p\<lparr>px_in := b\<rparr>)" "cb_inv b" "cb_contents b = cb_contents (px_in p) @ c"
    "length (cb_buffer b) \<le> length (cb_buffer (px_in p)) + length c"
    using wire_receives [OF Cons.prems(2,3), of c env] Cons.prems(5) by auto
  obtain dn later r' where s: "groups = dn @ later" "cb_contents b = concat (map (group_block z level) dn) @ r'"
    "r' @ concat cs = concat (map (group_block z level) later)" "pending z level r' later"
    using split_stream [OF assms(1) Cons.prems(1), of "cb_contents b" "concat cs" level] b(3) Cons.prems(6) by auto
  have ok: "list_all group_ok dn" "list_all group_ok later" using Cons.prems(1) s(1) by simp_all
  define p1 where "p1 = fold (apply_packet env) (concat dn) p"
  obtain b1 where b1: "tick_in u env (p\<lparr>px_in := b\<rparr>) = Some (p1\<lparr>px_in := b1\<rparr>)" "cb_inv b1" "cb_contents b1 = r'"
    "length (cb_buffer b1) = length (cb_buffer b)"
    using tick_in_groups [OF assms(1) ok, of "p\<lparr>px_in := b\<rparr>" level r' env] b(2) s(2,4) by (auto simp: p1_def fold_apply_in)
  have t: "proxy_tick z u env (p\<lparr>px_in := b\<rparr>) = Some (p1\<lparr>px_in := b1\<rparr>)"
    using b1(1) Cons.prems(2) by (auto simp: proxy_tick_def tick_out_def rx_ok_def)
  have "rx_ok w (p1\<lparr>px_in := b1\<rparr>)" using rx_ok_fold [OF Cons.prems(2), of "concat dn" env] Cons.prems(4) s(1) by (auto simp: p1_def)
  then obtain b2 where "rx_run z u env w cs (p1\<lparr>px_in := b1\<rparr>) = Some ((fold (apply_packet env) (concat later) (p1\<lparr>px_in := b1\<rparr>))\<lparr>px_in := b2\<rparr>)"
    "cb_contents b2 = []"
    using Cons.IH [OF ok(2), of "p1\<lparr>px_in := b1\<rparr>"] Cons.prems(4,5) b(4) b1 s by auto
  then show ?case using b(1) t s(1) by (intro exI [of _ b2]) (simp add: p1_def fold_apply_in)
qed

section \<open>From one proxy to the other\<close>

fun sent_bytes :: "proxy_effect \<Rightarrow> bytes" where
  "sent_bytes (PxSend h d r) = d"
| "sent_bytes _ = []"

lemma packet_bytes_nonempty [simp]: "packet_bytes pk \<noteq> []"
  by (cases pk) (simp_all add: enc_proxy_packet_def)


text \<open>A proxy that listens, and has accepted the wire as its first connection.\<close>

definition example_penv :: ProxyEnv where
  "example_penv = \<lparr>pe_connect = (\<lambda>_. Some 7), pe_options = (\<lambda>_. mrudp_default_connection_options), pe_awaiting = (\<lambda>_. Some 0),
     pe_accept = (\<lambda>_. 0), pe_address = empty_address\<rparr>"

definition example_sender :: Proxy where
  "example_sender = proxy_open example_penv 1 2 empty_address (Some empty_address) (Some empty_address) proxy_options_default"

definition example_receiver :: Proxy where
  "example_receiver = (let p = proxy_open example_penv 1 2 empty_address (Some empty_address) None proxy_options_default
     in set_connection_of ProxyID_SERVER \<lparr>pc_id = ProxyID_SERVER, pc_mode = Mode_WIRE, pc_connection = Some 3\<rparr> (p\<lparr>px_wire := Some 3\<rparr>))"

definition example_tx :: "tx_op list" where
  "example_tx = [Queue (OpenTo 1 (replicate 28 9)), Tick, Queue (DataOf 1 True [1, 2, 3]), Queue (CloseOf 1), Tick]"

lemmas example_proxies = example_sender_def example_receiver_def example_tx_def example_penv_def proxy_open_def px_emit_def set_connection_of_def
  new_SizedVector_def new_CircularBuffer_inv Let_def

lemma wire_block_length:
  assumes "zlib_ok z u" and "length src < 2 ^ 31 - 9"
  shows "length (wire_block z level src) \<le> 9 + length src"
  using assms by (cases rule: wire_block_cases [where level = level]) simp_all

lemma example_tick:
  assumes "sv_inv (px_out p)" and "sv_contents (px_out p) = x" and "x \<noteq> []"
  shows "px_effects (tick_out z example_penv p) = px_effects p @ [PxSend (px_wire p) (wire_block z (po_compression_level (px_options p)) x) True]"
    "sv_inv (px_out (tick_out z example_penv p))" "sv_contents (px_out (tick_out z example_penv p)) = []"
  using assms by (auto simp: tick_out_def example_penv_def px_emit_def sv_empty_def sv_resize_contents) (simp_all add: sv_contents_def)

lemma example_sent:
  "\<exists>sent. px_effects (fold (tx_step example_z example_penv) example_tx example_sender) = px_effects example_sender @ sent \<and> length sent = 2
     \<and> sv_contents (px_out (fold (tx_step example_z example_penv) example_tx example_sender)) = []
     \<and> length (concat (map sent_bytes sent)) < 2 ^ 31"
proof -
  have z: "zlib_ok example_z example_u" by (auto simp: zlib_ok_def example_z_def example_u_def split: if_splits)
  define p1 where "p1 = enqueue_packet (OpenTo 1 (replicate 28 9)) example_sender"
  define p2 where "p2 = tick_out example_z example_penv p1"
  define p3 where "p3 = enqueue_packet (CloseOf 1) (enqueue_packet (DataOf 1 True [1, 2, 3]) p2)"
  define x where "x = packet_bytes (OpenTo 1 (replicate 28 9))"
  define y where "y = packet_bytes (DataOf 1 True [1, 2, 3]) @ packet_bytes (CloseOf 1)"
  have s0: "sv_inv (px_out example_sender)" "sv_contents (px_out example_sender) = []"
    by (simp_all add: example_proxies sv_inv_def sv_contents_def)
  have p1: "sv_inv (px_out p1)" "sv_contents (px_out p1) = x" "px_effects p1 = px_effects example_sender" "x \<noteq> []"
    using enqueue_packet_out [OF s0(1)] s0(2) unfolding p1_def x_def by (simp_all del: enqueue_packet.simps packet_bytes.simps)
  note p2 = example_tick [OF p1(1,2,4), of example_z, folded p2_def]
  have p3: "sv_inv (px_out p3)" "sv_contents (px_out p3) = y" "px_effects p3 = px_effects p2" "y \<noteq> []"
    using enqueue_packet_out [OF p2(2)] enqueue_packet_out [OF enqueue_packet_out(1) [OF p2(2)]] p2(3) unfolding p3_def y_def
    by (simp_all del: enqueue_packet.simps packet_bytes.simps)
  note p4 = example_tick [OF p3(1,2,4), of example_z]
  have q: "fold (tx_step example_z example_penv) example_tx example_sender = tick_out example_z example_penv p3"
    by (simp add: example_tx_def p1_def p2_def p3_def)
  have "length x < 100" "length y < 100" by (simp_all add: x_def y_def enc_proxy_packet_def write_addr_def)
  then have l: "length (wire_block example_z a x) < 200" "length (wire_block example_z a y) < 200" for a
    using wire_block_length [OF z, of x a] wire_block_length [OF z, of y a] by simp_all
  define sent where "sent = [PxSend (px_wire p1) (wire_block example_z (po_compression_level (px_options p1)) x) True,
    PxSend (px_wire p3) (wire_block example_z (po_compression_level (px_options p3)) y) True]"
  have "length (concat (map sent_bytes sent)) < 2 ^ 31"
    using l(1) [of "po_compression_level (px_options p1)"] l(2) [of "po_compression_level (px_options p3)"] by (simp add: sent_def)
  moreover have "px_effects (tick_out example_z example_penv p3) = px_effects example_sender @ sent"
    by (simp add: p4(1) p3(3) p2(1) p1(3) sent_def)
  ultimately show ?thesis unfolding q using p4(3) by (intro exI [of _ sent]) (simp add: sent_def)
qed


section \<open>Losing the wire\<close>

lemma fold_emit_effects:
  "px_effects (fold (\<lambda>(i, c). px_emit (PxClose (pc_connection c))) cs p) = px_effects p @ map (\<lambda>(i, c). PxClose (pc_connection c)) cs"
  by (induction cs arbitrary: p) (auto simp: px_emit_def)

text \<open>
  C16: When an accepted wire is closed, the proxy closes its handle but keeps it as the wire: every later tick asks the library about a
  handle that has been deleted, and closing the proxy closes it a second time.
\<close>

theorem wire_closed_twice:
  assumes "om_find (px_connections p) w = Some c" and "pc_mode c = Mode_WIRE" and "px_wire p = pc_connection c"
    and "p' = snd (on_connection_close w p)"
  shows "PxClose (pc_connection c) \<in> set (px_effects p') \<and> px_wire p' = pc_connection c
    \<and> count_list (px_effects (proxy_close p')) (PxClose (pc_connection c)) \<ge> 2"
proof -
  have p': "px_effects p' = px_effects p @ [PxClose (pc_connection c)]" "px_wire p' = pc_connection c"
    using assms by (simp_all add: on_connection_close_def proxy_connection_def on_wire_close_def erase_connection_def set_connection_of_def px_emit_def Let_def)
  have "\<exists>xs. px_effects (proxy_close p') = px_effects p' @ [PxClose (px_wire p')] @ xs"
    by (simp add: proxy_close_def Let_def fold_emit_effects px_emit_def)
  with p' show ?thesis by auto
qed

theorem wire_closed_twice_witness:
  "count_list (px_effects (proxy_close (snd (on_connection_close ProxyID_SERVER example_receiver)))) (PxClose (Some 3)) \<ge> 2"
proof -
  let ?c = "\<lparr>pc_id = ProxyID_SERVER, pc_mode = Mode_WIRE, pc_connection = Some 3\<rparr>"
  have "om_find (px_connections example_receiver) ProxyID_SERVER = Some ?c" "px_wire example_receiver = Some 3"
    by (simp_all add: example_proxies om_find_def)
  then show ?thesis using wire_closed_twice [of example_receiver ProxyID_SERVER ?c, OF _ _ _ refl] by simp
qed

end
