(* ===== verification/Crypto.thy ===== *)
theory Crypto
  imports Containers Packet
begin

text \<open>
  Encryption of packets: \<^verbatim>\<open>mrudp/Crypto.cpp\<close> and \<^verbatim>\<open>mrudp/imp/CryptoOpenSSL.cpp\<close>, which the code uses when \<^verbatim>\<open>MRUDP_ENABLE_CRYPTO\<close> is defined.
  OpenSSL's ciphers and digest are parameters (\<open>OpenSSL\<close>); what the random generator draws is an argument of the operation that
  draws it, \<open>None\<close> when it fails. \<open>None\<close> as a result is a \<^verbatim>\<open>false\<close> or a division by zero; the packet is then discarded.
\<close>

section \<open>The library\<close>

record OpenSSL =
  ssl_aes_encrypt :: "bytes \<Rightarrow> bytes \<Rightarrow> bytes \<Rightarrow> bytes option"
  ssl_aes_decrypt :: "bytes \<Rightarrow> bytes \<Rightarrow> bytes \<Rightarrow> bytes option"
  ssl_rsa_encrypt :: "bytes \<Rightarrow> bytes \<Rightarrow> bytes \<Rightarrow> bytes option"
  ssl_rsa_decrypt :: "bytes \<Rightarrow> bytes \<Rightarrow> bytes option"
  ssl_public_key :: "bytes \<Rightarrow> bool"
  ssl_sha256 :: "bytes \<Rightarrow> bytes"

text \<open>
  What is drawn while one packet is encrypted: a key for this packet, an initialisation vector, a padding, and the seed of the
  randomised RSA padding.
\<close>

record Drawn =
  dr_key :: "bytes option"
  dr_iv :: "bytes option"
  dr_padding :: u16
  dr_seed :: bytes

definition AESKey_size :: nat where [simp]: "AESKey_size = 32"
definition AESIV_size :: nat where [simp]: "AESIV_size = 32"

section \<open>AES\<close>

text \<open>The padding that is drawn and not used: \<^verbatim>\<open>pushPadding\<close> and \<^verbatim>\<open>popPadding\<close> return at once.\<close>

definition calculatePadding :: "u16 \<Rightarrow> nat \<Rightarrow> Packet \<Rightarrow> u16 option" where
  "calculatePadding drawn limit packet =
     (let maxPadTo = sub64 limit 2; clip = sub64 maxPadTo (dataSize packet)
      in if clip = 0 then None else Some (of_nat (unat drawn mod clip)))"

definition pushPadding :: "Packet \<Rightarrow> u16 \<Rightarrow> Packet" where
  "pushPadding packet padding = packet"

definition popPadding :: "Packet \<Rightarrow> Packet" where
  "popPadding packet = packet"

definition aes_encrypt :: "OpenSSL \<Rightarrow> bytes \<Rightarrow> Drawn \<Rightarrow> nat \<Rightarrow> Packet \<Rightarrow> Packet option" where
  "aes_encrypt ssl key drawn maxPadTo packet =
     do { iv \<leftarrow> dr_iv drawn;
          let p1 = snd (pushT packet (enc_word 2 (pk_id packet)));
          let p2 = snd (pushT p1 [pk_type packet]);
          let p3 = set_type ENCRYPTED_VIA_AES (set_id 0 p2);
          padding \<leftarrow> calculatePadding (dr_padding drawn) maxPadTo p3;
          let p4 = pushPadding p3 padding;
          d \<leftarrow> ssl_aes_encrypt ssl key iv (pk_data p4);
          Some (snd (pushT (p4\<lparr>pk_data := d\<rparr>) iv)) }"

definition aes_decrypt :: "OpenSSL \<Rightarrow> bytes \<Rightarrow> Packet \<Rightarrow> Packet option" where
  "aes_decrypt ssl key packet =
     do { (iv, p1) \<leftarrow> popData packet AESIV_size;
          d \<leftarrow> ssl_aes_decrypt ssl key iv (pk_data p1);
          let p2 = popPadding (p1\<lparr>pk_data := d\<rparr>);
          (t, p3) \<leftarrow> popData p2 1;
          let p4 = set_type (t ! 0) p3;
          (i, p5) \<leftarrow> popData p4 2;
          Some (set_id (dec_word i) p5) }"

section \<open>RSA\<close>

definition rsa_encrypt_key :: "OpenSSL \<Rightarrow> Drawn \<Rightarrow> bytes \<Rightarrow> bytes \<Rightarrow> bytes option" where
  "rsa_encrypt_key ssl drawn public key = ssl_rsa_encrypt ssl (dr_seed drawn) public key"

definition rsa_decrypt_key :: "OpenSSL \<Rightarrow> bytes \<Rightarrow> bytes \<Rightarrow> bytes option" where
  "rsa_decrypt_key ssl private data =
     do { key \<leftarrow> ssl_rsa_decrypt ssl private data; if length key \<noteq> AESKey_size then None else Some key }"

definition rsa_encrypt :: "OpenSSL \<Rightarrow> bytes \<Rightarrow> Drawn \<Rightarrow> nat \<Rightarrow> Packet \<Rightarrow> Packet option" where
  "rsa_encrypt ssl public drawn maxPadTo packet =
     do { aesKey \<leftarrow> dr_key drawn;
          encryptedAESKey \<leftarrow> rsa_encrypt_key ssl drawn public aesKey;
          p1 \<leftarrow> aes_encrypt ssl aesKey drawn (sub64 maxPadTo (pushSizeVector encryptedAESKey)) packet;
          case pushSizedData p1 encryptedAESKey of
            (True, p2) \<Rightarrow> Some (set_type ENCRYPTED_VIA_PUBLIC_KEY p2)
          | (False, p2) \<Rightarrow> None }"

definition rsa_decrypt :: "OpenSSL \<Rightarrow> bytes \<Rightarrow> Packet \<Rightarrow> Packet option" where
  "rsa_decrypt ssl private packet =
     (case popVector packet of
        (None, p1) \<Rightarrow> None
      | (Some encryptedAESKey, p1) \<Rightarrow>
          do { aesKey \<leftarrow> rsa_decrypt_key ssl private encryptedAESKey;
               aes_decrypt ssl aesKey (set_type ENCRYPTED_VIA_AES p1) })"

section \<open>Signatures\<close>

definition sign :: "OpenSSL \<Rightarrow> bytes \<Rightarrow> bytes \<Rightarrow> nat \<Rightarrow> bytes option" where
  "sign ssl key data signatureSize =
     (let signature = ssl_sha256 ssl data in if length signature \<noteq> signatureSize then None else Some signature)"

definition verify :: "OpenSSL \<Rightarrow> bytes \<Rightarrow> bytes \<Rightarrow> bytes \<Rightarrow> bool" where
  "verify ssl key data compare =
     (let signature = ssl_sha256 ssl data in length signature = length compare \<and> signature = compare)"

section \<open>A connection\<close>

record ConnectionCrypto =
  cc_privateKey :: bytes
  cc_publicKey :: bytes
  cc_remotePublicKey :: "bytes option"
  cc_localSessionKey :: bytes
  cc_remoteSessionKey :: "bytes option"

definition new_ConnectionCrypto :: "bytes \<Rightarrow> bytes \<Rightarrow> bytes \<Rightarrow> ConnectionCrypto" where
  "new_ConnectionCrypto private public session =
     \<lparr>cc_privateKey = private, cc_publicKey = public, cc_remotePublicKey = None, cc_localSessionKey = session, cc_remoteSessionKey = None\<rparr>"

definition crypto_canSend :: "ConnectionCrypto \<Rightarrow> bool" where
  "crypto_canSend c \<longleftrightarrow> cc_remoteSessionKey c \<noteq> None"

definition crypto_decrypt :: "OpenSSL \<Rightarrow> ConnectionCrypto \<Rightarrow> Packet \<Rightarrow> Packet option" where
  "crypto_decrypt ssl c packet =
     (if pk_type packet = ENCRYPTED_VIA_PUBLIC_KEY then rsa_decrypt ssl (cc_privateKey c) packet
      else if pk_type packet = ENCRYPTED_VIA_AES then aes_decrypt ssl (cc_localSessionKey c) packet
      else Some packet)"

definition crypto_onReceive :: "OpenSSL \<Rightarrow> Packet \<Rightarrow> ConnectionCrypto \<Rightarrow> (Packet \<times> ConnectionCrypto) option" where
  "crypto_onReceive ssl packet c =
     do { p1 \<leftarrow> crypto_decrypt ssl c packet;
          if pk_type p1 = H0 \<or> pk_type p1 = H1
          then case popVector p1 of
                 (None, p2) \<Rightarrow> None
               | (Some key, p2) \<Rightarrow>
                   if \<not> ssl_public_key ssl key then None
                   else Some (p2, if cc_remotePublicKey c = None then c\<lparr>cc_remotePublicKey := Some key\<rparr> else c)
          else if pk_type p1 = H2 \<or> pk_type p1 = H3
          then do { (key, p2) \<leftarrow> popData p1 AESKey_size;
                    Some (p2, if cc_remoteSessionKey c = None then c\<lparr>cc_remoteSessionKey := Some key\<rparr> else c) }
          else Some (p1, c) }"

definition crypto_onSend :: "OpenSSL \<Rightarrow> Drawn \<Rightarrow> Packet \<Rightarrow> ConnectionCrypto \<Rightarrow> Packet option" where
  "crypto_onSend ssl drawn packet c =
     do { p1 \<leftarrow>
            (if pk_type packet = H0 \<or> pk_type packet = H1
             then (case pushSizedData packet (cc_publicKey c) of (True, p1) \<Rightarrow> Some p1 | (False, p1) \<Rightarrow> None)
             else if pk_type packet = H2 \<or> pk_type packet = H3 then Some (snd (pushT packet (cc_localSessionKey c)))
             else Some packet);
          case cc_remoteSessionKey c of
            Some key \<Rightarrow> aes_encrypt ssl key drawn MAX_PACKET_POST_CRYPTO_SIZE p1
          | None \<Rightarrow>
              (case cc_remotePublicKey c of
                 Some key \<Rightarrow> rsa_encrypt ssl key drawn MAX_PACKET_POST_CRYPTO_SIZE p1
               | None \<Rightarrow> Some p1) }"

section \<open>Round trips\<close>

text \<open>
  What the code relies on in OpenSSL: decryption undoes encryption, AES-CBC pads to the next multiple of 16 bytes, a 1024 bit RSA key
  encrypts to 128 bytes, and a public key has a short encoding.
\<close>

definition openssl_ok :: "OpenSSL \<Rightarrow> (bytes \<times> bytes) set \<Rightarrow> bool" where
  "openssl_ok ssl pairs \<longleftrightarrow>
     (\<forall>k iv d. length k = AESKey_size \<and> length iv = AESIV_size \<longrightarrow>
        (\<exists>e. ssl_aes_encrypt ssl k iv d = Some e \<and> length e = 16 * (length d div 16 + 1) \<and> ssl_aes_decrypt ssl k iv e = Some d))
     \<and> (\<forall>(private, public) \<in> pairs. ssl_public_key ssl public \<and> length public \<le> 256 \<and>
        (\<forall>k. length k = AESKey_size \<longrightarrow>
           (\<forall>seed. \<exists>e. ssl_rsa_encrypt ssl seed public k = Some e \<and> length e = 128 \<and> ssl_rsa_decrypt ssl private e = Some k)))"

lemma openssl_aes:
  assumes "openssl_ok ssl pairs" and "length k = AESKey_size" and "length iv = AESIV_size"
  obtains e where "ssl_aes_encrypt ssl k iv d = Some e" and "length e = 16 * (length d div 16 + 1)" and "ssl_aes_decrypt ssl k iv e = Some d"
  using assms unfolding openssl_ok_def by blast

lemma openssl_rsa:
  assumes "openssl_ok ssl pairs" and "(private, public) \<in> pairs" and "length k = AESKey_size"
  obtains e where "ssl_rsa_encrypt ssl seed public k = Some e" and "length e = 128" and "ssl_rsa_decrypt ssl private e = Some k"
  using assms unfolding openssl_ok_def by blast

lemma openssl_public: "openssl_ok ssl pairs \<Longrightarrow> (private, public) \<in> pairs \<Longrightarrow> ssl_public_key ssl public \<and> length public \<le> 256"
  by (auto simp: openssl_ok_def)

definition drawn_ok :: "Drawn \<Rightarrow> bool" where
  "drawn_ok drawn \<longleftrightarrow> (\<exists>k iv. dr_key drawn = Some k \<and> length k = AESKey_size \<and> dr_iv drawn = Some iv \<and> length iv = AESIV_size)"

lemma set_type_data: "set_type t (p\<lparr>pk_data := d\<rparr>) = (set_type t p)\<lparr>pk_data := d\<rparr>"
  by (cases p) (simp add: set_type_def)

text \<open>Encrypting adds at most 51 bytes: three of the header, up to sixteen of the cipher's padding, the initialisation vector.\<close>

lemma padding_total:
  "dataSize p + 2 < limit \<Longrightarrow> limit \<le> MAX_PACKET_SIZE \<Longrightarrow> \<exists>n. calculatePadding drawn limit p = Some n"
  by (simp add: calculatePadding_def small_arith Let_def)

lemma aes_encrypt_ok:
  assumes ok: "openssl_ok ssl pairs" and k: "length key = AESKey_size" and iv: "dr_iv drawn = Some iv" "length iv = AESIV_size"
    and fits: "dataSize p + 51 \<le> limit" "limit \<le> MAX_PACKET_SIZE"
  obtains q where "aes_encrypt ssl key drawn limit p = Some q" and "pk_type q = ENCRYPTED_VIA_AES" and "pk_id q = 0"
    and "dataSize q \<le> dataSize p + 51" and "\<And>t. aes_decrypt ssl key (set_type t q) = Some p"
proof -
  let ?d = "pk_data p @ enc_word 2 (pk_id p) @ [pk_type p]"
  let ?p3 = "set_type ENCRYPTED_VIA_AES (set_id 0 (p\<lparr>pk_data := ?d\<rparr>))"
  obtain e where e: "ssl_aes_encrypt ssl key iv ?d = Some e" "length e = 16 * (length ?d div 16 + 1)" "ssl_aes_decrypt ssl key iv e = Some ?d"
    using openssl_aes [OF ok k iv(2)] .
  have le: "length e \<le> dataSize p + 19" unfolding e(2) by (simp add: dataSize_def)
  obtain n where n: "calculatePadding (dr_padding drawn) limit ?p3 = Some n"
    using padding_total [of ?p3 limit] fits by (auto simp: dataSize_def)
  let ?q = "?p3\<lparr>pk_data := e @ iv\<rparr>"
  show thesis
  proof
    show "aes_encrypt ssl key drawn limit p = Some ?q"
      using fits iv n e le by (simp add: aes_encrypt_def pushPadding_def pushT_fits dataSize_def)
    show "pk_type ?q = ENCRYPTED_VIA_AES" "pk_id ?q = 0" by (simp_all add: pk_sel_defs)
    show "dataSize ?q \<le> dataSize p + 51" using le iv by (simp add: dataSize_def)
    show "aes_decrypt ssl key (set_type t ?q) = Some p" for t
    proof -
      have "popData (set_type t ?q) AESIV_size = Some (iv, (set_type t ?p3)\<lparr>pk_data := e\<rparr>)"
        using popData_append [where bs = iv and n = AESIV_size and p = "set_type t ?p3" and xs = e] iv by (simp add: set_type_data)
      moreover have "popData ((set_type t ?p3)\<lparr>pk_data := ?d\<rparr>) 1 = Some ([pk_type p], (set_type t ?p3)\<lparr>pk_data := pk_data p @ enc_word 2 (pk_id p)\<rparr>)"
        using popData_append [where bs = "[pk_type p]" and n = 1 and p = "set_type t ?p3" and xs = "pk_data p @ enc_word 2 (pk_id p)"] by simp
      moreover have "popData (set_type (pk_type p) ((set_type t ?p3)\<lparr>pk_data := pk_data p @ enc_word 2 (pk_id p)\<rparr>)) 2
          = Some (enc_word 2 (pk_id p), set_type (pk_type p) ((set_type t ?p3)\<lparr>pk_data := pk_data p\<rparr>))"
        using popData_append [where bs = "enc_word 2 (pk_id p)" and n = 2 and p = "set_type (pk_type p) (set_type t ?p3)" and xs = "pk_data p"] by (simp add: set_type_data)
      ultimately show ?thesis using e(3) by (simp add: aes_decrypt_def popPadding_def) (simp add: pk_sel_defs)
    qed
  qed
qed

lemma pushSizedData_fits:
  "dataSize p + length bs + 2 \<le> MAX_PACKET_SIZE \<Longrightarrow>
     pushSizedData p bs = (True, p\<lparr>pk_data := pk_data p @ bs @ enc_word 2 (of_nat (length bs) :: u16)\<rparr>)"
  by (simp add: pushSizedData_def pushData_fits pushT_fits dataSize_def)

lemma rsa_encrypt_ok:
  assumes ok: "openssl_ok ssl pairs" and pair: "(private, public) \<in> pairs" and drawn: "drawn_ok drawn"
    and fits: "dataSize p + 181 \<le> MAX_PACKET_POST_CRYPTO_SIZE"
  obtains q where "rsa_encrypt ssl public drawn MAX_PACKET_POST_CRYPTO_SIZE p = Some q" and "pk_type q = ENCRYPTED_VIA_PUBLIC_KEY"
    and "pk_id q = 0" and "dataSize q \<le> dataSize p + 181" and "rsa_decrypt ssl private q = Some p"
proof -
  obtain k iv where kiv: "dr_key drawn = Some k" "length k = AESKey_size" "dr_iv drawn = Some iv" "length iv = AESIV_size"
    using drawn by (auto simp: drawn_ok_def)
  obtain e where e: "ssl_rsa_encrypt ssl (dr_seed drawn) public k = Some e" "length e = 128" "ssl_rsa_decrypt ssl private e = Some k"
    using openssl_rsa [OF ok pair kiv(2)] .
  have lim: "sub64 MAX_PACKET_POST_CRYPTO_SIZE (pushSizeVector e) = 1370" using e(2) by (simp add: pushSizeVector_def small_arith)
  obtain r where r: "aes_encrypt ssl k drawn 1370 p = Some r" "pk_id r = 0" "dataSize r \<le> dataSize p + 51" "\<And>t. aes_decrypt ssl k (set_type t r) = Some p"
    using aes_encrypt_ok [OF ok kiv(2,3,4), of p 1370] fits by auto
  let ?r = "r\<lparr>pk_data := pk_data r @ e @ enc_word 2 (of_nat (length e) :: u16)\<rparr>"
  have pop: "popVector (set_type ENCRYPTED_VIA_PUBLIC_KEY ?r) = (Some e, set_type ENCRYPTED_VIA_PUBLIC_KEY r)"
    using popVector_append [where bs = e and p = "set_type ENCRYPTED_VIA_PUBLIC_KEY r" and xs = "pk_data r"] e(2) by (simp add: set_type_data)
  show thesis
  proof
    have "pushSizedData r e = (True, ?r)" using r(3) fits e(2) by (intro pushSizedData_fits) simp
    then show "rsa_encrypt ssl public drawn MAX_PACKET_POST_CRYPTO_SIZE p = Some (set_type ENCRYPTED_VIA_PUBLIC_KEY ?r)"
      using kiv(1) e(1) lim r(1) by (simp add: rsa_encrypt_def rsa_encrypt_key_def)
    show "dataSize (set_type ENCRYPTED_VIA_PUBLIC_KEY ?r) \<le> dataSize p + 181" using r(3) e(2) by (simp add: dataSize_def)
    have "set_type t (set_type t' r) = set_type t r" for t t' by (simp add: set_type_def)
    then show "rsa_decrypt ssl private (set_type ENCRYPTED_VIA_PUBLIC_KEY ?r) = Some p"
      using e(3) kiv(2) r(4) pop by (simp add: rsa_decrypt_def rsa_decrypt_key_def)
  qed (use r(2) in \<open>simp_all add: pk_sel_defs\<close>)
qed

section \<open>Two ends of a connection\<close>

text \<open>A packet encrypted by \<open>a\<close> and received by \<open>b\<close>.\<close>

definition crypto_transfer :: "OpenSSL \<Rightarrow> Drawn \<Rightarrow> Packet \<Rightarrow> ConnectionCrypto \<Rightarrow> ConnectionCrypto \<Rightarrow> (Packet \<times> ConnectionCrypto) option" where
  "crypto_transfer ssl drawn p a b = do { q \<leftarrow> crypto_onSend ssl drawn p a; crypto_onReceive ssl q b }"

definition crypto_data :: "ConnectionCrypto \<Rightarrow> Packet \<Rightarrow> bytes" where
  "crypto_data c p =
     (if pk_type p = H0 \<or> pk_type p = H1 then cc_publicKey c @ enc_word 2 (of_nat (length (cc_publicKey c)) :: u16)
      else if pk_type p = H2 \<or> pk_type p = H3 then cc_localSessionKey c else [])"

definition crypto_learn :: "Packet \<Rightarrow> ConnectionCrypto \<Rightarrow> ConnectionCrypto \<Rightarrow> ConnectionCrypto" where
  "crypto_learn p a b =
     (if pk_type p = H0 \<or> pk_type p = H1
      then (if cc_remotePublicKey b = None then b\<lparr>cc_remotePublicKey := Some (cc_publicKey a)\<rparr> else b)
      else if pk_type p = H2 \<or> pk_type p = H3
      then (if cc_remoteSessionKey b = None then b\<lparr>cc_remoteSessionKey := Some (cc_localSessionKey a)\<rparr> else b)
      else b)"

text \<open>\<open>a\<close> holds a proper key pair of its own, and what it knows of \<open>b\<close> is right.\<close>

definition knows :: "(bytes \<times> bytes) set \<Rightarrow> ConnectionCrypto \<Rightarrow> ConnectionCrypto \<Rightarrow> bool" where
  "knows pairs a b \<longleftrightarrow> (cc_privateKey a, cc_publicKey a) \<in> pairs \<and> length (cc_localSessionKey a) = AESKey_size
     \<and> cc_remotePublicKey a \<in> {None, Some (cc_publicKey b)} \<and> cc_remoteSessionKey a \<in> {None, Some (cc_localSessionKey b)}"

lemma crypto_onSend_data:
  assumes "openssl_ok ssl pairs" and "knows pairs a b" and "dataSize p \<le> 1000"
  shows "crypto_onSend ssl drawn p a =
    (let p1 = p\<lparr>pk_data := pk_data p @ crypto_data a p\<rparr> in
     case cc_remoteSessionKey a of
       Some key \<Rightarrow> aes_encrypt ssl key drawn MAX_PACKET_POST_CRYPTO_SIZE p1
     | None \<Rightarrow>
         (case cc_remotePublicKey a of
            Some key \<Rightarrow> rsa_encrypt ssl key drawn MAX_PACKET_POST_CRYPTO_SIZE p1
          | None \<Rightarrow> Some p1))"
  using assms openssl_public [of ssl pairs "cc_privateKey a" "cc_publicKey a"]
  by (auto simp: crypto_onSend_def crypto_data_def knows_def pushSizedData_fits pushT_fits split: option.splits)

lemma crypto_onReceive_data:
  assumes "openssl_ok ssl pairs" and "knows pairs a b" and "crypto_decrypt ssl b q = Some (p\<lparr>pk_data := pk_data p @ crypto_data a p\<rparr>)"
  shows "crypto_onReceive ssl q b = Some (p, crypto_learn p a b)"
proof -
  have ty: "pk_type (p\<lparr>pk_data := d\<rparr>) = pk_type p" for d by (simp add: pk_type_def)
  have pub: "ssl_public_key ssl (cc_publicKey a)" "length (cc_publicKey a) \<le> 256"
    using assms openssl_public [of ssl pairs "cc_privateKey a" "cc_publicKey a"] by (auto simp: knows_def)
  have key: "length (cc_localSessionKey a) = AESKey_size" using assms(2) by (simp add: knows_def)
  show ?thesis
    using assms(3) pub key popVector_append [where bs = "cc_publicKey a" and p = p and xs = "pk_data p"]
      popData_append [where bs = "cc_localSessionKey a" and n = AESKey_size and p = p and xs = "pk_data p"]
    by (auto simp: crypto_onReceive_def crypto_learn_def crypto_data_def ty)
qed

text \<open>Every packet whose keys the receiver can use arrives as it was sent, with the key that it carries learnt by the receiver.\<close>

lemma crypto_transfer_ok:
  assumes ok: "openssl_ok ssl pairs" and a: "knows pairs a b" and b: "knows pairs b a" and drawn: "drawn_ok drawn"
    and fits: "dataSize p \<le> 1000" and ty: "pk_type p \<noteq> ENCRYPTED_VIA_PUBLIC_KEY" "pk_type p \<noteq> ENCRYPTED_VIA_AES"
  shows "crypto_transfer ssl drawn p a b = Some (p, crypto_learn p a b)"
proof -
  let ?p = "p\<lparr>pk_data := pk_data p @ crypto_data a p\<rparr>"
  obtain q where q: "crypto_onSend ssl drawn p a = Some q" "crypto_decrypt ssl b q = Some ?p"
  proof -
    have len: "dataSize ?p \<le> 1258"
      using fits a openssl_public [OF ok, of "cc_privateKey a" "cc_publicKey a"] by (auto simp: dataSize_def crypto_data_def knows_def)
    consider (aes) "cc_remoteSessionKey a = Some (cc_localSessionKey b)"
      | (rsa) "cc_remoteSessionKey a = None" "cc_remotePublicKey a = Some (cc_publicKey b)"
      | (plain) "cc_remoteSessionKey a = None" "cc_remotePublicKey a = None"
      using a by (auto simp: knows_def)
    then show thesis
    proof cases
      case aes
      obtain iv where iv: "dr_iv drawn = Some iv" "length iv = AESIV_size" using drawn by (auto simp: drawn_ok_def)
      have "length (cc_localSessionKey b) = AESKey_size" using b by (simp add: knows_def)
      from aes_encrypt_ok [OF ok this iv, of ?p MAX_PACKET_POST_CRYPTO_SIZE] len
      obtain q where "aes_encrypt ssl (cc_localSessionKey b) drawn MAX_PACKET_POST_CRYPTO_SIZE ?p = Some q"
        "pk_type q = ENCRYPTED_VIA_AES" "aes_decrypt ssl (cc_localSessionKey b) (set_type ENCRYPTED_VIA_AES q) = Some ?p"
        by auto
      moreover from this have "set_type ENCRYPTED_VIA_AES q = q" by (simp add: pk_sel_defs)
      ultimately show thesis using that [of q] aes ok a fits by (simp add: crypto_onSend_data crypto_decrypt_def)
    next
      case rsa
      have pair: "(cc_privateKey b, cc_publicKey b) \<in> pairs" using b by (simp add: knows_def)
      from rsa_encrypt_ok [OF ok pair drawn, of ?p] len
      obtain q where "rsa_encrypt ssl (cc_publicKey b) drawn MAX_PACKET_POST_CRYPTO_SIZE ?p = Some q"
        "pk_type q = ENCRYPTED_VIA_PUBLIC_KEY" "rsa_decrypt ssl (cc_privateKey b) q = Some ?p" by auto
      then show thesis using that [of q] rsa ok a fits by (simp add: crypto_onSend_data crypto_decrypt_def)
    next
      case plain
      then show thesis using that [of ?p] ty ok a fits
        by (simp add: crypto_onSend_data crypto_decrypt_def pk_type_def)
    qed
  qed
  show ?thesis using q crypto_onReceive_data [OF ok a q(2)] by (simp add: crypto_transfer_def)
qed

text \<open>An instance of the library for the examples: it pads as PKCS 7 does, and leaves the bytes as they are.\<close>

definition pkcs7 :: "bytes \<Rightarrow> bytes" where
  "pkcs7 d = (let n = 16 * (length d div 16 + 1) - length d in d @ replicate n (of_nat n))"

definition example_ssl :: OpenSSL where
  "example_ssl =
     \<lparr>ssl_aes_encrypt = (\<lambda>k iv d. Some (pkcs7 d)), ssl_aes_decrypt = (\<lambda>k iv e. Some (take (length e - unat (last e)) e)),
      ssl_rsa_encrypt = (\<lambda>seed public k. Some (k @ replicate 96 0)), ssl_rsa_decrypt = (\<lambda>private e. Some (take 32 e)),
      ssl_public_key = (\<lambda>public. length public \<le> 256), ssl_sha256 = (\<lambda>d. replicate 32 0)\<rparr>"

lemma pkcs7_roundtrip: "length (pkcs7 d) = 16 + 16 * (length d div 16)" "take (16 + 16 * (length d div 16) - unat (last (pkcs7 d))) (pkcs7 d) = d"
proof -
  define n where "n = 16 * (length d div 16 + 1) - length d"
  have n: "0 < n" "n \<le> 16" "length d + n = 16 * (length d div 16 + 1)" unfolding n_def by simp_all
  have p: "pkcs7 d = d @ replicate n (of_nat n)" unfolding pkcs7_def n_def Let_def ..
  moreover have "last (pkcs7 d) = (of_nat n :: u8)" using n(1) by (simp add: p)
  moreover have "unat (of_nat n :: u8) = n" using n by (simp add: unat_of_nat)
  ultimately show "length (pkcs7 d) = 16 + 16 * (length d div 16)" "take (16 + 16 * (length d div 16) - unat (last (pkcs7 d))) (pkcs7 d) = d"
    using n by simp_all
qed

lemma example_ssl_ok: "(\<forall>(private, public) \<in> pairs. length public \<le> 256) \<Longrightarrow> openssl_ok example_ssl pairs"
  by (auto simp: openssl_ok_def example_ssl_def pkcs7_roundtrip simp del: mult_Suc_right add_Suc_right)

lemma session_roundtrip:
  assumes "openssl_ok ssl pairs" and "cc_remoteSessionKey a = Some (cc_localSessionKey b)" and "length (cc_localSessionKey b) = AESKey_size"
    and "drawn_ok drawn" and "dataSize p \<le> MAX_PACKET_POST_FRAME_SIZE"
    and "pk_type p \<notin> {H0, H1, H2, H3}"
  shows "\<exists>q. crypto_onSend ssl drawn p a = Some q \<and> pk_type q = ENCRYPTED_VIA_AES \<and> pk_id q = 0
    \<and> dataSize q \<le> MAX_PACKET_POST_CRYPTO_SIZE \<and> crypto_onReceive ssl q b = Some (p, b)"
proof -
  obtain iv where iv: "dr_iv drawn = Some iv" "length iv = AESIV_size" using assms(4) by (auto simp: drawn_ok_def)
  from aes_encrypt_ok [OF assms(1,3) iv, of p MAX_PACKET_POST_CRYPTO_SIZE] assms(5)
  obtain q where q: "aes_encrypt ssl (cc_localSessionKey b) drawn MAX_PACKET_POST_CRYPTO_SIZE p = Some q" "pk_type q = ENCRYPTED_VIA_AES"
    "pk_id q = 0" "dataSize q \<le> dataSize p + 51" "aes_decrypt ssl (cc_localSessionKey b) (set_type ENCRYPTED_VIA_AES q) = Some p"
    by auto
  then have "set_type ENCRYPTED_VIA_AES q = q" by (simp add: pk_sel_defs)
  with q assms(2,5,6) show ?thesis by (simp add: crypto_onSend_def crypto_onReceive_def crypto_decrypt_def)
qed

text \<open>
  C9: With both session keys exchanged, every packet the connection builds, up to the largest frame payload, is sent as an
  \<^verbatim>\<open>ENCRYPTED_VIA_AES\<close> packet that fits into a datagram and shows neither the type nor the identifier, and the peer's
  \<^verbatim>\<open>onReceive\<close> gives the packet back as it was: \<^verbatim>\<open>MAX_CRYPTO_SIZE\<close> is enough.
\<close>

theorem session_encryption:
  assumes "openssl_ok ssl pairs" and "cc_remoteSessionKey a = Some (cc_localSessionKey b)" and "length (cc_localSessionKey b) = AESKey_size"
    and "drawn_ok drawn" and "dataSize p \<le> MAX_PACKET_POST_FRAME_SIZE"
    and "pk_type p \<notin> {H0, H1, H2, H3}"
  shows "\<exists>q. crypto_onSend ssl drawn p a = Some q \<and> pk_type q = ENCRYPTED_VIA_AES \<and> pk_id q = 0
    \<and> dataSize q \<le> MAX_PACKET_POST_CRYPTO_SIZE \<and> crypto_onReceive ssl q b = Some (p, b)"
  using assms by (rule session_roundtrip)

definition example_drawn :: Drawn where
  "example_drawn = \<lparr>dr_key = Some (replicate 32 3), dr_iv = Some (replicate 32 1), dr_padding = 7, dr_seed = []\<rparr>"

definition example_end :: "u8 \<Rightarrow> ConnectionCrypto" where
  "example_end n = new_ConnectionCrypto [n] [n, n] (replicate 32 n)"

definition example_message :: "TypeID \<Rightarrow> Packet" where
  "example_message t = set_type t (new_packet\<lparr>pk_data := [1, 2, 3]\<rparr>)"

lemma example_crypto:
  "openssl_ok example_ssl {([1], [1, 1]), ([2], [2, 2])}" "drawn_ok example_drawn"
  "pk_type (example_message t) = t" "dataSize (example_message t) = 3"
  by (simp_all add: example_ssl_ok drawn_ok_def example_drawn_def example_message_def) (simp add: pk_sel_defs)

theorem session_encryption_witness:
  "\<exists>q. crypto_onSend example_ssl example_drawn (example_message DATA_RELIABLE) ((example_end 1)\<lparr>cc_remoteSessionKey := Some (replicate 32 2)\<rparr>) = Some q
     \<and> pk_type q = ENCRYPTED_VIA_AES \<and> pk_id q = 0 \<and> dataSize q \<le> MAX_PACKET_POST_CRYPTO_SIZE
     \<and> crypto_onReceive example_ssl q (example_end 2) = Some (example_message DATA_RELIABLE, example_end 2)"
  by (rule session_encryption [OF example_crypto(1)]) (simp_all add: example_crypto, simp_all add: example_end_def new_ConnectionCrypto_def)

text \<open>
  C8: The key exchange of the handshake. The four packets \<^verbatim>\<open>H0\<close> to \<^verbatim>\<open>H3\<close>, sent in turn by the two ends of a fresh
  connection, each pass \<^verbatim>\<open>onSend\<close> and the peer's \<^verbatim>\<open>onReceive\<close> unchanged, and leave each end with the public key and the session
  key of the other, so that both can send.
\<close>

theorem key_exchange:
  assumes "openssl_ok ssl {(private_a, public_a), (private_b, public_b)}"
    and "length session_a = AESKey_size" and "length session_b = AESKey_size"
    and "a = new_ConnectionCrypto private_a public_a session_a" and "b = new_ConnectionCrypto private_b public_b session_b"
    and "drawn_ok d0" and "drawn_ok d1" and "drawn_ok d2" and "drawn_ok d3"
    and "pk_type p0 = H0" and "pk_type p1 = H1" and "pk_type p2 = H2" and "pk_type p3 = H3"
    and "dataSize p0 \<le> 1000" and "dataSize p1 \<le> 1000" and "dataSize p2 \<le> 1000" and "dataSize p3 \<le> 1000"
  shows "do { (q0, b1) \<leftarrow> crypto_transfer ssl d0 p0 a b; (q1, a1) \<leftarrow> crypto_transfer ssl d1 p1 b1 a;
              (q2, b2) \<leftarrow> crypto_transfer ssl d2 p2 a1 b1; (q3, a2) \<leftarrow> crypto_transfer ssl d3 p3 b2 a1;
              Some ([q0, q1, q2, q3], a2, b2) }
    = Some ([p0, p1, p2, p3], a\<lparr>cc_remotePublicKey := Some public_b, cc_remoteSessionKey := Some session_b\<rparr>,
            b\<lparr>cc_remotePublicKey := Some public_a, cc_remoteSessionKey := Some session_a\<rparr>)"
  using assms by (simp add: crypto_transfer_ok [OF assms(1)] knows_def crypto_learn_def new_ConnectionCrypto_def)

theorem key_exchange_witness:
  "do { (q0, b1) \<leftarrow> crypto_transfer example_ssl example_drawn (example_message H0) (example_end 1) (example_end 2);
        (q1, a1) \<leftarrow> crypto_transfer example_ssl example_drawn (example_message H1) b1 (example_end 1);
        (q2, b2) \<leftarrow> crypto_transfer example_ssl example_drawn (example_message H2) a1 b1;
        (q3, a2) \<leftarrow> crypto_transfer example_ssl example_drawn (example_message H3) b2 a1;
        Some ([q0, q1, q2, q3], a2, b2) }
    = Some ([example_message H0, example_message H1, example_message H2, example_message H3],
            (example_end 1)\<lparr>cc_remotePublicKey := Some [2, 2], cc_remoteSessionKey := Some (replicate 32 2)\<rparr>,
            (example_end 2)\<lparr>cc_remotePublicKey := Some [1, 1], cc_remoteSessionKey := Some (replicate 32 1)\<rparr>)"
  by (rule key_exchange [OF example_crypto(1) _ _ example_end_def example_end_def]) (simp_all add: example_crypto)

text \<open>The digest takes no key: a signature made with one key verifies with every other.\<close>

lemma sign_ignores_key: "sign ssl k d n = Some s \<Longrightarrow> verify ssl k' d s"
  by (auto simp: sign_def verify_def Let_def split: if_splits)

end
