(* ===== verification/Asio.thy ===== *)
theory Asio
  imports Socket
begin

text \<open>
  The implementation under the protocol, \<^verbatim>\<open>mrudp/imp/Asio.cpp\<close>: its options, the translation between the two forms of an
  address, datagrams and packets, the queue through which a native socket sends (the default on Linux), and the receive loop up to
  \<^verbatim>\<open>Socket::receive\<close>. What boost does is a step of its own: an asynchronous send hands a datagram to the system and leaves an
  operation pending, whose completion handler runs later, in any order with everything else.
\<close>

section \<open>Options\<close>

record OptionsImp =
  io_connection :: ConnectionOptions
  io_overlapped_io :: int
  io_send_via_queue :: int
  io_thread_quantity :: int

definition getDefaultConnectionOptions :: ConnectionOptions where
  "getDefaultConnectionOptions =
     \<lparr>opt_coalesce_reliable = \<lparr>co_mode = MRUDP_COALESCE_STREAM, co_delay_ms = 5, co_compression_level = 0\<rparr>,
      opt_coalesce_unreliable = \<lparr>co_mode = MRUDP_COALESCE_PACKET, co_delay_ms = 5, co_compression_level = -1\<rparr>,
      opt_probe_delay_ms = -1, opt_maximum_retry_attempts = 5\<rparr>"

definition systemDefaultOptions :: OptionsImp where
  "systemDefaultOptions =
     \<lparr>io_connection = getDefaultConnectionOptions, io_overlapped_io = 0, io_send_via_queue = 1, io_thread_quantity = 1\<rparr>"

definition merge_imp :: "OptionsImp \<Rightarrow> OptionsImp \<Rightarrow> OptionsImp" where
  "merge_imp lhs rhs =
     lhs\<lparr>io_connection := merge (io_connection lhs) (io_connection rhs),
         io_overlapped_io := (if io_overlapped_io lhs = -1 then io_overlapped_io rhs else io_overlapped_io lhs),
         io_send_via_queue := (if io_send_via_queue lhs = -1 then io_send_via_queue rhs else io_send_via_queue lhs),
         io_thread_quantity := (if io_thread_quantity lhs = -1 then io_thread_quantity rhs else io_thread_quantity lhs)\<rparr>"

definition service_options :: "OptionsImp option \<Rightarrow> OptionsImp" where
  "service_options options =
     merge_imp (case options of Some o' \<Rightarrow> o' | None \<Rightarrow> systemDefaultOptions) systemDefaultOptions"

section \<open>Addresses\<close>

text \<open>\<^verbatim>\<open>udp::endpoint\<close>: the bytes of the address, in network order, and the port.\<close>

datatype udp_endpoint = V4 bytes u16 | V6 bytes u16

definition htons :: "u16 \<Rightarrow> bytes" where
  "htons port = rev (enc_word 2 port)"

definition ntohs :: "bytes \<Rightarrow> u16" where
  "ntohs bs = dec_word (rev bs)"

fun toAddr :: "udp_endpoint \<Rightarrow> Address" where
  "toAddr (V4 bs port) = enc_word 2 AF_INET @ htons port @ bs @ replicate 20 0"
| "toAddr (V6 bs port) = enc_word 2 AF_INET6 @ htons port @ replicate 4 0 @ bs @ replicate 4 0"

definition toEndpoint :: "Address \<Rightarrow> udp_endpoint" where
  "toEndpoint addr =
     (if dec_word (take 2 addr) = AF_INET then V4 (take 4 (drop 4 addr)) (ntohs (take 2 (drop 2 addr)))
      else V6 (take 16 (drop 8 addr)) (ntohs (take 2 (drop 2 addr))))"

section \<open>Datagrams\<close>

record Send =
  sd_address :: Address
  sd_packet :: Packet

definition send_datagram :: "Packet \<Rightarrow> bytes" where
  "send_datagram p = enc_header (pk_header p) @ pk_data p"

definition dec_header :: "bytes \<Rightarrow> Header" where
  "dec_header bs =
     \<lparr>h_version = bs ! 0, h_connection = dec_word (take 2 (drop 1 bs)), h_type = bs ! 3, h_id = dec_word (take 2 (drop 4 bs))\<rparr>"

text \<open>The system copies at most \<^verbatim>\<open>sizeof(Packet) - sizeof(Packet::dataSize)\<close> bytes; \<open>None\<close> is the error \<^verbatim>\<open>illegal_byte_sequence\<close>.\<close>

definition receive_datagram :: "bytes \<Rightarrow> Packet option" where
  "receive_datagram datagram =
     (let buffer = take (6 + MAX_PACKET_SIZE) datagram
      in if length buffer < 6 then None else Some \<lparr>pk_header = dec_header (take 6 buffer), pk_data = drop 6 buffer\<rparr>)"

section \<open>A native socket\<close>

text \<open>
  \<open>sn_local\<close> is the endpoint the open handle has, \<open>sn_pending\<close> the operations whose completion handler has not run, \<open>sn_wire\<close> the datagrams handed to the system
  so far, with the endpoint where the socket is not connected.
\<close>

datatype completion = QueueSend | DirectSend

record SocketNative =
  sn_open :: bool
  sn_local :: udp_endpoint
  sn_isOverlapped :: bool
  sn_queue :: "Send list"
  sn_pending :: "completion list"
  sn_wire :: "(udp_endpoint option \<times> bytes) list"

definition native_send :: "Send \<Rightarrow> completion \<Rightarrow> SocketNative \<Rightarrow> SocketNative" where
  "native_send s f n =
     (if \<not> sn_open n then n
      else n\<lparr>sn_wire := sn_wire n @ [(if sn_isOverlapped n then None else Some (toEndpoint (sd_address s)), send_datagram (sd_packet s))],
             sn_pending := sn_pending n @ [f]\<rparr>)"

definition doSend :: "SocketNative \<Rightarrow> SocketNative" where
  "doSend n = native_send (hd (sn_queue n)) QueueSend n"

definition sendViaQueue :: "Address \<Rightarrow> Packet \<Rightarrow> SocketNative \<Rightarrow> SocketNative" where
  "sendViaQueue addr p n =
     (let n1 = n\<lparr>sn_queue := sn_queue n @ [\<lparr>sd_address = addr, sd_packet = p\<rparr>]\<rparr>
      in if length (sn_queue n1) = 1 then doSend n1 else n1)"

definition sendDirect :: "Address \<Rightarrow> Packet \<Rightarrow> SocketNative \<Rightarrow> SocketNative" where
  "sendDirect addr p n = native_send \<lparr>sd_address = addr, sd_packet = p\<rparr> DirectSend n"

text \<open>The completion handler of a pending operation.\<close>

definition native_done :: "nat \<Rightarrow> SocketNative \<Rightarrow> SocketNative" where
  "native_done i n =
     (if i < length (sn_pending n)
      then let n1 = n\<lparr>sn_pending := take i (sn_pending n) @ drop (Suc i) (sn_pending n)\<rparr>
           in case sn_pending n ! i of
                DirectSend \<Rightarrow> n1
              | QueueSend \<Rightarrow>
                  (let n2 = n1\<lparr>sn_queue := tl (sn_queue n1)\<rparr> in if length (sn_queue n2) > 0 then doSend n2 else n2)
      else n)"

section \<open>The sockets of a \<^verbatim>\<open>SocketImp\<close>\<close>

text \<open>The main socket and the overlapped ones, which connections name by their position.\<close>

record SocketImp =
  si_options :: OptionsImp
  si_running :: bool
  si_localEndpoint :: udp_endpoint
  si_socket :: SocketNative
  si_overlapped :: "SocketNative list"

definition send_on :: "int \<Rightarrow> Address \<Rightarrow> Packet \<Rightarrow> SocketNative \<Rightarrow> SocketNative" where
  "send_on via_queue addr p = (if via_queue = 1 then sendViaQueue addr p else sendDirect addr p)"

definition si_send :: "Packet \<Rightarrow> nat option \<Rightarrow> Address \<Rightarrow> Address option \<Rightarrow> SocketImp \<Rightarrow> int \<times> SocketImp" where
  "si_send p overlappedSocket remoteAddress address si =
     (let addr = (case address of Some a \<Rightarrow> a | None \<Rightarrow> remoteAddress);
          via = io_send_via_queue (si_options si)
      in if io_overlapped_io (si_options si) = 1 \<and> address = None
         then (case overlappedSocket of
                 None \<Rightarrow> (MRUDP_ERROR_GENERAL_FAILURE, si)
               | Some i \<Rightarrow> (MRUDP_OK, si\<lparr>si_overlapped := (si_overlapped si)[i := send_on via addr p (si_overlapped si ! i)]\<rparr>))
         else (MRUDP_OK, si\<lparr>si_socket := send_on via addr p (si_socket si)\<rparr>))"

definition si_open :: "SocketImp \<Rightarrow> SocketImp" where
  "si_open si = si\<lparr>si_running := True\<rparr>"

definition close_handle :: "SocketNative \<Rightarrow> SocketNative" where
  "close_handle n = n\<lparr>sn_open := False\<rparr>"

definition si_close :: "SocketImp \<Rightarrow> SocketImp" where
  "si_close si =
     (if si_running si
      then si\<lparr>si_running := False, si_socket := close_handle (si_socket si), si_overlapped := map close_handle (si_overlapped si)\<rparr>
      else si)"

text \<open>
  \<^verbatim>\<open>acquireAddress\<close> asks the system step by step; each answer is an argument. \<open>aq_bind\<close> and \<open>aq_bind_overlapped\<close> are whether the system gives the address,
  \<open>aq_bound\<close> the endpoint it then has, with the port the system chose where none was asked for. A call with an \<^verbatim>\<open>error_code\<close> that fails ends
  the function (\<open>Returned\<close>), one without throws (\<open>Thrown\<close>). Closing a handle closes it even where it reports an error.
\<close>

record AcquireAnswers =
  aq_close :: bool
  aq_open :: bool
  aq_bind :: bool
  aq_bound :: udp_endpoint
  aq_local_endpoint :: bool
  aq_open_overlapped :: bool
  aq_set_option :: bool
  aq_temporary_close :: bool
  aq_bind_overlapped :: bool

datatype acquired = Acquired | Returned | Thrown

definition no_endpoint :: udp_endpoint where
  "no_endpoint = V4 [0, 0, 0, 0] 0"

fun any_endpoint :: "udp_endpoint \<Rightarrow> udp_endpoint" where
  "any_endpoint (V4 bs port) = V4 (replicate 4 0) 0"
| "any_endpoint (V6 bs port) = V6 (replicate 16 0) 0"

definition open_handle :: "udp_endpoint \<Rightarrow> SocketNative \<Rightarrow> SocketNative" where
  "open_handle e n = n\<lparr>sn_open := True, sn_local := any_endpoint e\<rparr>"

definition bind_handle :: "udp_endpoint \<Rightarrow> SocketNative \<Rightarrow> SocketNative" where
  "bind_handle e n = n\<lparr>sn_local := e\<rparr>"

definition local_endpoint :: "SocketNative \<Rightarrow> udp_endpoint" where
  "local_endpoint n = (if sn_open n then sn_local n else no_endpoint)"

definition si_getLocalAddress :: "SocketImp \<Rightarrow> Address" where
  "si_getLocalAddress si = toAddr (local_endpoint (si_socket si))"

text \<open>
  The part for overlapped sockets: the bound handle moves into a temporary, which leaves the main handle closed; the main handle is opened again, the
  temporary is closed, and the main handle gets its endpoint.
\<close>

definition acquireOverlapped :: "AcquireAnswers \<Rightarrow> udp_endpoint \<Rightarrow> SocketNative \<Rightarrow> acquired \<times> SocketNative" where
  "acquireOverlapped answers localEndpoint n =
     (let moved = close_handle n; opened = open_handle localEndpoint moved
      in if \<not> aq_open_overlapped answers then (Thrown, moved)
         else if \<not> aq_set_option answers then (Returned, opened)
         else if \<not> aq_temporary_close answers then (Thrown, opened)
         else if \<not> aq_bind_overlapped answers then (Returned, opened)
         else (Acquired, bind_handle localEndpoint opened))"

definition insertEndpoint :: "udp_endpoint \<Rightarrow> bool" where
  "insertEndpoint e = True"

definition acquire_turn :: "AcquireAnswers \<Rightarrow> Address \<Rightarrow> SocketImp \<Rightarrow> acquired \<times> bool \<times> SocketImp" where
  "acquire_turn answers address si =
     (let closed = close_handle (si_socket si); endpoint = toEndpoint address; opened = open_handle endpoint closed; bound = bind_handle (aq_bound answers) opened
      in if \<not> aq_close answers then (Returned, False, si\<lparr>si_socket := closed\<rparr>)
         else if \<not> aq_open answers then (Thrown, False, si\<lparr>si_socket := closed\<rparr>)
         else if \<not> aq_bind answers then (Thrown, False, si\<lparr>si_socket := opened\<rparr>)
         else if \<not> aq_local_endpoint answers then (Returned, False, si\<lparr>si_socket := bound, si_localEndpoint := no_endpoint\<rparr>)
         else let si1 = si\<lparr>si_socket := bound, si_localEndpoint := local_endpoint bound\<rparr>; acquired = insertEndpoint (si_localEndpoint si1)
              in if io_overlapped_io (si_options si) = 1
                 then let (r, n) = acquireOverlapped answers (si_localEndpoint si1) bound in (r, acquired, si1\<lparr>si_socket := n\<rparr>)
                 else (Acquired, acquired, si1))"

text \<open>The loop, with the answers of its turns; \<open>None\<close> is a loop that has not ended with them.\<close>

fun acquireAddress :: "AcquireAnswers list \<Rightarrow> Address \<Rightarrow> SocketImp \<Rightarrow> (acquired \<times> SocketImp) option" where
  "acquireAddress [] address si = None"
| "acquireAddress (answers # turns) address si =
     (let (r, acquired, si1) = acquire_turn answers address si
      in if r \<noteq> Acquired \<or> acquired then Some (r, si1) else acquireAddress turns address si1)"

definition new_SocketImp :: "AcquireAnswers list \<Rightarrow> OptionsImp \<Rightarrow> Address \<Rightarrow> (acquired \<times> SocketImp) option" where
  "new_SocketImp answers options address =
     acquireAddress answers address
       \<lparr>si_options = options, si_running = False, si_localEndpoint = no_endpoint,
        si_socket = \<lparr>sn_open = False, sn_local = no_endpoint, sn_isOverlapped = False, sn_queue = [], sn_pending = [], sn_wire = []\<rparr>, si_overlapped = []\<rparr>"

text \<open>
  \<^verbatim>\<open>relocate\<close>, up to the connections, which then acquire overlapped sockets again (\<open>reacquireOverlappedSocket\<close> of \<open>Overlapped\<close>). The completion handlers that other
  threads run between closing and opening again are \<open>between\<close>. An exception leaves the function before the socket is opened.
\<close>

definition si_relocate :: "nat list \<Rightarrow> AcquireAnswers list \<Rightarrow> Address \<Rightarrow> SocketImp \<Rightarrow> (acquired \<times> SocketImp) option" where
  "si_relocate between answers address si =
     (let s1 = si_close si; s2 = s1\<lparr>si_socket := fold native_done between (si_socket s1)\<rparr>
      in case acquireAddress answers address s2 of
           None \<Rightarrow> None
         | Some (Thrown, s3) \<Rightarrow> Some (Thrown, s3)
         | Some (r, s3) \<Rightarrow> Some (r, si_open s3))"

section \<open>The receive loop\<close>

text \<open>One turn of \<^verbatim>\<open>doReceive\<close>: the handler of one datagram. \<open>None\<close> as the result is a handler that never ends.\<close>

definition onDatagram :: "compressor \<Rightarrow> decompressor \<Rightarrow> Env \<Rightarrow> timepoint \<Rightarrow> bytes \<Rightarrow> udp_endpoint \<Rightarrow> Socket \<Rightarrow> Socket option" where
  "onDatagram z u env now datagram endpoint s =
     (case receive_datagram datagram of
        None \<Rightarrow> Some s
      | Some p \<Rightarrow> sk_receive z u env now p (toAddr endpoint) s)"

fun doReceive :: "compressor \<Rightarrow> decompressor \<Rightarrow> Env \<Rightarrow> (timepoint \<times> bytes \<times> udp_endpoint) list \<Rightarrow> Socket \<Rightarrow> Socket option" where
  "doReceive z u env [] s = Some s"
| "doReceive z u env ((now, datagram, endpoint) # ds) s =
     do { s1 \<leftarrow> onDatagram z u env now datagram endpoint s; doReceive z u env ds s1 }"

section \<open>Addresses and datagrams\<close>

fun endpoint_ok :: "udp_endpoint \<Rightarrow> bool" where
  "endpoint_ok (V4 bs port) = (length bs = 4)"
| "endpoint_ok (V6 bs port) = (length bs = 16)"

lemma ntohs_htons [simp]: "ntohs (htons port) = port" "length (htons port) = 2"
  by (simp_all add: ntohs_def htons_def)

lemma toAddr_length: "endpoint_ok e \<Longrightarrow> length (toAddr e) = address_size"
  by (cases e) simp_all

text \<open>
  An endpoint survives the translation into the 28 bytes the protocol keeps and compares, and no two endpoints get the same
  bytes, so that two addresses are equal byte by byte exactly when they name the same endpoint.
\<close>

theorem endpoint_roundtrip:
  assumes "endpoint_ok e" and "endpoint_ok e'"
  shows "toEndpoint (toAddr e) = e \<and> length (toAddr e) = address_size \<and> (toAddr e = toAddr e' \<longleftrightarrow> e = e')"
proof -
  have rt: "toEndpoint (toAddr x) = x" if "endpoint_ok x" for x
    using that by (cases x) (simp_all add: toEndpoint_def)
  then show ?thesis using assms toAddr_length by metis
qed

theorem endpoint_roundtrip_witness:
  "toEndpoint (toAddr (V4 [127, 0, 0, 1] 5000)) = V4 [127, 0, 0, 1] 5000 \<and> toAddr (V4 [127, 0, 0, 1] 5000) \<noteq> toAddr (V6 (replicate 16 0) 5000)"
  using endpoint_roundtrip [of "V4 [127, 0, 0, 1] 5000" "V6 (replicate 16 0) 5000"] by simp

lemma dec_enc_header: "dec_header (enc_header h) = h"
proof -
  have "take 2 (drop 1 (enc_header h)) = enc_word 2 (h_connection h)" and "take 2 (drop 4 (enc_header h)) = enc_word 2 (h_id h)"
    and "enc_header h ! 0 = h_version h" and "enc_header h ! 3 = h_type h"
    by (simp_all add: enc_header_def nth_append nth_Cons')
  then show ?thesis by (simp add: dec_header_def)
qed

lemma enc_header_length [simp]: "length (enc_header h) = 6"
  by (simp add: enc_header_def)

lemma datagram_roundtrip: "wf_packet p \<Longrightarrow> receive_datagram (send_datagram p) = Some p"
  by (simp add: receive_datagram_def send_datagram_def wf_packet_def dec_enc_header)

lemma receive_datagram_wf: "receive_datagram d = Some p \<Longrightarrow> wf_packet p"
  by (auto simp: receive_datagram_def wf_packet_def Let_def split: if_splits)

section \<open>The send queue\<close>

datatype native_event = Submit Address Packet | Completed

fun native_step :: "native_event \<Rightarrow> SocketNative \<Rightarrow> SocketNative" where
  "native_step (Submit addr p) n = sendViaQueue addr p n"
| "native_step Completed n = native_done 0 n"

definition datagram_of :: "Send \<Rightarrow> udp_endpoint option \<times> bytes" where
  "datagram_of s = (Some (toEndpoint (sd_address s)), send_datagram (sd_packet s))"

fun submitted :: "native_event list \<Rightarrow> (udp_endpoint option \<times> bytes) list" where
  "submitted [] = []"
| "submitted (Submit addr p # es) = datagram_of \<lparr>sd_address = addr, sd_packet = p\<rparr> # submitted es"
| "submitted (Completed # es) = submitted es"

definition new_native :: SocketNative where
  "new_native = \<lparr>sn_open = True, sn_local = no_endpoint, sn_isOverlapped = False, sn_queue = [], sn_pending = [], sn_wire = []\<rparr>"

text \<open>While the handle is open, one send is in flight exactly when something is queued, and it is the front of the queue.\<close>

definition native_inv :: "(udp_endpoint option \<times> bytes) list \<Rightarrow> SocketNative \<Rightarrow> bool" where
  "native_inv sent n \<longleftrightarrow> sn_open n \<and> \<not> sn_isOverlapped n \<and> sn_pending n = (if sn_queue n = [] then [] else [QueueSend])
     \<and> sent = sn_wire n @ map datagram_of (tl (sn_queue n))"

lemmas native_defs = native_send_def doSend_def sendViaQueue_def native_done_def datagram_of_def Let_def

lemma native_step_inv: "native_inv sent n \<Longrightarrow> native_inv (sent @ submitted [e]) (native_step e n)"
proof (cases e)
  case Completed
  assume "native_inv sent n"
  with Completed show ?thesis
    by (cases "sn_queue n"; cases "tl (sn_queue n)") (auto simp: native_inv_def native_defs)
next
  case (Submit addr p)
  assume "native_inv sent n"
  with Submit show ?thesis by (cases "sn_queue n") (auto simp: native_inv_def native_defs)
qed

lemma native_run_inv: "native_inv sent n \<Longrightarrow> native_inv (sent @ submitted es) (fold native_step es n)"
proof (induction es arbitrary: sent n)
  case (Cons e es)
  have "submitted (e # es) = submitted [e] @ submitted es" by (cases e) simp_all
  with Cons.IH [OF native_step_inv [OF Cons.prems, of e]] show ?case by simp
qed simp

lemma native_done_queue: "native_inv sent n \<Longrightarrow> sn_queue (native_done 0 n) = tl (sn_queue n)"
  by (auto simp: native_inv_def native_defs)

lemma native_drain:
  assumes "native_inv sent n" and "length (sn_queue n) \<le> k"
  shows "sn_wire (fold native_step (replicate k Completed) n) = sent \<and> sn_queue (fold native_step (replicate k Completed) n) = []"
  using assms
proof (induction k arbitrary: n)
  case 0
  then show ?case by (simp add: native_inv_def)
next
  case (Suc k)
  with native_step_inv [OF Suc.prems(1), of Completed] native_done_queue [OF Suc.prems(1)] show ?case by simp
qed

lemma queue_length: "length (sn_queue (fold native_step es n)) \<le> length (sn_queue n) + length es"
proof (induction es arbitrary: n)
  case (Cons e es)
  have "length (sn_queue (native_step e n)) \<le> Suc (length (sn_queue n))"
    by (cases e) (auto simp: native_defs split: completion.splits)
  with Cons.IH [of "native_step e n"] show ?case by simp
qed simp

text \<open>
  C14: While the handle of a socket is open, its send queue hands every packet to the system exactly once and in the order of
  the calls, with at most one send in flight, however calls and completions interleave; and as many completions as packets were
  submitted empty it.
\<close>

theorem send_queue_fifo:
  "(let n = fold native_step es new_native in
     submitted es = sn_wire n @ map datagram_of (tl (sn_queue n)) \<and> sn_pending n = (if sn_queue n = [] then [] else [QueueSend]))
   \<and> (let n = fold native_step (es @ replicate (length es) Completed) new_native in sn_wire n = submitted es \<and> sn_queue n = [])"
proof -
  have inv: "native_inv (submitted es) (fold native_step es new_native)"
    using native_run_inv [of "[]" new_native es] by (simp add: native_inv_def new_native_def)
  moreover have "length (sn_queue (fold native_step es new_native)) \<le> length es"
    using queue_length [of es new_native] by (simp add: new_native_def)
  ultimately show ?thesis using native_drain [OF inv] by (simp add: native_inv_def Let_def)
qed

section \<open>The address of a socket\<close>

text \<open>The system gives everything it is asked for.\<close>

definition all_given :: "AcquireAnswers \<Rightarrow> bool" where
  "all_given answers \<longleftrightarrow> aq_close answers \<and> aq_open answers \<and> aq_bind answers \<and> aq_local_endpoint answers \<and> aq_open_overlapped answers \<and> aq_set_option answers
     \<and> aq_temporary_close answers \<and> aq_bind_overlapped answers"

lemmas acquire_defs = acquire_turn_def acquireOverlapped_def insertEndpoint_def close_handle_def open_handle_def bind_handle_def local_endpoint_def Let_def

lemma acquired_given:
  assumes "all_given answers"
  shows "\<exists>t. acquireAddress [answers] address si = Some (Acquired, t) \<and> sn_open (si_socket t) \<and> sn_local (si_socket t) = aq_bound answers
    \<and> sn_queue (si_socket t) = sn_queue (si_socket si) \<and> sn_pending (si_socket t) = sn_pending (si_socket si) \<and> sn_wire (si_socket t) = sn_wire (si_socket si)"
  using assms by (auto simp: all_given_def acquire_defs)

text \<open>
  One turn of the loop is enough, since \<^verbatim>\<open>insertEndpoint\<close> refuses nothing. The socket gets the endpoint the system gives exactly when every step succeeds;
  a refused address is an exception, and of the other failures only those of the throwing calls. Until its endpoint is known, no step leaves the main
  handle bound to it.
\<close>

definition steps_given :: "int \<Rightarrow> AcquireAnswers \<Rightarrow> bool" where
  "steps_given overlapped_io answers \<longleftrightarrow> aq_close answers \<and> aq_open answers \<and> aq_bind answers \<and> aq_local_endpoint answers \<and>
     (overlapped_io = 1 \<longrightarrow> aq_open_overlapped answers \<and> aq_set_option answers \<and> aq_temporary_close answers \<and> aq_bind_overlapped answers)"

lemma acquireAddress_outcome:
  "\<exists>r t. acquireAddress (answers # turns) address si = Some (r, t) \<and> (r = Acquired \<longleftrightarrow> steps_given (io_overlapped_io (si_options si)) answers)
     \<and> (r = Acquired \<longrightarrow> sn_open (si_socket t) \<and> local_endpoint (si_socket t) = aq_bound answers \<and> si_localEndpoint t = aq_bound answers)
     \<and> (aq_close answers \<and> aq_open answers \<and> \<not> aq_bind answers \<longrightarrow> r = Thrown \<and> si_socket t = open_handle (toEndpoint address) (si_socket si))
     \<and> si_running t = si_running si \<and> si_options t = si_options si"
  by (auto simp: steps_given_def acquire_defs)

text \<open>A queue with a packet in it and no send in flight is never served again.\<close>

lemma stalled:
  assumes "sn_queue n \<noteq> []" and "sn_pending n = []"
  shows "sn_wire (fold native_step es n) = sn_wire n \<and> sn_pending (fold native_step es n) = []"
  using assms
proof (induction es arbitrary: n)
  case (Cons e es)
  have "sn_wire (native_step e n) = sn_wire n \<and> sn_pending (native_step e n) = [] \<and> sn_queue (native_step e n) \<noteq> []"
    using Cons.prems by (cases e) (auto simp: native_defs)
  with Cons.IH [of "native_step e n"] show ?case by simp
qed simp

text \<open>
  C15: Relocating a socket can silence it for good. If the send in flight completes between the closing of the old handle and the
  opening of the new one while another packet is queued, \<^verbatim>\<open>SocketNative::send\<close> returns without its callback on the closed handle:
  the queue keeps its packets with no send in flight, and whatever is submitted afterwards, nothing is handed to the system again,
  although the new handle is open.
\<close>

theorem relocate_stalls_queue:
  assumes "si_running si" and "sn_pending (si_socket si) = [QueueSend]" and "sn_queue (si_socket si) = a # b # queued" and "all_given answers"
  shows "\<exists>si'. si_relocate [0] [answers] address si = Some (Acquired, si') \<and> sn_open (si_socket si') \<and> si_running si'
    \<and> local_endpoint (si_socket si') = aq_bound answers \<and> sn_wire (fold native_step es (si_socket si')) = sn_wire (si_socket si)"
proof -
  let ?s = "(si_close si)\<lparr>si_socket := native_done 0 (si_socket (si_close si))\<rparr>"
  have q: "sn_queue (si_socket ?s) = b # queued" "sn_pending (si_socket ?s) = []" "sn_wire (si_socket ?s) = sn_wire (si_socket si)"
    using assms(1-3) by (simp_all add: si_close_def close_handle_def native_defs)
  obtain t where t: "acquireAddress [answers] address ?s = Some (Acquired, t)" "sn_open (si_socket t)" "sn_local (si_socket t) = aq_bound answers"
    "sn_queue (si_socket t) = sn_queue (si_socket ?s)" "sn_pending (si_socket t) = sn_pending (si_socket ?s)" "sn_wire (si_socket t) = sn_wire (si_socket ?s)"
    using acquired_given [OF assms(4), of address ?s] by blast
  let ?t = "si_open t"
  have "si_relocate [0] [answers] address si = Some (Acquired, ?t)" using t(1) by (simp add: si_relocate_def Let_def del: acquireAddress.simps)
  moreover have "sn_open (si_socket ?t)" "si_running ?t" "local_endpoint (si_socket ?t) = aq_bound answers" "sn_queue (si_socket ?t) \<noteq> []" "sn_pending (si_socket ?t) = []"
    "sn_wire (si_socket ?t) = sn_wire (si_socket si)" using t q by (simp_all add: si_open_def local_endpoint_def)
  ultimately show ?thesis using stalled [of "si_socket ?t" es] by (intro exI [of _ ?t]) simp
qed

definition example_imp :: SocketImp where
  "example_imp = \<lparr>si_options = systemDefaultOptions, si_running = True, si_localEndpoint = no_endpoint,
     si_socket = fold native_step [Submit (replicate 28 2) new_packet, Submit (replicate 28 2) new_packet] new_native, si_overlapped = []\<rparr>"

definition example_answers :: AcquireAnswers where
  "example_answers = \<lparr>aq_close = True, aq_open = True, aq_bind = True, aq_bound = V4 [127, 0, 0, 1] 5000, aq_local_endpoint = True, aq_open_overlapped = True,
     aq_set_option = True, aq_temporary_close = True, aq_bind_overlapped = True\<rparr>"

theorem relocate_stalls_queue_witness:
  "\<exists>si'. si_relocate [0] [example_answers] (replicate 28 2) example_imp = Some (Acquired, si')
     \<and> length (sn_wire (fold native_step [Submit (replicate 28 2) new_packet, Completed] (si_socket si'))) = 1"
proof -
  have "si_running example_imp" "sn_pending (si_socket example_imp) = [QueueSend]" "length (sn_wire (si_socket example_imp)) = 1"
    "sn_queue (si_socket example_imp) = [\<lparr>sd_address = replicate 28 2, sd_packet = new_packet\<rparr>, \<lparr>sd_address = replicate 28 2, sd_packet = new_packet\<rparr>]"
    by (simp_all add: example_imp_def new_native_def native_defs)
  moreover have "all_given example_answers" by (simp add: example_answers_def all_given_def)
  ultimately show ?thesis
    using relocate_stalls_queue [of example_imp _ _ "[]" example_answers "replicate 28 2" "[Submit (replicate 28 2) new_packet, Completed]"] by metis
qed

section \<open>Receiving\<close>

lemma ids_card: "card (ids :: ShortConnectionID set) < 65535 \<Longrightarrow> \<exists>f. f \<noteq> 0 \<and> f \<notin> ids"
proof (rule ccontr)
  assume c: "card ids < 65535" and "\<nexists>f. f \<noteq> 0 \<and> f \<notin> ids"
  then have "insert 0 ids = UNIV" by auto
  moreover have "card (insert 0 ids) \<le> Suc (card ids)" by (rule card_insert_le_m1) simp_all
  ultimately show False using c by (simp add: card_word)
qed

lemma sk_finish_ids: "sk_shortConnectionIDs (sk_finish r s) \<subseteq> sk_shortConnectionIDs s"
  by (auto simp: sk_finish_def sk_erase_def releaseShortConnectionID_def set_conn_def)

lemma set_conn_ids [simp]: "sk_shortConnectionIDs (set_conn r c s) = sk_shortConnectionIDs s"
  by (simp add: set_conn_def)

lemma generateConnection_total:
  assumes "card (sk_shortConnectionIDs s) \<le> 65534"
  shows "\<exists>found s'. generateConnection env now lookup p frm s = Some (found, s') \<and> card (sk_shortConnectionIDs s') \<le> 65534"
proof -
  define s0 where "s0 = (if sk_shouldAccept s then s\<lparr>sk_out := sk_out s @ [SkShouldAccept (sk_userData s) frm]\<rparr> else s)"
  have ids: "sk_shortConnectionIDs s0 = sk_shortConnectionIDs s" by (simp add: s0_def)
  show ?thesis
  proof (cases "isFull s \<or> pk_type p \<noteq> H0 \<or> lu_longID lookup = NullLongConnectionID \<or> \<not> sk_acceptHandler s
      \<or> sk_shouldAccept s \<and> env_shouldAccept env (sk_userData s) frm \<noteq> MRUDP_OK")
    case True
    then show ?thesis using assms ids by (auto simp: generateConnection_def s0_def Let_def)
  next
    case False
    then have few: "card (sk_shortConnectionIDs s) \<le> 65533" using assms by (simp add: isFull_def)
    then obtain f where "f \<noteq> 0" "f \<notin> sk_shortConnectionIDs s" using ids_card [of "sk_shortConnectionIDs s"] by auto
    then obtain l where l: "acquire_loop (sk_shortConnectionIDs s0) (env_random env) = Some l" using acquire_loop_complete ids by blast
    let ?s1 = "s0\<lparr>sk_shortConnectionIDs := insert l (sk_shortConnectionIDs s)\<rparr>"
    have a: "acquireShortConnectionID (env_random env) s0 = Some (l, ?s1)" using l ids by (simp add: acquireShortConnectionID_def)
    have card: "card X \<le> 65534" if "X \<subseteq> insert l (sk_shortConnectionIDs s)" for X
    proof -
      have "card X \<le> card (insert l (sk_shortConnectionIDs s))" using that by (intro card_mono) simp_all
      also have "\<dots> \<le> Suc (card (sk_shortConnectionIDs s))" by (rule card_insert_le_m1) simp_all
      finally show ?thesis using few by simp
    qed
    define c where "c = new_Connection (env_options env) (lu_longID lookup) frm l"
    obtain r s2 where al: "alloc_conn c ?s1 = (r, s2)" by fastforce
    obtain st c1 where op: "conn_open now (env_open env) c = (st, c1)" by fastforce
    obtain ac c2 where acc: "env_accept env (sk_userData s) c1 = (ac, c2)" by fastforce
    have ids2: "sk_shortConnectionIDs (sk_insert r s2) = insert l (sk_shortConnectionIDs s)"
      using al by (auto simp: alloc_conn_def sk_insert_def)
    have fin: "card (sk_shortConnectionIDs (sk_finish r (set_conn r c1 (sk_insert r s2)))) \<le> 65534"
      using sk_finish_ids [of r "set_conn r c1 (sk_insert r s2)"] ids2 by (intro card) simp
    from False show ?thesis using a al op acc fin card ids2
      by (auto simp: generateConnection_def s0_def [symmetric] c_def [symmetric] Let_def)
  qed
qed

lemma sk_receive_total:
  assumes "card (sk_shortConnectionIDs s) \<le> 65534"
  shows "\<exists>s'. sk_receive z u env now p frm s = Some s' \<and> card (sk_shortConnectionIDs s') \<le> 65534"
proof -
  obtain lookup p1 where lu: "getLookUp p = (lookup, p1)" by fastforce
  obtain found s1 where "findOrGenerateConnection env now lookup p1 frm s = Some (found, s1)" "card (sk_shortConnectionIDs s1) \<le> 65534"
    using assms generateConnection_total [OF assms, of env now lookup p1 frm]
    by (cases "findConnection lookup s") (auto simp: findOrGenerateConnection_def)
  with lu show ?thesis by (cases found) (auto simp: sk_receive_def)
qed



end
