(* ===== verification/Delivery.thy ===== *)
theory Delivery
  imports Crypto Asio
begin

text \<open>
  From the data a sender enqueues to the data a receiver hands to its user: the send queue, the header the sender writes, the
  encryption, the datagram, the network, and the receive queue. The network delivers any of the sent packets at any time, any number of times.
\<close>

section \<open>What the send queue hands out\<close>

text \<open>The data of the operations of a run, in the order of the calls.\<close>

fun enqueued :: "sq_op list \<Rightarrow> bytes" where
  "enqueued [] = []"
| "enqueued (Enqueue t data mode # ops) = data @ enqueued ops"
| "enqueued (Dequeue # ops) = enqueued ops"

text \<open>Operations without compression; \<^verbatim>\<open>Sender::send\<close> lets through what is admissible.\<close>

fun plain_op :: "sq_op \<Rightarrow> bool" where
  "plain_op (Enqueue t data mode) \<longleftrightarrow> admissible data mode \<and> mode \<noteq> MRUDP_COALESCE_STREAM_COMPRESSED"
| "plain_op Dequeue \<longleftrightarrow> True"

definition plain_queue :: "SendQueue \<Rightarrow> bool" where
  "plain_queue q \<longleftrightarrow> sq_inv q \<and> sq_status q = IS_OPEN \<and> sq_buffer q = []"

lemma plain_enqueue:
  assumes "plain_queue q" and "admissible data mode" and "mode \<noteq> MRUDP_COALESCE_STREAM_COMPRESSED"
  shows "plain_queue (sq_enqueue q t data mode) \<and> concat (map f_data (sq_frames (sq_enqueue q t data mode))) = concat (map f_data (sq_frames q)) @ data"
  using sq_enqueue_adds [of q data mode t] assms by (auto simp: plain_queue_def adds_frames_def)

lemma plain_dequeue:
  assumes "plain_queue q" and "sq_dequeue z level q = (r, q')"
  shows "plain_queue q' \<and> sq_frames q = out_frames r @ sq_frames q'"
  using assms by (auto simp: plain_queue_def sq_dequeue_def sq_inv_def sq_frames_def out_frames_def split: list.splits)

lemma sq_run_data:
  assumes "plain_queue q" and "list_all plain_op ops" and "sq_run z level q ops = (ps, q')"
  shows "plain_queue q' \<and> concat (map f_data (concat (map frames_of ps) @ sq_frames q')) = concat (map f_data (sq_frames q)) @ enqueued ops"
  using assms
proof (induction ops arbitrary: q ps)
  case (Cons x ops)
  show ?case
  proof (cases x)
    case (Enqueue t data mode)
    with Cons.prems have e: "plain_queue (sq_enqueue q t data mode)"
      "concat (map f_data (sq_frames (sq_enqueue q t data mode))) = concat (map f_data (sq_frames q)) @ data"
      using plain_enqueue by auto
    have "sq_run z level (sq_enqueue q t data mode) ops = (ps, q')" "list_all plain_op ops"
      using Cons.prems Enqueue by (simp_all add: sq_run_def)
    from Cons.IH [OF e(1) this(2,1)] e(2) Enqueue show ?thesis by simp
  next
    case Dequeue
    obtain r q1 where r: "sq_dequeue z level q = (r, q1)" by fastforce
    obtain qs where qs: "sq_run z level q1 ops = (qs, q')" "ps = (case r of None \<Rightarrow> qs | Some p \<Rightarrow> p # qs)"
      using Cons.prems(3) Dequeue r
      by (cases "sq_run z level q1 ops") (auto simp: sq_run_def Let_def split: option.splits)
    have "list_all plain_op ops" using Cons.prems(2) by simp
    from Cons.IH [OF _ this qs(1)] plain_dequeue [OF Cons.prems(1) r] qs(2) Dequeue show ?thesis
      by (cases r) (auto simp: out_frames_def)
  qed
qed (simp add: sq_run_def)

lemma plain_ops_admissible: "list_all plain_op ops \<Longrightarrow> \<forall>t data mode. Enqueue t data mode \<in> set ops \<longrightarrow> admissible data mode"
  by (force simp: list_all_iff)

section \<open>The network\<close>

text \<open>
  The header of a reliable packet: its type, its identifier, the identifier of the connection at the receiver. The payload is
  what the queue handed out.
\<close>

definition stamp :: "PacketID \<Rightarrow> ShortConnectionID \<Rightarrow> Packet \<Rightarrow> Packet" where
  "stamp i n p = set_connection n (set_id i (set_type DATA_RELIABLE p))"

lemma stamp_data [simp]: "pk_data (stamp i n p) = pk_data p" "pk_type (stamp i n p) = DATA_RELIABLE" "dataSize (stamp i n p) = dataSize p"
  by (simp_all add: stamp_def)

text \<open>The numbers of the frames in the packet at position \<open>j\<close>.\<close>

definition numbers_of :: "Packet list \<Rightarrow> nat \<Rightarrow> nat list" where
  "numbers_of ps j = (let k = length (concat (map frames_of (take j ps))) in [k..<k + length (frames_of (ps ! j))])"

text \<open>
  What arrives: an arrival is a position in the list of sent packets, the identifiers in the header, and a way, which is what
  differs from one transmission to the next, such as what the random generator draws.
\<close>

definition arrived :: "('w \<Rightarrow> Packet \<Rightarrow> Packet option) \<Rightarrow> Packet list \<Rightarrow> (nat \<times> PacketID \<times> ShortConnectionID \<times> 'w) list \<Rightarrow> Packet list" where
  "arrived transmit ps net = List.map_filter (\<lambda>(j, i, n, way). transmit way (stamp i n (ps ! j))) net"

definition delivered :: "Packet list \<Rightarrow> bytes" where
  "delivered ps = concat (map f_data (fst (rq_receive_packets new_ReceiveQueue ps)))"

lemma numbers_of_frames:
  assumes "j < length ps"
  shows "map (\<lambda>k. (concat (map frames_of ps) @ xs) ! k) (numbers_of ps j) = frames_of (ps ! j)"
    and "set (numbers_of ps j) \<subseteq> {..<length (concat (map frames_of ps))}"
proof -
  define a where "a = concat (map frames_of (take j ps))"
  define b where "b = concat (map frames_of (drop (Suc j) ps))"
  have "ps = take j ps @ ps ! j # drop (Suc j) ps" using assms by (rule id_take_nth_drop)
  then have e: "concat (map frames_of ps) = a @ frames_of (ps ! j) @ b"
    unfolding a_def b_def by (metis concat.simps(2) concat_append list.simps(9) map_append)
  have n: "numbers_of ps j = [length a..<length a + length (frames_of (ps ! j))]" by (simp add: numbers_of_def a_def Let_def)
  show "map (\<lambda>k. (concat (map frames_of ps) @ xs) ! k) (numbers_of ps j) = frames_of (ps ! j)"
    unfolding n e by (rule nth_equalityI) (auto simp: nth_append)
  show "set (numbers_of ps j) \<subseteq> {..<length (concat (map frames_of ps))}" unfolding n e by auto
qed

lemma numbers_cover:
  assumes "{..<length ps} \<subseteq> set js"
  shows "{0..<length (concat (map frames_of ps))} \<subseteq> set (concat (map (numbers_of ps) js))"
proof
  fix k assume "k \<in> {0..<length (concat (map frames_of ps))}"
  then have k: "k < length (concat (map frames_of ps))" by simp
  define P where "P j = (k < length (concat (map frames_of (take j ps))))" for j
  define m where "m = (LEAST j. P j)"
  have "P (length ps)" using k by (simp add: P_def)
  then have m: "P m" "m \<le> length ps" unfolding m_def by (auto intro: LeastI Least_le)
  then have "m \<noteq> 0" unfolding P_def by (cases "m = 0") simp_all
  then obtain j where j: "m = Suc j" using not0_implies_Suc by blast
  then have "\<not> P j" using not_less_Least [of j P] by (simp add: m_def)
  moreover have "j < length ps" using m(2) j by simp
  moreover from this have "concat (map frames_of (take (Suc j) ps)) = concat (map frames_of (take j ps)) @ frames_of (ps ! j)"
    by (simp add: take_Suc_conv_app_nth)
  ultimately have "k \<in> set (numbers_of ps j)" using m(1) j by (simp add: P_def numbers_of_def Let_def)
  with \<open>j < length ps\<close> assms show "k \<in> set (concat (map (numbers_of ps) js))" by auto
qed

text \<open>A way from one end to the other that gives every packet of the size a queue hands out as it was.\<close>

locale packet_channel =
  fixes ok :: "'w \<Rightarrow> bool" and transmit :: "'w \<Rightarrow> Packet \<Rightarrow> Packet option"
  assumes transmit_data: "ok way \<Longrightarrow> pk_type p = DATA_RELIABLE \<Longrightarrow> dataSize p \<le> MAX_PACKET_POST_FRAME_SIZE \<Longrightarrow> transmit way p = Some p"
begin

lemma arrived_carries:
  assumes "\<forall>p \<in> set ps. good_packet p" and "list_all (\<lambda>(j, i, n, way). j < length ps \<and> ok way) net"
  shows "list_all2 carries (arrived transmit ps net) (map (\<lambda>x. frames_of (ps ! fst x)) net)"
  using assms(2)
proof (induction net)
  case (Cons x net)
  obtain j i n way where x: "x = (j, i, n, way)" by (cases x) auto
  have g: "good_packet (ps ! j)" using Cons.prems assms(1) x by simp
  then have "transmit way (stamp i n (ps ! j)) = Some (stamp i n (ps ! j))"
    using Cons.prems x by (intro transmit_data) (simp_all add: good_packet_def)
  moreover have "carries (stamp i n (ps ! j)) (frames_of (ps ! j))" using g by (simp add: good_packet_def carries_def)
  ultimately show ?case using Cons x by (simp add: arrived_def map_filter_simps)
qed (simp add: arrived_def map_filter_simps)

lemma stream_delivered:
  assumes ops: "list_all plain_op ops" and run: "sq_run z level new_SendQueue ops = (ps, q)"
    and net: "list_all (\<lambda>(j, i, n, way). j < length ps \<and> ok way) net" and win: "window_ok [] (concat (map (numbers_of ps \<circ> fst) net))"
  shows "(\<exists>rest. enqueued ops = delivered (arrived transmit ps net) @ rest)
    \<and> ({..<length ps} \<subseteq> fst ` set net \<and> sq_queue q = [] \<longrightarrow> delivered (arrived transmit ps net) = enqueued ops)"
proof -
  define out where "out = concat (map frames_of ps)"
  define fs where "fs = out @ sq_frames q"
  define S where "S n = (if n < length fs then fs ! n else \<lparr>f_id = of_nat n, f_type = DATA, f_data = []\<rparr>)" for n
  define nss where "nss = map (numbers_of ps \<circ> fst) net"
  note num = sq_run_numbered [OF plain_ops_admissible [OF ops] run]
  have "map f_id fs = map of_nat [0..<length fs]" using num by (simp add: consecutive_def fs_def out_def)
  then have "map f_id fs ! n = map of_nat [0..<length fs] ! n" for n by simp
  then have "f_id (fs ! n) = of_nat n" if "n < length fs" for n using that by (metis add_0 diff_zero length_upt nth_map nth_upt)
  then have S: "numbered S" by (simp add: numbered_def S_def)
  have nums: "map S (numbers_of ps j) = frames_of (ps ! j)" if "j < length ps" for j
  proof -
    have "map S (numbers_of ps j) = map (\<lambda>k. (concat (map frames_of ps) @ sq_frames q) ! k) (numbers_of ps j)"
      using numbers_of_frames(2) [OF that] by (intro map_cong refl) (auto simp: S_def fs_def out_def)
    then show ?thesis using numbers_of_frames(1) [OF that] by simp
  qed
  have lt: "fst x < length ps" if "x \<in> set net" for x using net that by (force simp: list_all_iff)
  have "map (\<lambda>x. frames_of (ps ! fst x)) net = map (map S) nss" using nums lt by (simp add: nss_def)
  then have c: "list_all2 carries (arrived transmit ps net) (map (map S) nss)"
    using arrived_carries [OF _ net] num by simp
  define m where "m = mex (concat nss)"
  have got: "delivered (arrived transmit ps net) = concat (map f_data (map S [0..<m]))"
    using reliable_delivery_aux [OF S c] win unfolding nss_def m_def delivered_def by simp
  have "set (concat nss) \<subseteq> {..<length out}"
  proof
    fix k assume "k \<in> set (concat nss)"
    then obtain x where "x \<in> set net" "k \<in> set (numbers_of ps (fst x))" by (auto simp: nss_def)
    then show "k \<in> {..<length out}" using numbers_of_frames(2) [OF lt] unfolding out_def by blast
  qed
  then have m: "m \<le> length out" using mex_below [of "length out" "concat nss"] by (auto simp: m_def not_less [symmetric])
  then have take: "map S [0..<m] = take m fs" by (intro nth_equalityI) (auto simp: S_def fs_def nth_append)
  have "plain_queue new_SendQueue" by (simp add: plain_queue_def new_SendQueue_def sq_inv_def)
  from sq_run_data [OF this ops run] have data: "concat (map f_data fs) = enqueued ops"
    by (simp add: fs_def out_def sq_frames_def new_SendQueue_def)
  have "enqueued ops = delivered (arrived transmit ps net) @ concat (map f_data (drop m fs))"
    unfolding data [symmetric] got take by (metis append_take_drop_id concat_append map_append)
  moreover have "delivered (arrived transmit ps net) = enqueued ops" if "{..<length ps} \<subseteq> fst ` set net" "sq_queue q = []"
  proof -
    have "{0..<length out} \<subseteq> set (concat nss)" using numbers_cover [of ps "map fst net"] that(1) by (simp add: nss_def out_def)
    then have "m = length out" using m mex_notin [of "concat nss"] unfolding m_def by (meson atLeastLessThan_iff le_neq_implies_less subsetD zero_le)
    then show ?thesis using that(2) data unfolding got take by (simp add: fs_def sq_frames_def)
  qed
  ultimately show ?thesis by blast
qed

end

section \<open>The two ways\<close>

text \<open>Without encryption a packet goes into a datagram and comes out of it.\<close>

definition plain_transmit :: "unit \<Rightarrow> Packet \<Rightarrow> Packet option" where
  "plain_transmit way p = receive_datagram (send_datagram p)"

interpretation udp: packet_channel "\<lambda>_. True" plain_transmit
  by unfold_locales (simp add: plain_transmit_def datagram_roundtrip wf_packet_def dataSize_def)

text \<open>With encryption it is encrypted for the session before, and decrypted after. A way is the library, the two ends and what is drawn.\<close>

type_synonym session = "OpenSSL \<times> ConnectionCrypto \<times> ConnectionCrypto \<times> Drawn"

fun session_ok :: "session \<Rightarrow> bool" where
  "session_ok (ssl, a, b, drawn) \<longleftrightarrow> openssl_ok ssl {} \<and> cc_remoteSessionKey a = Some (cc_localSessionKey b)
     \<and> length (cc_localSessionKey b) = AESKey_size \<and> drawn_ok drawn"

fun encrypted_transmit :: "session \<Rightarrow> Packet \<Rightarrow> Packet option" where
  "encrypted_transmit (ssl, a, b, drawn) p =
     do { q \<leftarrow> crypto_onSend ssl drawn p a;
          r \<leftarrow> receive_datagram (send_datagram q);
          (p', b') \<leftarrow> crypto_onReceive ssl r b;
          Some p' }"

interpretation aes: packet_channel session_ok encrypted_transmit
proof
  fix way :: session and p :: Packet
  assume w: "session_ok way" and p: "pk_type p = DATA_RELIABLE" "dataSize p \<le> MAX_PACKET_POST_FRAME_SIZE"
  obtain ssl a b drawn where way: "way = (ssl, a, b, drawn)" by (cases way) auto
  obtain q where q: "crypto_onSend ssl drawn p a = Some q" "dataSize q \<le> MAX_PACKET_POST_CRYPTO_SIZE" "crypto_onReceive ssl q b = Some (p, b)"
    using session_roundtrip [of ssl "{}" a b drawn p] w p way by auto
  then have "receive_datagram (send_datagram q) = Some q" by (intro datagram_roundtrip) (simp add: wf_packet_def dataSize_def)
  with q way show "encrypted_transmit way p = Some p" by simp
qed

end
