(* ===== verification/Overlapped.thy ===== *)
theory Overlapped
  imports Asio Transition_Systems
begin

text \<open>
  Overlapped sockets (\<^verbatim>\<open>imp/Asio.cpp\<close> with \<^verbatim>\<open>overlapped_io\<close>): a native socket for each remote address, shared by the connections to
  it. The table of a \<^verbatim>\<open>SocketImp\<close> holds weak pointers; connections and operations in flight hold strong ones, and the destructor of a native
  socket takes its entry out of the table. A native socket is named by a number; whether the system grants what is asked is an argument.
\<close>

record Overlapped =
  ov_table :: "Address \<Rightarrow> nat option option"
  ov_key :: "nat \<Rightarrow> Address"
  ov_holds :: "nat \<Rightarrow> nat option"
  ov_refs :: "nat \<Rightarrow> nat"
  ov_closed :: "nat \<Rightarrow> bool"
  ov_next :: nat

definition new_Overlapped :: Overlapped where
  "new_Overlapped = \<lparr>ov_table = (\<lambda>_. None), ov_key = (\<lambda>_. []), ov_holds = (\<lambda>_. None), ov_refs = (\<lambda>_. 0), ov_closed = (\<lambda>_. False), ov_next = 0\<rparr>"

text \<open>\<^verbatim>\<open>strong\<close> of a weak pointer.\<close>

definition ov_strong :: "Overlapped \<Rightarrow> nat option \<Rightarrow> nat option" where
  "ov_strong s weak = (case weak of None \<Rightarrow> None | Some i \<Rightarrow> if ov_refs s i > 0 then Some i else None)"

definition releaseOverlappedSocket :: "Address \<Rightarrow> Overlapped \<Rightarrow> Overlapped" where
  "releaseOverlappedSocket key s =
     (case ov_table s key of
        None \<Rightarrow> s
      | Some weak \<Rightarrow> if ov_strong s weak = None then s\<lparr>ov_table := (ov_table s)(key := None)\<rparr> else s)"

text \<open>A strong pointer is copied, or goes away; the last one to go runs \<^verbatim>\<open>~SocketNative\<close>.\<close>

definition add_ref :: "nat \<Rightarrow> Overlapped \<Rightarrow> Overlapped" where
  "add_ref i s = s\<lparr>ov_refs := (ov_refs s)(i := ov_refs s i + 1)\<rparr>"

definition drop_ref :: "nat \<Rightarrow> Overlapped \<Rightarrow> Overlapped" where
  "drop_ref i s =
     (let s1 = s\<lparr>ov_refs := (ov_refs s)(i := ov_refs s i - 1)\<rparr>
      in if ov_refs s1 i = 0 then releaseOverlappedSocket (ov_key s i) s1 else s1)"

text \<open>
  The result is a strong pointer of the caller. A new socket that the system does not open, bind or connect is destroyed when the function
  returns, after the entry has been made; with the parent gone nothing is created. The callers reach the function through the parent.
\<close>

definition getOverlappedSocket :: "bool \<Rightarrow> bool \<Rightarrow> Address \<Rightarrow> Overlapped \<Rightarrow> nat option \<times> Overlapped" where
  "getOverlappedSocket parent_alive granted remoteAddress s =
     (let weak = (case ov_table s remoteAddress of Some w \<Rightarrow> w | None \<Rightarrow> None);
          s1 = s\<lparr>ov_table := (ov_table s)(remoteAddress := Some weak)\<rparr>
      in case ov_strong s1 weak of
           Some i \<Rightarrow> (Some i, add_ref i s1)
         | None \<Rightarrow>
             if \<not> parent_alive then (None, s1)
             else
             (let i = ov_next s;
                  s2 = add_ref i (s1\<lparr>ov_next := i + 1, ov_key := (ov_key s)(i := remoteAddress)\<rparr>)
              in if granted then (Some i, s2\<lparr>ov_table := (ov_table s2)(remoteAddress := Some (Some i))\<rparr>)
                 else (None, drop_ref i s2)))"

text \<open>The pointer \<^verbatim>\<open>overlappedSocket\<close> of a connection, and the assignments to it.\<close>

definition clear_holds :: "nat \<Rightarrow> Overlapped \<Rightarrow> Overlapped" where
  "clear_holds c s =
     (case ov_holds s c of None \<Rightarrow> s | Some i \<Rightarrow> drop_ref i (s\<lparr>ov_holds := (ov_holds s)(c := None)\<rparr>))"

definition imp_open :: "int \<Rightarrow> bool \<Rightarrow> nat \<Rightarrow> Address \<Rightarrow> Overlapped \<Rightarrow> int \<times> Overlapped" where
  "imp_open overlapped_io granted c remoteAddress s =
     (if overlapped_io \<noteq> 0
      then let (found, s1) = getOverlappedSocket True granted remoteAddress s; s2 = (clear_holds c s1)\<lparr>ov_holds := (ov_holds (clear_holds c s1))(c := found)\<rparr>
           in if found = None then (MRUDP_ERROR_GENERAL_FAILURE, s2) else (MRUDP_OK, s2)
      else (MRUDP_OK, s))"

definition reacquireOverlappedSocket :: "int \<Rightarrow> bool \<Rightarrow> nat \<Rightarrow> Address \<Rightarrow> Overlapped \<Rightarrow> Overlapped" where
  "reacquireOverlappedSocket overlapped_io granted c remoteAddress s =
     (let s1 = clear_holds c s
      in if overlapped_io \<noteq> 0
         then let (found, s2) = getOverlappedSocket True granted remoteAddress s1 in s2\<lparr>ov_holds := (ov_holds s2)(c := found)\<rparr>
         else s1)"

text \<open>\<^verbatim>\<open>SocketImp::close\<close> closes the handle of every socket of the table that is still there; a socket is entered under its own address. It runs on a socket that is open (\<^verbatim>\<open>running\<close>).\<close>

definition ov_close :: "Overlapped \<Rightarrow> Overlapped" where
  "ov_close s = s\<lparr>ov_closed := (\<lambda>i. ov_closed s i \<or> (ov_table s (ov_key s i) = Some (Some i) \<and> ov_strong s (Some i) = Some i))\<rparr>"

section \<open>Invariant\<close>

text \<open>
  A live socket is in the table under its address, and every entry of the table is a live socket: there is never more than one
  socket for an address.
\<close>

definition table_inv :: "Overlapped \<Rightarrow> bool" where
  "table_inv s \<longleftrightarrow> (\<forall>i. ov_refs s i > 0 \<longrightarrow> i < ov_next s \<and> ov_table s (ov_key s i) = Some (Some i))
     \<and> (\<forall>k w. ov_table s k = Some w \<longrightarrow> (\<exists>i. w = Some i \<and> ov_refs s i > 0 \<and> ov_key s i = k))"

text \<open>Each connection that holds a socket has a strong pointer of its own.\<close>

definition holders :: "Overlapped \<Rightarrow> nat \<Rightarrow> nat set" where
  "holders s i = {c. ov_holds s c = Some i}"

definition holds_inv :: "Overlapped \<Rightarrow> bool" where
  "holds_inv s \<longleftrightarrow> (\<forall>i. finite (holders s i) \<and> card (holders s i) \<le> ov_refs s i)"

lemma table_inv_same:
  assumes "table_inv s" and "\<And>i. ov_refs s' i > 0 \<longleftrightarrow> ov_refs s i > 0" and "ov_table s' = ov_table s" and "ov_key s' = ov_key s" and "ov_next s' = ov_next s"
  shows "table_inv s'"
  using assms unfolding table_inv_def by simp

lemma table_inv_inj: "table_inv s \<Longrightarrow> ov_refs s i > 0 \<Longrightarrow> ov_refs s j > 0 \<Longrightarrow> ov_key s i = ov_key s j \<Longrightarrow> i = j"
  unfolding table_inv_def by (metis option.inject)

lemma table_inv_dead: "table_inv s \<Longrightarrow> ov_table s k = Some (Some i) \<Longrightarrow> ov_refs s i > 0 \<and> ov_key s i = k"
  unfolding table_inv_def by auto

lemma table_invD:
  assumes "table_inv s"
  shows "ov_refs s i > 0 \<Longrightarrow> i < ov_next s" "ov_refs s i > 0 \<Longrightarrow> ov_table s (ov_key s i) = Some (Some i)"
    "ov_table s k = Some w \<Longrightarrow> \<exists>i. w = Some i \<and> ov_refs s i > 0 \<and> ov_key s i = k"
  using assms unfolding table_inv_def by blast+

lemma add_ref_table: "table_inv s \<Longrightarrow> ov_refs s i > 0 \<Longrightarrow> table_inv (add_ref i s)"
  by (rule table_inv_same [of s]) (auto simp: add_ref_def)

lemma drop_ref_table:
  assumes "table_inv s" and "ov_refs s i > 0"
  shows "table_inv (drop_ref i s)"
proof (cases "ov_refs s i = 1")
  case False
  with assms(2) show ?thesis by (intro table_inv_same [OF assms(1)]) (auto simp: drop_ref_def Let_def)
next
  case True
  have t: "ov_table s (ov_key s i) = Some (Some i)" using assms by (simp add: table_inv_def)
  then have eq: "drop_ref i s = s\<lparr>ov_refs := (ov_refs s)(i := 0), ov_table := (ov_table s)(ov_key s i := None)\<rparr>"
    using True by (simp add: drop_ref_def releaseOverlappedSocket_def ov_strong_def Let_def)
  have other: "j = i \<or> ov_key s j \<noteq> ov_key s i" if "ov_refs s j > 0" for j using table_inv_inj [OF assms(1) that assms(2)] by blast
  show ?thesis using assms(1) other t unfolding eq table_inv_def by (auto 0 3) metis
qed

lemma drop_ref_fields [simp]:
  "ov_holds (drop_ref i s) = ov_holds s" "ov_refs (drop_ref i s) = (ov_refs s)(i := ov_refs s i - 1)" "ov_key (drop_ref i s) = ov_key s"
  "ov_next (drop_ref i s) = ov_next s"
  by (simp_all add: drop_ref_def releaseOverlappedSocket_def Let_def split: option.splits)

lemma getOverlappedSocket_table:
  assumes "table_inv s" and "getOverlappedSocket True granted k s = (found, s')"
  shows "table_inv s' \<and> ov_holds s' = ov_holds s
    \<and> (case found of None \<Rightarrow> ov_refs s' = ov_refs s | Some i \<Rightarrow> ov_refs s' = (ov_refs s)(i := ov_refs s i + 1) \<and> ov_key s' i = k)
    \<and> (\<forall>i. ov_refs s i > 0 \<longrightarrow> ov_key s' i = ov_key s i)"
proof (cases "ov_table s k")
  case (Some w)
  then obtain i where i: "w = Some i" "ov_refs s i > 0" "ov_key s i = k" using assms(1) unfolding table_inv_def by blast
  then have "s\<lparr>ov_table := (ov_table s)(k := Some w)\<rparr> = s" using Some fun_upd_idem [of "ov_table s" k "Some w"] by simp
  then have "found = Some i" "s' = add_ref i s" using assms(2) Some i by (simp_all add: getOverlappedSocket_def ov_strong_def)
  then show ?thesis using add_ref_table [OF assms(1) i(2)] i(3) by (simp add: add_ref_def)
next
  case None
  let ?i = "ov_next s"
  have fresh: "ov_refs s ?i = 0" using assms(1) unfolding table_inv_def by (metis gr0I less_irrefl)
  have nokey: "ov_key s j \<noteq> k" if "ov_refs s j > 0" for j using assms(1) None that unfolding table_inv_def by auto
  let ?s = "s\<lparr>ov_next := ?i + 1, ov_key := (ov_key s)(?i := k)\<rparr>"
  show ?thesis
  proof (cases granted)
    case True
    then have "found = Some ?i" and s': "s' = ?s\<lparr>ov_refs := (ov_refs s)(?i := 1), ov_table := (ov_table s)(k := Some (Some ?i))\<rparr>"
      using assms(2) None fresh by (auto simp: getOverlappedSocket_def ov_strong_def add_ref_def Let_def)
    moreover have "table_inv s'"
      unfolding table_inv_def
    proof (intro conjI allI impI)
      fix j assume "ov_refs s' j > 0"
      then have "j = ?i \<or> j \<noteq> ?i \<and> ov_refs s j > 0" by (auto simp: s')
      then show "j < ov_next s'" "ov_table s' (ov_key s' j) = Some (Some j)"
        using table_invD(1,2) [OF assms(1), of j] nokey [of j] by (auto simp: s')
    next
      fix k' w assume "ov_table s' k' = Some w"
      then have "k' = k \<and> w = Some ?i \<or> k' \<noteq> k \<and> ov_table s k' = Some w" by (auto simp: s' split: if_splits)
      then show "\<exists>i. w = Some i \<and> 0 < ov_refs s' i \<and> ov_key s' i = k'"
      proof
        assume "k' = k \<and> w = Some ?i"
        then show ?thesis by (simp add: s')
      next
        assume "k' \<noteq> k \<and> ov_table s k' = Some w"
        then obtain i where "w = Some i" "ov_refs s i > 0" "ov_key s i = k'" using table_invD(3) [OF assms(1)] by blast
        moreover from this fresh have "i \<noteq> ?i" by auto
        ultimately show ?thesis by (simp add: s')
      qed
    qed
    ultimately show ?thesis using fresh by (simp add: s')
  next
    case False
    then have "found = None" and s': "s' = ?s"
      using assms(2) None fresh fun_upd_idem [of "ov_table s" k None] fun_upd_idem [of "ov_refs s" ?i 0]
      by (auto simp: getOverlappedSocket_def ov_strong_def add_ref_def drop_ref_def releaseOverlappedSocket_def Let_def)
    moreover have "table_inv s'"
      using assms(1) fresh unfolding s' table_inv_def by (simp add: less_SucI) (metis less_irrefl)
    ultimately show ?thesis using fresh by (simp add: s')
  qed
qed

section \<open>Runs\<close>

lemma holds_live: "holds_inv s \<Longrightarrow> ov_holds s c = Some i \<Longrightarrow> ov_refs s i > 0"
proof -
  assume inv: "holds_inv s" and "ov_holds s c = Some i"
  then have "c \<in> holders s i" by (simp add: holders_def)
  then have "card (holders s i) > 0" using inv by (auto simp: card_gt_0_iff holds_inv_def)
  moreover have "card (holders s i) \<le> ov_refs s i" using inv by (simp add: holds_inv_def)
  ultimately show ?thesis by simp
qed

lemma clear_holds_inv:
  assumes "table_inv s" and "holds_inv s"
  shows "table_inv (clear_holds c s) \<and> holds_inv (clear_holds c s) \<and> ov_holds (clear_holds c s) = (ov_holds s)(c := None)"
proof (cases "ov_holds s c")
  case None
  then show ?thesis using assms by (simp add: clear_holds_def fun_upd_idem)
next
  case (Some i)
  let ?s = "s\<lparr>ov_holds := (ov_holds s)(c := None)\<rparr>"
  have live: "ov_refs ?s i > 0" using holds_live [OF assms(2) Some] by simp
  have "table_inv ?s" by (rule table_inv_same [OF assms(1)]) simp_all
  from drop_ref_table [OF this live] have t: "table_inv (drop_ref i ?s)" .
  have h: "holders (drop_ref i ?s) j = holders s j - {c}" for j by (auto simp: holders_def)
  have "c \<in> holders s i" using Some by (simp add: holders_def)
  moreover have "c \<notin> holders s j" if "j \<noteq> i" for j using Some that by (simp add: holders_def)
  ultimately have "card (holders s j - {c}) = (if j = i then card (holders s j) - 1 else card (holders s j))" for j by simp
  then have "holds_inv (drop_ref i ?s)" using assms(2) unfolding holds_inv_def h by (auto intro: diff_le_mono)
  with t Some show ?thesis by (simp add: clear_holds_def)
qed

text \<open>A connection without a socket gets what was found for it.\<close>

lemma take_holds_inv:
  assumes "table_inv s" and "holds_inv s" and "ov_holds s c = None" and "getOverlappedSocket True granted k s = (found, s')"
  shows "table_inv (s'\<lparr>ov_holds := (ov_holds s')(c := found)\<rparr>) \<and> holds_inv (s'\<lparr>ov_holds := (ov_holds s')(c := found)\<rparr>)"
proof -
  note g = getOverlappedSocket_table [OF assms(1,4)]
  let ?s = "s'\<lparr>ov_holds := (ov_holds s')(c := found)\<rparr>"
  from g have t: "table_inv s'" and h: "ov_holds s' = ov_holds s" by blast+
  have "table_inv ?s" by (rule table_inv_same [OF t]) simp_all
  moreover have "finite (holders ?s i) \<and> card (holders ?s i) \<le> ov_refs ?s i" for i
  proof -
    have c: "c \<notin> holders s i" using assms(3) by (simp add: holders_def)
    have f: "finite (holders s i)" "card (holders s i) \<le> ov_refs s i" using assms(2) by (simp_all add: holds_inv_def)
    show ?thesis
    proof (cases "found = Some i")
      case True
      then have "holders ?s i = insert c (holders s i)" using h by (auto simp: holders_def)
      moreover have "ov_refs s' i = ov_refs s i + 1" using g True by simp
      ultimately show ?thesis using c f by simp
    next
      case False
      then have "holders ?s i = holders s i" using h assms(3) by (auto simp: holders_def)
      moreover have "ov_refs s' i = ov_refs s i" using g False by (cases found) simp_all
      ultimately show ?thesis using f by simp
    qed
  qed
  ultimately show ?thesis by (simp add: holds_inv_def)
qed

definition ov_inv :: "Overlapped \<Rightarrow> bool" where
  "ov_inv s \<longleftrightarrow> table_inv s \<and> holds_inv s"

text \<open>
  Connections open, change their address or relocate, and go away; operations in flight take a strong pointer and give it back; the
  socket closes.
\<close>

inductive ov_trans :: "Overlapped \<Rightarrow> Overlapped \<Rightarrow> bool" where
  ov_opened: "ov_holds s c = None \<Longrightarrow> ov_trans s (snd (imp_open io granted c a s))"
| ov_reacquired: "ov_trans s (reacquireOverlappedSocket io granted c a s)"
| ov_destroyed: "ov_trans s (clear_holds c s)"
| ov_started: "ov_refs s i > 0 \<Longrightarrow> ov_trans s (add_ref i s)"
| ov_done: "card (holders s i) < ov_refs s i \<Longrightarrow> ov_trans s (drop_ref i s)"
| ov_closes: "ov_trans s (ov_close s)"

lemma ov_trans_inv:
  assumes "ov_inv s" and "ov_trans s t"
  shows "ov_inv t"
  using assms(2)
proof cases
  case (ov_opened c io granted a)
  obtain found s1 where g: "getOverlappedSocket True granted a s = (found, s1)" by fastforce
  have n: "ov_holds s1 c = None" using getOverlappedSocket_table [OF _ g] assms(1) ov_opened(2) by (simp add: ov_inv_def)
  then have "clear_holds c s1 = s1" by (simp add: clear_holds_def)
  then show ?thesis using take_holds_inv [OF _ _ ov_opened(2) g] assms(1) ov_opened(1) g by (auto simp: imp_open_def ov_inv_def Let_def split: if_splits)
next
  case (ov_reacquired io granted c a)
  obtain found s1 where g: "getOverlappedSocket True granted a (clear_holds c s) = (found, s1)" by fastforce
  have c: "table_inv (clear_holds c s)" "holds_inv (clear_holds c s)" "ov_holds (clear_holds c s) c = None"
    using clear_holds_inv [of s c] assms(1) by (simp_all add: ov_inv_def)
  show ?thesis using take_holds_inv [OF c g] c g ov_reacquired by (auto simp: reacquireOverlappedSocket_def ov_inv_def Let_def split: if_splits)
next
  case (ov_destroyed c)
  then show ?thesis using clear_holds_inv [of s c] assms(1) by (simp add: ov_inv_def)
next
  case (ov_started i)
  have "holds_inv (add_ref i s)" using assms(1) by (auto simp: ov_inv_def holds_inv_def holders_def add_ref_def le_SucI)
  then show ?thesis using ov_started add_ref_table [of s i] assms(1) by (simp add: ov_inv_def)
next
  case (ov_done i)
  then have "holds_inv (drop_ref i s)" using assms(1) by (auto simp: ov_inv_def holds_inv_def holders_def)
  then show ?thesis using ov_done drop_ref_table [of s i] assms(1) by (simp add: ov_inv_def)
next
  case ov_closes
  then show ?thesis using assms(1) by (auto simp: ov_inv_def table_inv_def holds_inv_def holders_def ov_close_def)
qed

interpretation ov: invariant_system ov_trans ov_inv
  by unfold_locales (rule ov_trans_inv)

lemma new_Overlapped_inv: "ov_inv new_Overlapped"
  by (simp add: ov_inv_def table_inv_def holds_inv_def holders_def new_Overlapped_def)

text \<open>
  C23: Whatever connections do, there is at most one overlapped socket for a remote address: two connections hold the same socket exactly
  when their sockets are for the same address, the socket a connection holds is alive and in the table under its
  address, and when no pointer to a socket is left the table is empty, so that no entry is leaked.
\<close>

theorem overlapped_sockets_shared:
  assumes "ov_trans\<^sup>*\<^sup>* new_Overlapped s" and "ov_holds s c = Some i" and "ov_holds s d = Some j"
  shows "(ov_key s i = ov_key s j \<longleftrightarrow> i = j) \<and> ov_refs s i > 0 \<and> ov_table s (ov_key s i) = Some (Some i)
    \<and> (\<forall>k w. ov_table s k = Some w \<longrightarrow> (\<exists>l. w = Some l \<and> ov_refs s l > 0 \<and> ov_key s l = k))"
proof -
  have "ov_inv s" by (rule ov.inv_run [OF assms(1) new_Overlapped_inv])
  then have inv: "table_inv s" "holds_inv s" by (simp_all add: ov_inv_def)
  have live: "ov_refs s i > 0" "ov_refs s j > 0" using holds_live [OF inv(2)] assms(2,3) by blast+
  show ?thesis using table_inv_inj [OF inv(1) live] live inv(1) unfolding table_inv_def by blast
qed

theorem overlapped_sockets_shared_witness:
  "\<exists>s i. snd (imp_open 1 True 2 [9] (snd (imp_open 1 True 1 [9] new_Overlapped))) = s \<and> ov_holds s 1 = Some i \<and> ov_holds s 2 = Some i
     \<and> ov_refs s i > 0 \<and> ov_table s [9] = Some (Some i)"
proof -
  define s1 where "s1 = snd (imp_open 1 True 1 [9] new_Overlapped)"
  define s2 where "s2 = snd (imp_open 1 True 2 [9] s1)"
  have f: "ov_holds s2 1 = Some 0" "ov_holds s2 2 = Some 0" "ov_key s2 0 = [9]" "ov_holds s1 2 = None"
    by (simp_all add: s2_def s1_def imp_open_def getOverlappedSocket_def ov_strong_def add_ref_def clear_holds_def new_Overlapped_def Let_def)
  have "ov_trans new_Overlapped s1" unfolding s1_def by (rule ov_trans.ov_opened) (simp add: new_Overlapped_def)
  moreover have "ov_trans s1 s2" unfolding s2_def by (rule ov_trans.ov_opened [OF f(4)])
  ultimately have "ov_trans\<^sup>*\<^sup>* new_Overlapped s2" by (meson r_into_rtranclp rtranclp.rtrancl_into_rtrancl)
  from overlapped_sockets_shared [OF this f(1,2)] f show ?thesis unfolding s1_def s2_def by auto
qed

end
