(* ===== verification/Api.thy ===== *)
theory Api
  imports Socket
begin

text \<open>
  The C interface: \<^verbatim>\<open>mrudp/mrudp.cpp\<close> and the handles of \<^verbatim>\<open>mrudp/Socket.cpp\<close> and \<^verbatim>\<open>mrudp/Connection.cpp\<close>. A handle is the address of a cell on the heap that
  holds a reference to a socket or a connection; \<^verbatim>\<open>closeHandle\<close> empties the cell and \<^verbatim>\<open>deleteHandle\<close> frees it. The null handle is
  \<open>None\<close>. An operation on a handle whose cell has been freed has no defined result: it is \<open>None\<close>, as is a call that
  does not return.
\<close>

section \<open>Handles\<close>

type_synonym api_handle = "nat option"
type_synonym conn_id = "nat \<times> conn_ref"

record World =
  wd_sockets :: "Socket list"
  wd_socketHandles :: "nat \<Rightarrow> nat option option"
  wd_connectionHandles :: "nat \<Rightarrow> conn_id option option"
  wd_fresh :: nat

definition new_World :: World where
  "new_World = \<lparr>wd_sockets = [], wd_socketHandles = (\<lambda>_. None), wd_connectionHandles = (\<lambda>_. None), wd_fresh = 0\<rparr>"

definition newHandle_socket :: "nat \<Rightarrow> World \<Rightarrow> api_handle \<times> World" where
  "newHandle_socket s w =
     (Some (wd_fresh w), w\<lparr>wd_socketHandles := (wd_socketHandles w)(wd_fresh w \<mapsto> Some s), wd_fresh := wd_fresh w + 1\<rparr>)"

definition newHandle_connection :: "conn_id \<Rightarrow> World \<Rightarrow> api_handle \<times> World" where
  "newHandle_connection c w =
     (Some (wd_fresh w), w\<lparr>wd_connectionHandles := (wd_connectionHandles w)(wd_fresh w \<mapsto> Some c), wd_fresh := wd_fresh w + 1\<rparr>)"

definition toNative :: "(nat \<Rightarrow> 'a option option) \<Rightarrow> api_handle \<Rightarrow> 'a option option" where
  "toNative cells handle = (case handle of None \<Rightarrow> Some None | Some h \<Rightarrow> cells h)"

definition closeHandle :: "(nat \<Rightarrow> 'a option option) \<Rightarrow> api_handle \<Rightarrow> ('a option \<times> (nat \<Rightarrow> 'a option option)) option" where
  "closeHandle cells handle =
     (case handle of
        None \<Rightarrow> Some (None, cells)
      | Some h \<Rightarrow> (case cells h of None \<Rightarrow> None | Some cell \<Rightarrow> Some (cell, cells(h \<mapsto> None))))"

definition deleteHandle :: "api_handle \<Rightarrow> (nat \<Rightarrow> 'a option option) \<Rightarrow> nat \<Rightarrow> 'a option option" where
  "deleteHandle handle cells = (case handle of None \<Rightarrow> cells | Some h \<Rightarrow> cells(h := None))"

definition connection_of :: "conn_id \<Rightarrow> World \<Rightarrow> Connection" where
  "connection_of c w = conn_at (wd_sockets w ! fst c) (snd c)"

definition update_socket :: "nat \<Rightarrow> Socket \<Rightarrow> World \<Rightarrow> World" where
  "update_socket s x w = w\<lparr>wd_sockets := (wd_sockets w)[s := x]\<rparr>"

definition update_connection :: "conn_id \<Rightarrow> Connection \<Rightarrow> World \<Rightarrow> World" where
  "update_connection c x w = update_socket (fst c) (set_conn (snd c) x (wd_sockets w ! fst c)) w"

text \<open>The beginning of every operation: a handle that names nothing is an error.\<close>

definition with_socket :: "api_handle \<Rightarrow> World \<Rightarrow> (nat \<Rightarrow> int \<times> World) \<Rightarrow> (int \<times> World) option" where
  "with_socket handle w f =
     (case toNative (wd_socketHandles w) handle of
        None \<Rightarrow> None
      | Some None \<Rightarrow> Some (MRUDP_ERROR_GENERAL_FAILURE, w)
      | Some (Some s) \<Rightarrow> Some (f s))"

definition with_connection :: "api_handle \<Rightarrow> World \<Rightarrow> (conn_id \<Rightarrow> int \<times> World) \<Rightarrow> (int \<times> World) option" where
  "with_connection handle w f =
     (case toNative (wd_connectionHandles w) handle of
        None \<Rightarrow> None
      | Some None \<Rightarrow> Some (MRUDP_ERROR_GENERAL_FAILURE, w)
      | Some (Some c) \<Rightarrow> Some (f c))"

section \<open>Sockets\<close>

text \<open>Opening the system's socket (\<^verbatim>\<open>Socket::open\<close>) is left to the implementation.\<close>

definition mrudp_socket :: "World \<Rightarrow> api_handle \<times> World" where
  "mrudp_socket w = newHandle_socket (length (wd_sockets w)) (w\<lparr>wd_sockets := wd_sockets w @ [new_Socket]\<rparr>)"

definition mrudp_listen :: "api_handle \<Rightarrow> nat \<Rightarrow> bool \<Rightarrow> bool \<Rightarrow> bool \<Rightarrow> World \<Rightarrow> (int \<times> World) option" where
  "mrudp_listen socket userData shouldAccept accept close w =
     with_socket socket w (\<lambda>s. (MRUDP_OK, update_socket s (sk_listen userData shouldAccept accept close (wd_sockets w ! s)) w))"

definition mrudp_close_socket :: "api_handle \<Rightarrow> World \<Rightarrow> (int \<times> World) option" where
  "mrudp_close_socket socket w =
     do { (native, cells) \<leftarrow> closeHandle (wd_socketHandles w) socket;
          let w1 = w\<lparr>wd_socketHandles := cells\<rparr>;
          case native of
            None \<Rightarrow> Some (MRUDP_ERROR_GENERAL_FAILURE, w1)
          | Some s \<Rightarrow> Some (MRUDP_OK, (update_socket s (sk_closeUser (wd_sockets w1 ! s)) w1)\<lparr>wd_socketHandles := deleteHandle socket cells\<rparr>) }"

definition mrudp_connect_ex ::
  "Env \<Rightarrow> timepoint \<Rightarrow> LongConnectionID \<Rightarrow> api_handle \<Rightarrow> Address \<Rightarrow> ConnectionOptions option \<Rightarrow> nat \<Rightarrow> bool \<Rightarrow> bool \<Rightarrow> World
   \<Rightarrow> (api_handle \<times> World) option" where
  "mrudp_connect_ex env now longID socket remoteAddress options userData receive close w =
     (case toNative (wd_socketHandles w) socket of
        None \<Rightarrow> None
      | Some None \<Rightarrow> Some (None, w)
      | Some (Some s) \<Rightarrow>
          do { (found, x) \<leftarrow> sk_connect env now longID remoteAddress options userData receive close (wd_sockets w ! s);
               let w1 = update_socket s x w;
               case found of None \<Rightarrow> Some (None, w1) | Some r \<Rightarrow> Some (newHandle_connection (s, r) w1) })"

section \<open>Connections\<close>

definition mrudp_accept_ex ::
  "api_handle \<Rightarrow> ConnectionOptions option \<Rightarrow> nat \<Rightarrow> bool \<Rightarrow> bool \<Rightarrow> World \<Rightarrow> (int \<times> World) option" where
  "mrudp_accept_ex connection options userData receive close w =
     with_connection connection w
       (\<lambda>c. (MRUDP_OK, update_connection c (openUser options userData receive close (connection_of c w)) w))"

definition mrudp_send :: "compressor \<Rightarrow> timepoint \<Rightarrow> api_handle \<Rightarrow> bytes \<Rightarrow> bool \<Rightarrow> World \<Rightarrow> (int \<times> World) option" where
  "mrudp_send z now connection buffer reliable w =
     with_connection connection w
       (\<lambda>c. let (result, x) = user_send z now buffer (if reliable then RELIABLE else UNRELIABLE) (connection_of c w)
            in (result, update_connection c x w))"

definition mrudp_close_connection :: "compressor \<Rightarrow> timepoint \<Rightarrow> api_handle \<Rightarrow> World \<Rightarrow> (int \<times> World) option" where
  "mrudp_close_connection z now connection w =
     do { (native, cells) \<leftarrow> closeHandle (wd_connectionHandles w) connection;
          let w1 = w\<lparr>wd_connectionHandles := cells\<rparr>;
          case native of
            None \<Rightarrow> Some (MRUDP_ERROR_GENERAL_FAILURE, w1)
          | Some c \<Rightarrow>
              Some (MRUDP_OK,
                (update_connection c (closeUser MRUDP_EVENT_CLOSED (conn_close z now (connection_of c w1))) w1)
                  \<lparr>wd_connectionHandles := deleteHandle connection cells\<rparr>) }"

definition mrudp_connection_options_set :: "api_handle \<Rightarrow> ConnectionOptions \<Rightarrow> World \<Rightarrow> (int \<times> World) option" where
  "mrudp_connection_options_set connection options w =
     with_connection connection w (\<lambda>c. (MRUDP_OK, update_connection c ((connection_of c w)\<lparr>c_options := options\<rparr>) w))"

text \<open>What the queries put where the caller wants it; on an error nothing.\<close>

definition query :: "api_handle \<Rightarrow> World \<Rightarrow> (Connection \<Rightarrow> 'a) \<Rightarrow> (int \<times> 'a option) option" where
  "query handle w f =
     (case toNative (wd_connectionHandles w) handle of
        None \<Rightarrow> None
      | Some None \<Rightarrow> Some (MRUDP_ERROR_GENERAL_FAILURE, None)
      | Some (Some c) \<Rightarrow> Some (MRUDP_OK, Some (f (connection_of c w))))"

definition mrudp_connection_remote_addr :: "api_handle \<Rightarrow> World \<Rightarrow> (int \<times> Address option) option" where
  "mrudp_connection_remote_addr connection w = query connection w c_remoteAddress"

definition mrudp_connection_statistics :: "api_handle \<Rightarrow> World \<Rightarrow> (int \<times> Statistics option) option" where
  "mrudp_connection_statistics connection w = query connection w c_statistics"

definition mrudp_connection_state :: "api_handle \<Rightarrow> World \<Rightarrow> (int \<times> u32 option) option" where
  "mrudp_connection_state connection w = query connection w (\<lambda>c. of_nat (numUnacked (sn_retrier (c_sender c))))"

definition mrudp_connection_options :: "api_handle \<Rightarrow> World \<Rightarrow> (int \<times> ConnectionOptions option) option" where
  "mrudp_connection_options connection w = query connection w c_options"

section \<open>Null handles\<close>

text \<open>
  Every operation on a null handle, and on a handle whose cell has been emptied, as a handle is while its own close callback runs, reports
  the general failure or a null handle and changes nothing.
\<close>

theorem api_null_handle:
  assumes "toNative (wd_socketHandles w) hs = Some None" and "toNative (wd_connectionHandles w) hc = Some None"
  shows "mrudp_listen hs ud sa ah ch w = Some (MRUDP_ERROR_GENERAL_FAILURE, w)
    \<and> mrudp_close_socket hs w = Some (MRUDP_ERROR_GENERAL_FAILURE, w)
    \<and> mrudp_connect_ex env now longID hs a options ud rh ch w = Some (None, w)
    \<and> mrudp_accept_ex hc options ud rh ch w = Some (MRUDP_ERROR_GENERAL_FAILURE, w)
    \<and> mrudp_send z now hc buffer reliable w = Some (MRUDP_ERROR_GENERAL_FAILURE, w)
    \<and> mrudp_close_connection z now hc w = Some (MRUDP_ERROR_GENERAL_FAILURE, w)
    \<and> mrudp_connection_options_set hc new_options w = Some (MRUDP_ERROR_GENERAL_FAILURE, w)
    \<and> mrudp_connection_remote_addr hc w = Some (MRUDP_ERROR_GENERAL_FAILURE, None)
    \<and> mrudp_connection_state hc w = Some (MRUDP_ERROR_GENERAL_FAILURE, None)"
proof -
  have "closeHandle (wd_socketHandles w) hs = Some (None, wd_socketHandles w)"
    "closeHandle (wd_connectionHandles w) hc = Some (None, wd_connectionHandles w)"
    using assms by (auto simp: toNative_def closeHandle_def fun_upd_idem split: option.splits)
  with assms show ?thesis
    by (simp add: mrudp_listen_def mrudp_close_socket_def mrudp_connect_ex_def mrudp_accept_ex_def mrudp_send_def mrudp_close_connection_def
      mrudp_connection_options_set_def mrudp_connection_remote_addr_def mrudp_connection_state_def with_socket_def with_connection_def query_def)
qed

theorem api_null_handle_witness:
  "mrudp_send (\<lambda>_ _ _. None) 0 None [1] True new_World = Some (MRUDP_ERROR_GENERAL_FAILURE, new_World)
   \<and> mrudp_close_connection (\<lambda>_ _ _. None) 0 None new_World = Some (MRUDP_ERROR_GENERAL_FAILURE, new_World)"
  using api_null_handle [of new_World None None] by (simp add: toNative_def)

section \<open>Closing a connection\<close>

lemma closeUser_disposes: "c_userDataDisposed (closeUser e c)"
  by (simp add: closeUser_def emit_def Let_def)


section \<open>The world\<close>

text \<open>Every cell that holds a reference refers to a socket, or to a connection of a socket, that exists.\<close>

definition world_inv :: "World \<Rightarrow> bool" where
  "world_inv w \<longleftrightarrow> list_all sock_inv (wd_sockets w)
     \<and> (\<forall>h s. wd_socketHandles w h = Some (Some s) \<longrightarrow> s < length (wd_sockets w))
     \<and> (\<forall>h s r. wd_connectionHandles w h = Some (Some (s, r)) \<longrightarrow> s < length (wd_sockets w) \<and> r < length (sk_store (wd_sockets w ! s)))"

inductive api_trans :: "compressor \<Rightarrow> decompressor \<Rightarrow> World \<Rightarrow> World \<Rightarrow> bool" for z u where
  api_socket: "api_trans z u w (snd (mrudp_socket w))"
| api_listen: "mrudp_listen hs ud sa ah ch w = Some (e, w') \<Longrightarrow> api_trans z u w w'"
| api_close_socket: "mrudp_close_socket hs w = Some (e, w') \<Longrightarrow> api_trans z u w w'"
| api_connect: "length longID = 16 \<Longrightarrow> (\<And>s. s < length (wd_sockets w) \<Longrightarrow> sk_connections (wd_sockets w ! s) longID = None) \<Longrightarrow>
    mrudp_connect_ex env now longID hs a options ud rh ch w = Some (hc, w') \<Longrightarrow> api_trans z u w w'"
| api_accept: "(\<And>c. toNative (wd_connectionHandles w) hc = Some (Some c) \<Longrightarrow> \<not> c_closed (connection_of c w)) \<Longrightarrow>
    mrudp_accept_ex hc options ud rh ch w = Some (e, w') \<Longrightarrow> api_trans z u w w'"
| api_send: "mrudp_send z now hc buffer reliable w = Some (e, w') \<Longrightarrow> api_trans z u w w'"
| api_close: "mrudp_close_connection z now hc w = Some (e, w') \<Longrightarrow> api_trans z u w w'"
| api_options: "mrudp_connection_options_set hc options w = Some (e, w') \<Longrightarrow> api_trans z u w w'"
| api_given: "s < length (wd_sockets w) \<Longrightarrow> r < length (sk_store (wd_sockets w ! s)) \<Longrightarrow> api_trans z u w (snd (newHandle_connection (s, r) w))"
| api_runs: "s < length (wd_sockets w) \<Longrightarrow> sock_trans z u (wd_sockets w ! s) x \<Longrightarrow> api_trans z u w (update_socket s x w)"

lemma world_invD:
  assumes "world_inv w"
  shows "s < length (wd_sockets w) \<Longrightarrow> sock_inv (wd_sockets w ! s)"
    "toNative (wd_socketHandles w) hs = Some (Some s) \<Longrightarrow> s < length (wd_sockets w)"
    "toNative (wd_connectionHandles w) hc = Some (Some c) \<Longrightarrow> fst c < length (wd_sockets w)"
    "toNative (wd_connectionHandles w) hc = Some (Some c) \<Longrightarrow> snd c < length (sk_store (wd_sockets w ! fst c))"
  using assms by (cases c; auto simp: world_inv_def toNative_def list_all_length split: option.splits)+

text \<open>A socket changes and keeps its connections.\<close>

lemma update_socket_inv:
  assumes "world_inv w" and "sock_inv x" and "length (sk_store (wd_sockets w ! s)) \<le> length (sk_store x)"
  shows "world_inv (update_socket s x w)"
proof -
  have nth: "(wd_sockets w)[s := x] ! n = (if n = s then x else wd_sockets w ! n)" if "n < length (wd_sockets w)" for n
    using that by (simp add: nth_list_update)
  have "r < length (sk_store ((wd_sockets w)[s := x] ! s'))" if "s' < length (wd_sockets w)" "r < length (sk_store (wd_sockets w ! s'))" for s' r
    using that assms(3) by (auto simp: nth)
  then show ?thesis using assms(1,2) by (auto simp: world_inv_def update_socket_def list_all_length nth)
qed

lemma update_connection_inv:
  assumes "world_inv w" and "toNative (wd_connectionHandles w) hc = Some (Some c)" and "conn_inv UNIV x"
    and "c_id x = c_id (connection_of c w)" and "c_localID x = c_localID (connection_of c w)"
  shows "world_inv (update_connection c x w)"
  unfolding update_connection_def
proof (rule update_socket_inv [OF assms(1)])
  show "sock_inv (set_conn (snd c) x (wd_sockets w ! fst c))"
    using assms(3-5) world_invD(1,3) [OF assms(1)] assms(2) by (intro set_conn_inv) (simp_all add: connection_of_def)
qed (simp add: set_conn_def)

lemma connection_inv:
  assumes "world_inv w" and "toNative (wd_connectionHandles w) hc = Some (Some c)"
  shows "conn_inv UNIV (connection_of c w)"
  using sock_invD(9) [OF world_invD(1) [OF assms(1) world_invD(3) [OF assms]] world_invD(4) [OF assms]] by (simp add: connection_of_def)

lemma handles_inv:
  assumes "world_inv w"
  shows "(\<And>h s. cells h = Some (Some s) \<Longrightarrow> \<exists>h'. wd_socketHandles w h' = Some (Some s)) \<Longrightarrow> world_inv (w\<lparr>wd_socketHandles := cells\<rparr>)"
    "(\<And>h c. conns h = Some (Some c) \<Longrightarrow> \<exists>h'. wd_connectionHandles w h' = Some (Some c)) \<Longrightarrow> world_inv (w\<lparr>wd_connectionHandles := conns\<rparr>)"
  using assms by (fastforce simp: world_inv_def)+

lemma store_lengths [simp]:
  "length (sk_store (set_conn r c s)) = length (sk_store s)" "length (sk_store (sk_insert r s)) = length (sk_store s)"
  "length (sk_store (sk_erase r s)) = length (sk_store s)" "length (sk_store (sk_finish r s)) = length (sk_store s)"
  by (simp_all add: set_conn_def sk_insert_def sk_finish_def sk_erase_def releaseShortConnectionID_def)

lemma sk_connect_store:
  assumes "sk_connect env now longID a opts ud rh ch s = Some (found, s')"
  shows "length (sk_store s) \<le> length (sk_store s') \<and> (\<forall>r. found = Some r \<longrightarrow> r < length (sk_store s'))"
  using assms by (auto simp: sk_connect_def alloc_conn_def Let_def split: Option.bind_splits prod.splits if_splits dest!: acquire_cases(3))

lemma generateConnection_store:
  assumes "generateConnection env now lookup p a s = Some (found, s')"
  shows "length (sk_store s) \<le> length (sk_store s')"
  using assms by (auto simp: generateConnection_def alloc_conn_def Let_def split: Option.bind_splits prod.splits if_splits dest!: acquire_cases(3))

lemma sock_trans_store:
  assumes "sock_trans z u s s'"
  shows "length (sk_store s) \<le> length (sk_store s')"
  using assms
proof cases
  case (sk_received env p "from" now)
  then show ?thesis
    by (auto simp: sk_receive_def findOrGenerateConnection_def split: prod.splits Option.bind_splits option.splits dest!: generateConnection_store)
next
  case (sk_connected longID env now a opts ud rh ch found)
  then show ?thesis using sk_connect_store by blast
qed (auto simp: sk_listen_def sk_closeUser_def Let_def)

lemma step_connection_inv:
  assumes "world_inv w" and "toNative (wd_connectionHandles w) hc = Some (Some c)" and "conn_step UNIV (connection_of c w) x"
  shows "world_inv (update_connection c x w)"
  using assms(3) conn_step_weak [OF assms(3)] by (intro update_connection_inv [OF assms(1,2)]) (auto simp: conn_step0_def)

lemma mrudp_close_connection_inv:
  assumes "world_inv w" and "mrudp_close_connection z now hc w = Some (e, w')"
  shows "world_inv w'"
proof (cases "toNative (wd_connectionHandles w) hc")
  case (Some native)
  show ?thesis
  proof (cases native)
    case None
    with Some assms show ?thesis by (auto simp: mrudp_close_connection_def closeHandle_def toNative_def fun_upd_idem split: option.splits)
  next
    case (Some c)
    note c = \<open>toNative (wd_connectionHandles w) hc = Some native\<close> [unfolded Some]
    then obtain h where h: "hc = Some h" "wd_connectionHandles w h = Some (Some c)" by (auto simp: toNative_def split: option.splits)
    note inv = connection_inv [OF assms(1) c]
    let ?x = "closeUser MRUDP_EVENT_CLOSED (conn_close z now (connection_of c w))"
    have "conn_step UNIV (connection_of c w) ?x"
      by (rule conn_step_trans [OF conn_close_step [OF inv] closeUser_step [OF conn_stepD [OF conn_close_step [OF inv]], THEN conjunct1]])
    then have "world_inv (update_connection c ?x w)" by (rule step_connection_inv [OF assms(1) c])
    then have "world_inv ((update_connection c ?x w)\<lparr>wd_connectionHandles := (wd_connectionHandles w)(h := None)\<rparr>)"
      by (rule handles_inv(2)) (auto simp: update_connection_def update_socket_def split: if_splits)
    moreover have "w' = (update_connection c ?x w)\<lparr>wd_connectionHandles := (wd_connectionHandles w)(h := None)\<rparr>"
      using assms(2) h by (auto simp: mrudp_close_connection_def closeHandle_def deleteHandle_def update_connection_def update_socket_def connection_of_def)
    ultimately show ?thesis by simp
  qed
qed (use assms in \<open>auto simp: mrudp_close_connection_def closeHandle_def toNative_def split: option.splits\<close>)

lemma with_connection_cases:
  assumes "with_connection hc w f = Some (e, w')"
  obtains "w' = w" | c where "toNative (wd_connectionHandles w) hc = Some (Some c)" "(e, w') = f c"
  using assms by (auto simp: with_connection_def split: option.splits)

lemma with_socket_cases:
  assumes "with_socket hs w f = Some (e, w')"
  obtains "w' = w" | s where "toNative (wd_socketHandles w) hs = Some (Some s)" "(e, w') = f s"
  using assms by (auto simp: with_socket_def split: option.splits)

lemma connection_ops_inv:
  assumes "world_inv w"
  shows "mrudp_send z now hc buffer reliable w = Some (e, w') \<Longrightarrow> world_inv w'"
    "mrudp_connection_options_set hc options w = Some (e, w') \<Longrightarrow> world_inv w'"
    "mrudp_accept_ex hc opts ud rh ch w = Some (e, w') \<Longrightarrow>
      (\<And>c. toNative (wd_connectionHandles w) hc = Some (Some c) \<Longrightarrow> \<not> c_closed (connection_of c w)) \<Longrightarrow> world_inv w'"
proof -
  show "world_inv w'" if "mrudp_send z now hc buffer reliable w = Some (e, w')"
    using that unfolding mrudp_send_def
  proof (cases rule: with_connection_cases)
    case (2 c)
    then show ?thesis using step_connection_inv [OF assms 2(1) user_send_step [OF connection_inv [OF assms 2(1)]]]
      by (simp add: case_prod_beta)
  qed (use assms in simp)
  show "world_inv w'" if "mrudp_connection_options_set hc options w = Some (e, w')"
    using that unfolding mrudp_connection_options_set_def
  proof (cases rule: with_connection_cases)
    case (2 c)
    then show ?thesis using update_connection_inv [OF assms 2(1), of "(connection_of c w)\<lparr>c_options := options\<rparr>"] connection_inv [OF assms 2(1)]
      by (simp add: conn_inv_def user_inv_def)
  qed (use assms in simp)
  show "world_inv w'" if accept: "mrudp_accept_ex hc opts ud rh ch w = Some (e, w')"
    and live: "\<And>c. toNative (wd_connectionHandles w) hc = Some (Some c) \<Longrightarrow> \<not> c_closed (connection_of c w)"
    using accept unfolding mrudp_accept_ex_def
  proof (cases rule: with_connection_cases)
    case (2 c)
    then show ?thesis
      using update_connection_inv [OF assms 2(1) openUser_inv [OF connection_inv [OF assms 2(1)] live [OF 2(1)]]]
      by (simp add: openUser_def Let_def split: option.splits)
  qed (use assms in simp)
qed

lemma socket_ops_inv:
  assumes "world_inv w"
  shows "mrudp_listen hs ud sa ah ch w = Some (e, w') \<Longrightarrow> world_inv w'" "mrudp_close_socket hs w = Some (e, w') \<Longrightarrow> world_inv w'"
proof -
  show "world_inv w'" if "mrudp_listen hs ud sa ah ch w = Some (e, w')"
    using that unfolding mrudp_listen_def
  proof (cases rule: with_socket_cases)
    case (2 s)
    then show ?thesis using update_socket_inv [OF assms sk_listen_inv [OF world_invD(1) [OF assms world_invD(2) [OF assms 2(1)]]]]
      by (simp add: sk_listen_def)
  qed (use assms in simp)
  show "world_inv w'" if close: "mrudp_close_socket hs w = Some (e, w')"
  proof (cases "toNative (wd_socketHandles w) hs")
    case (Some native)
    show ?thesis
    proof (cases native)
      case None
      with Some close assms show ?thesis by (auto simp: mrudp_close_socket_def closeHandle_def toNative_def fun_upd_idem split: option.splits)
    next
      case (Some s)
      note s = \<open>toNative (wd_socketHandles w) hs = Some native\<close> [unfolded Some]
      then obtain h where h: "hs = Some h" "wd_socketHandles w h = Some (Some s)" by (auto simp: toNative_def split: option.splits)
      let ?w = "update_socket s (sk_closeUser (wd_sockets w ! s)) w"
      have "world_inv ?w"
        using sk_closeUser_inv [OF world_invD(1) [OF assms world_invD(2) [OF assms s]]]
        by (intro update_socket_inv [OF assms]) (simp_all add: sk_closeUser_def Let_def)
      then have "world_inv (?w\<lparr>wd_socketHandles := (wd_socketHandles w)(h := None)\<rparr>)"
        by (rule handles_inv(1)) (auto simp: update_socket_def split: if_splits)
      moreover have "w' = ?w\<lparr>wd_socketHandles := (wd_socketHandles w)(h := None)\<rparr>"
        using close h by (auto simp: mrudp_close_socket_def closeHandle_def deleteHandle_def update_socket_def)
      ultimately show ?thesis by simp
    qed
  qed (use close in \<open>auto simp: mrudp_close_socket_def closeHandle_def toNative_def split: option.splits\<close>)
qed

lemma new_handle_inv:
  assumes "world_inv w"
  shows "s < length (wd_sockets w) \<Longrightarrow> r < length (sk_store (wd_sockets w ! s)) \<Longrightarrow> world_inv (snd (newHandle_connection (s, r) w))"
    "s < length (wd_sockets w) \<Longrightarrow> world_inv (snd (newHandle_socket s w))" "world_inv (snd (mrudp_socket w))"
  using assms new_Socket_inv
  by (auto simp: world_inv_def newHandle_connection_def newHandle_socket_def mrudp_socket_def nth_append less_Suc_eq list_all_iff split: if_splits)

lemma mrudp_connect_ex_inv:
  assumes "world_inv w" and "length longID = 16" and "\<And>s. s < length (wd_sockets w) \<Longrightarrow> sk_connections (wd_sockets w ! s) longID = None"
    and "mrudp_connect_ex env now longID hs a options ud rh ch w = Some (hc, w')"
  shows "world_inv w'"
proof (cases "\<exists>s. toNative (wd_socketHandles w) hs = Some (Some s)")
  case True
  then obtain s where s: "toNative (wd_socketHandles w) hs = Some (Some s)" by blast
  note lt = world_invD(2) [OF assms(1) s]
  from assms(4) s obtain found x where x: "sk_connect env now longID a options ud rh ch (wd_sockets w ! s) = Some (found, x)"
    and w': "(hc, w') = (case found of None \<Rightarrow> (None, update_socket s x w) | Some r \<Rightarrow> newHandle_connection (s, r) (update_socket s x w))"
    by (auto simp: mrudp_connect_ex_def Let_def split: Option.bind_splits option.splits)
  note st = sk_connect_store [OF x]
  have inv: "world_inv (update_socket s x w)"
    using sk_connect_inv [OF world_invD(1) [OF assms(1) lt] assms(2) assms(3) [OF lt] x] st by (intro update_socket_inv [OF assms(1)]) simp_all
  show ?thesis
  proof (cases found)
    case (Some r)
    then have "w' = snd (newHandle_connection (s, r) (update_socket s x w))" using w' by (metis option.simps(5) snd_conv)
    then show ?thesis using new_handle_inv(1) [OF inv, of s r] st Some lt by (simp add: update_socket_def)
  qed (use w' inv in simp)
qed (use assms in \<open>auto simp: mrudp_connect_ex_def split: option.splits\<close>)

interpretation api: invariant_system "api_trans z u" world_inv for z u
proof
  fix w w' assume inv: "world_inv w" and step: "api_trans z u w w'"
  from step show "world_inv w'"
  proof cases
    case (api_runs s x)
    then show ?thesis
      using update_socket_inv [OF inv] sock_trans_inv [OF world_invD(1) [OF inv]] sock_trans_store by blast
  qed (use inv in \<open>auto intro: socket_ops_inv connection_ops_inv new_handle_inv mrudp_connect_ex_inv mrudp_close_connection_inv\<close>)
qed


text \<open>A program that has opened a socket and connected.\<close>

lemma example_world:
  "\<exists>w c. (api_trans (\<lambda>_ _ _. None) (\<lambda>_ _. []))\<^sup>*\<^sup>* new_World w \<and> wd_connectionHandles w 1 = Some (Some c)"
proof -
  define w1 where "w1 = snd (mrudp_socket new_World)"
  have w1: "wd_sockets w1 = [new_Socket]" "wd_socketHandles w1 0 = Some (Some 0)" "wd_fresh w1 = 1"
    by (simp_all add: w1_def mrudp_socket_def new_World_def newHandle_socket_def)
  have "acquire_loop {} (7 :: ShortConnectionID) = Some 7" by (subst acquire_loop.simps) simp
  then obtain r x where x: "sk_connect example_env 0 (replicate 16 1) (replicate 28 2) None 5 True True new_Socket = Some (Some r, x)"
    by (simp add: sk_connect_def acquireShortConnectionID_def new_Socket_def example_env_def conn_open_def alloc_conn_def Let_def)
  define w2 where "w2 = snd (newHandle_connection (0, r) (update_socket 0 x w1))"
  have "mrudp_connect_ex example_env 0 (replicate 16 1) (Some 0) (replicate 28 2) None 5 True True w1 = Some (Some 1, w2)"
    using w1 x by (simp add: mrudp_connect_ex_def toNative_def w2_def newHandle_connection_def update_socket_def)
  then have "api_trans (\<lambda>_ _ _. None) (\<lambda>_ _. []) w1 w2"
    by (rule api_trans.api_connect [rotated 2]) (simp_all add: w1 new_Socket_def)
  moreover have "api_trans (\<lambda>_ _ _. None) (\<lambda>_ _. []) new_World w1" unfolding w1_def by (rule api_trans.api_socket)
  ultimately have "(api_trans (\<lambda>_ _ _. None) (\<lambda>_ _. []))\<^sup>*\<^sup>* new_World w2" by (meson r_into_rtranclp rtranclp.rtrancl_into_rtrancl)
  moreover have "wd_connectionHandles w2 1 = Some (Some (0, r))" using w1 by (simp add: w2_def newHandle_connection_def update_socket_def)
  ultimately show ?thesis by blast
qed



end
