(* ===== verification/Services.thy ===== *)
theory Services
  imports Api Asio
begin

text \<open>
  A service, which owns the worker threads and the scheduler: \<^verbatim>\<open>mrudp/Service.cpp\<close>, \<^verbatim>\<open>ServiceImp\<close> of \<^verbatim>\<open>mrudp/imp/Asio.cpp\<close>, and \<^verbatim>\<open>mrudp_service_ex\<close> and
  \<^verbatim>\<open>mrudp_close_service\<close> of \<^verbatim>\<open>mrudp/mrudp.cpp\<close>. A service is destroyed when nothing points to it any more: neither a handle of its own nor a socket, and a socket is there as long
  as a handle, a connection in its tables or a connection handle points to it.
\<close>

section \<open>Worker threads\<close>

text \<open>A thread that is not joinable has been joined or detached; the destructor of one that is ends the program.\<close>

record Runner =
  rn_thread :: nat
  rn_joinable :: bool

record ServiceImp =
  sp_options :: OptionsImp
  sp_working :: bool
  sp_stopped :: bool
  sp_runners :: "Runner list"

definition new_ServiceImp :: "OptionsImp option \<Rightarrow> ServiceImp" where
  "new_ServiceImp options = \<lparr>sp_options = service_options options, sp_working = False, sp_stopped = False, sp_runners = []\<rparr>"

text \<open>The conditional expression has the type \<^verbatim>\<open>unsigned\<close>, that of \<^verbatim>\<open>hardware_concurrency\<close>.\<close>

definition processor_count :: "u32 \<Rightarrow> OptionsImp \<Rightarrow> u32" where
  "processor_count hardware_concurrency options =
     (if io_thread_quantity options \<noteq> 0 then of_int (io_thread_quantity options) else hardware_concurrency)"

definition sp_start :: "u32 \<Rightarrow> nat \<Rightarrow> ServiceImp \<Rightarrow> ServiceImp" where
  "sp_start hardware_concurrency first_thread sp =
     (if \<not> sp_working sp
      then sp\<lparr>sp_working := True,
              sp_runners := sp_runners sp @ map (\<lambda>i. \<lparr>rn_thread = first_thread + i, rn_joinable = True\<rparr>)
                [0..<unat (processor_count hardware_concurrency (sp_options sp))]\<rparr>
      else sp)"

lemma processor_count_negative:
  assumes "io_thread_quantity options = - int n" and "0 < n" and "n \<le> 128"
  shows "unat (processor_count hardware_concurrency options) = 2 ^ 32 - n"
proof -
  have "(- int n) mod 2 ^ 32 = 2 ^ 32 - int n" using assms(2,3) by (simp add: zmod_zminus1_eq_if)
  then have "uint (of_int (- int n) :: u32) = 2 ^ 32 - int n" by (simp only: unsigned_of_int take_bit_eq_mod len_of_numeral_defs) simp
  then have "unat (of_int (- int n) :: u32) = nat (2 ^ 32 - int n)" by (simp only: unat_eq_nat_uint)
  then show ?thesis using assms by (simp add: processor_count_def nat_diff_distrib)
qed

datatype thread_end = Joined nat | Detached nat

fun end_runner :: "nat \<Rightarrow> Runner \<Rightarrow> thread_end list" where
  "end_runner this_thread runner =
     (if rn_joinable runner then [if rn_thread runner \<noteq> this_thread then Joined (rn_thread runner) else Detached (rn_thread runner)] else [])"

definition sp_stop :: "nat \<Rightarrow> ServiceImp \<Rightarrow> thread_end list \<times> ServiceImp" where
  "sp_stop this_thread sp =
     (if sp_working sp
      then (concat (map (end_runner this_thread) (sp_runners sp)),
            sp\<lparr>sp_working := False, sp_stopped := True, sp_runners := map (rn_joinable_update (\<lambda>_. False)) (sp_runners sp)\<rparr>)
      else ([], sp))"

section \<open>The service\<close>

text \<open>\<open>sv_close\<close>: a caller waits for the end of the service; \<open>sv_closed\<close> is what it waits for.\<close>

record Service =
  sv_imp :: "ServiceImp option"
  sv_scheduler :: bool
  sv_close :: bool
  sv_closed :: bool

definition new_Service :: "OptionsImp option \<Rightarrow> Service" where
  "new_Service options = \<lparr>sv_imp = Some (new_ServiceImp options), sv_scheduler = True, sv_close = False, sv_closed = False\<rparr>"

definition sv_open :: "u32 \<Rightarrow> nat \<Rightarrow> Service \<Rightarrow> Service" where
  "sv_open hardware_concurrency first_thread sv = sv\<lparr>sv_imp := map_option (sp_start hardware_concurrency first_thread) (sv_imp sv)\<rparr>"

text \<open>
  \<^verbatim>\<open>~Service\<close>: stopping ends the threads, and dropping the implementation runs \<^verbatim>\<open>~ServiceImp\<close>, which stops again and destroys the list of threads. \<open>None\<close> as the result
  is the end of the program, where that list has a joinable thread.
\<close>

definition destroy_ServiceImp :: "nat \<Rightarrow> ServiceImp \<Rightarrow> thread_end list option" where
  "destroy_ServiceImp this_thread sp =
     (let (ends, sp1) = sp_stop this_thread sp in if list_all (\<lambda>r. \<not> rn_joinable r) (sp_runners sp1) then Some ends else None)"

definition destroy_Service :: "nat \<Rightarrow> Service \<Rightarrow> (thread_end list \<times> Service) option" where
  "destroy_Service this_thread sv =
     (case sv_imp sv of
        None \<Rightarrow> Some ([], sv)
      | Some sp \<Rightarrow>
          (let (ends, sp1) = sp_stop this_thread sp
           in case destroy_ServiceImp this_thread sp1 of
                None \<Rightarrow> None
              | Some ends1 \<Rightarrow>
                  Some (ends @ ends1, sv\<lparr>sv_scheduler := False, sv_imp := None, sv_closed := (if sv_close sv then True else sv_closed sv)\<rparr>)))"

text \<open>A service that has been opened, or never was, can be destroyed by any thread; all its threads end, and none waits for itself.\<close>

definition service_inv :: "Service \<Rightarrow> bool" where
  "service_inv sv \<longleftrightarrow> (\<forall>sp. sv_imp sv = Some sp \<longrightarrow> (sp_working sp \<longleftrightarrow> \<not> sp_stopped sp) \<and> (\<not> sp_working sp \<longrightarrow> list_all (\<lambda>r. \<not> rn_joinable r) (sp_runners sp))
     \<and> (sp_working sp \<longrightarrow> list_all rn_joinable (sp_runners sp)))"

lemma sp_stop_runners: "sp_working sp \<Longrightarrow> list_all (\<lambda>r. \<not> rn_joinable r) (sp_runners (snd (sp_stop this sp)))"
  by (simp add: sp_stop_def list_all_iff)

lemma ends_threads:
  assumes "list_all rn_joinable rs"
  shows "concat (map (end_runner this) rs) = map (\<lambda>t. if t \<noteq> this then Joined t else Detached t) (map rn_thread rs)"
  using assms by (induction rs) auto

lemma destroy_Service_ends:
  assumes "sv_imp sv = Some sp" and "sp_working sp" and "list_all rn_joinable (sp_runners sp)"
  shows "destroy_Service this sv = Some (map (\<lambda>t. if t \<noteq> this then Joined t else Detached t) (map rn_thread (sp_runners sp)),
    sv\<lparr>sv_scheduler := False, sv_imp := None, sv_closed := (if sv_close sv then True else sv_closed sv)\<rparr>)"
proof -
  have "sp_stop this (snd (sp_stop this sp)) = ([], snd (sp_stop this sp))" using assms(2) by (simp add: sp_stop_def)
  then have "destroy_ServiceImp this (snd (sp_stop this sp)) = Some []"
    using sp_stop_runners [OF assms(2), of this] by (simp add: destroy_ServiceImp_def)
  moreover have "fst (sp_stop this sp) = map (\<lambda>t. if t \<noteq> this then Joined t else Detached t) (map rn_thread (sp_runners sp))"
    using assms(2) ends_threads [OF assms(3), of this] by (simp add: sp_stop_def)
  ultimately show ?thesis using assms(1) by (simp add: destroy_Service_def case_prod_beta)
qed

section \<open>Services, sockets and handles\<close>

text \<open>The program's state: the sockets and handles of \<open>Api\<close>, the implementation of each socket and the service it holds, and the services with their handles.\<close>

record Host =
  ht_world :: World
  ht_imps :: "SocketImp list"
  ht_socketService :: "nat list"
  ht_services :: "Service list"
  ht_serviceHandles :: "nat \<Rightarrow> nat option option"
  ht_fresh :: nat
  ht_threads :: nat

definition new_Host :: Host where
  "new_Host = \<lparr>ht_world = new_World, ht_imps = [], ht_socketService = [], ht_services = [], ht_serviceHandles = (\<lambda>_. None), ht_fresh = 0, ht_threads = 0\<rparr>"

text \<open>What points to a socket: a handle, a connection in one of its tables, or the handle of a connection.\<close>

definition socket_live :: "World \<Rightarrow> nat \<Rightarrow> bool" where
  "socket_live w s \<longleftrightarrow> s < length (wd_sockets w) \<and>
     ((\<exists>h < wd_fresh w. wd_socketHandles w h = Some (Some s))
      \<or> (\<exists>r < length (sk_store (wd_sockets w ! s)). let x = wd_sockets w ! s; c = conn_at x r in
           sk_connections x (c_id c) = Some r \<or> sk_receiveConnections x (c_localID c) = Some r)
      \<or> (\<exists>h < wd_fresh w. \<exists>r < length (sk_store (wd_sockets w ! s)). wd_connectionHandles w h = Some (Some (s, r))))"

definition service_pointed :: "Host \<Rightarrow> nat \<Rightarrow> bool" where
  "service_pointed h v \<longleftrightarrow> (\<exists>k < ht_fresh h. ht_serviceHandles h k = Some (Some v))
     \<or> (\<exists>s < length (ht_socketService h). ht_socketService h ! s = v \<and> socket_live (ht_world h) s)"

text \<open>\<^verbatim>\<open>~Socket\<close> calls the implementation without asking whether there is one; \<open>None\<close> is the null pointer.\<close>

definition destroy_Socket :: "SocketImp option \<Rightarrow> SocketImp option" where
  "destroy_Socket imp = (case imp of None \<Rightarrow> None | Some si \<Rightarrow> Some (si_close si))"

text \<open>The pointers that a call or a handler drops at its end destroy what nothing points to any more. \<open>this\<close> is the thread in which this happens.\<close>

definition release :: "nat \<Rightarrow> Host \<Rightarrow> Host option" where
  "release this h =
     (let ends = map (\<lambda>v. if service_pointed h v then Some ([], ht_services h ! v) else destroy_Service this (ht_services h ! v)) [0..<length (ht_services h)]
      in if list_all (\<lambda>e. e \<noteq> None) ends
         then Some (h\<lparr>ht_services := map (\<lambda>e. snd (the e)) ends,
                      ht_imps := map (\<lambda>s. if socket_live (ht_world h) s then ht_imps h ! s else the (destroy_Socket (Some (ht_imps h ! s)))) [0..<length (ht_imps h)]\<rparr>)
         else None)"

definition mrudp_service_ex :: "u32 \<Rightarrow> OptionsImp option \<Rightarrow> Host \<Rightarrow> api_handle \<times> Host" where
  "mrudp_service_ex hardware_concurrency options h =
     (let service = sv_open hardware_concurrency (ht_threads h) (new_Service options); handle = ht_fresh h
      in (Some handle, h\<lparr>ht_services := ht_services h @ [service], ht_serviceHandles := (ht_serviceHandles h)(handle \<mapsto> Some (length (ht_services h))),
                         ht_fresh := handle + 1, ht_threads := ht_threads h + unat (processor_count hardware_concurrency (service_options options))\<rparr>))"

definition mrudp_service :: "u32 \<Rightarrow> Host \<Rightarrow> api_handle \<times> Host" where
  "mrudp_service hardware_concurrency h = mrudp_service_ex hardware_concurrency None h"

text \<open>The call returns at once or, with \<^verbatim>\<open>waitForFinish\<close>, once \<open>sv_closed\<close> is set.\<close>

definition mrudp_close_service :: "nat \<Rightarrow> api_handle \<Rightarrow> bool \<Rightarrow> Host \<Rightarrow> Host option" where
  "mrudp_close_service this service waitForFinish h =
     do { (native, cells) \<leftarrow> closeHandle (ht_serviceHandles h) service;
          let h1 = h\<lparr>ht_serviceHandles := cells\<rparr>;
          case native of
            None \<Rightarrow> Some h1
          | Some v \<Rightarrow>
              release this (h1\<lparr>ht_services := (if waitForFinish then (ht_services h)[v := (ht_services h ! v)\<lparr>sv_close := True\<rparr>] else ht_services h),
                               ht_serviceHandles := deleteHandle service cells\<rparr>) }"

text \<open>
  \<^verbatim>\<open>mrudp_socket\<close> with the service it is given, which it does not check, and the address its implementation asks the system for. An exception unwinds through the
  destructor of the new socket, which has no implementation yet.
\<close>

definition mrudp_socket_on :: "AcquireAnswers list \<Rightarrow> api_handle \<Rightarrow> Address \<Rightarrow> Host \<Rightarrow> (api_handle \<times> Host) option" where
  "mrudp_socket_on answers service address h =
     (case toNative (ht_serviceHandles h) service of
        Some (Some v) \<Rightarrow>
          (case sv_imp (ht_services h ! v) of
             None \<Rightarrow> None
           | Some sp \<Rightarrow>
               (case new_SocketImp answers (sp_options sp) address of
                  None \<Rightarrow> None
                | Some (Thrown, si) \<Rightarrow> map_option (\<lambda>_. (None, h)) (destroy_Socket None)
                | Some (r, si) \<Rightarrow>
                    (let (handle, w) = mrudp_socket (ht_world h)
                     in Some (handle, h\<lparr>ht_world := w, ht_imps := ht_imps h @ [si_open si], ht_socketService := ht_socketService h @ [v]\<rparr>))))
      | _ \<Rightarrow> None)"

section \<open>The implementation of a socket through its handle\<close>

definition with_imp :: "api_handle \<Rightarrow> Host \<Rightarrow> (nat \<Rightarrow> 'a) \<Rightarrow> 'a \<Rightarrow> 'a option" where
  "with_imp handle h f failure =
     (case toNative (wd_socketHandles (ht_world h)) handle of None \<Rightarrow> None | Some None \<Rightarrow> Some failure | Some (Some s) \<Rightarrow> Some (f s))"

definition mrudp_socket_addr :: "api_handle \<Rightarrow> Host \<Rightarrow> (int \<times> Address option) option" where
  "mrudp_socket_addr socket h =
     with_imp socket h (\<lambda>s. (MRUDP_OK, Some (si_getLocalAddress (ht_imps h ! s)))) (MRUDP_ERROR_GENERAL_FAILURE, None)"

definition update_imp :: "nat \<Rightarrow> SocketImp \<Rightarrow> Host \<Rightarrow> Host" where
  "update_imp s si h = h\<lparr>ht_imps := (ht_imps h)[s := si]\<rparr>"

text \<open>\<open>None\<close> in place of the code is an exception.\<close>

definition mrudp_relocate_socket :: "nat list \<Rightarrow> AcquireAnswers list \<Rightarrow> api_handle \<Rightarrow> Address \<Rightarrow> Host \<Rightarrow> (int option \<times> Host) option" where
  "mrudp_relocate_socket between answers socket address h =
     (case toNative (wd_socketHandles (ht_world h)) socket of
        None \<Rightarrow> None
      | Some None \<Rightarrow> Some (Some MRUDP_ERROR_GENERAL_FAILURE, h)
      | Some (Some s) \<Rightarrow>
          (case si_relocate between answers address (ht_imps h ! s) of
             None \<Rightarrow> None
           | Some (Thrown, si) \<Rightarrow> Some (None, update_imp s si h)
           | Some (r, si) \<Rightarrow> Some (Some MRUDP_OK, update_imp s si h)))"

definition mrudp_close_socket_native :: "api_handle \<Rightarrow> Host \<Rightarrow> (int \<times> Host) option" where
  "mrudp_close_socket_native socket h = with_imp socket h (\<lambda>s. (MRUDP_OK, update_imp s (si_close (ht_imps h ! s)) h)) (MRUDP_ERROR_GENERAL_FAILURE, h)"

definition mrudp_close_connection_socket_native :: "compressor \<Rightarrow> timepoint \<Rightarrow> nat \<Rightarrow> api_handle \<Rightarrow> Host \<Rightarrow> (int \<times> Host) option" where
  "mrudp_close_connection_socket_native z now this connection h =
     (case toNative (wd_connectionHandles (ht_world h)) connection of
        None \<Rightarrow> None
      | Some None \<Rightarrow> Some (MRUDP_ERROR_GENERAL_FAILURE, h)
      | Some (Some (s, r)) \<Rightarrow>
          (case mrudp_close_connection z now connection (ht_world h) of
             None \<Rightarrow> None
           | Some (e, w) \<Rightarrow> map_option (\<lambda>h1. (MRUDP_OK, h1)) (release this (update_imp s (si_close (ht_imps h ! s)) (h\<lparr>ht_world := w\<rparr>)))))"


section \<open>The life of a service\<close>

definition started :: "Service \<Rightarrow> bool" where
  "started sv \<longleftrightarrow> sv_scheduler sv \<and> \<not> sv_closed sv \<and> (\<exists>sp. sv_imp sv = Some sp \<and> sp_working sp \<and> list_all rn_joinable (sp_runners sp))"

definition destroyed :: "Service \<Rightarrow> bool" where
  "destroyed sv \<longleftrightarrow> sv_imp sv = None \<and> \<not> sv_scheduler sv \<and> (sv_closed sv \<longleftrightarrow> sv_close sv)"

lemma new_Service_started: "started (sv_open hc t (new_Service options))"
  by (simp add: started_def sv_open_def new_Service_def sp_start_def new_ServiceImp_def list_all_iff)

lemma destroy_started: "started sv \<Longrightarrow> \<exists>ends sv'. destroy_Service this sv = Some (ends, sv') \<and> destroyed sv'"
  unfolding started_def using destroy_Service_ends [of sv _ this] by (auto simp: destroyed_def)

lemma destroy_destroyed: "destroyed sv \<Longrightarrow> destroy_Service this sv = Some ([], sv)"
  by (simp add: destroyed_def destroy_Service_def)

lemma destroy_defined:
  assumes "started sv \<or> destroyed sv"
  obtains ends sv' where "destroy_Service this sv = Some (ends, sv')" "destroyed sv'"
  using assms destroy_started [of sv this] destroy_destroyed [of sv this] by blast

definition handles_fresh :: "World \<Rightarrow> bool" where
  "handles_fresh w \<longleftrightarrow> (\<forall>k. wd_fresh w \<le> k \<longrightarrow> wd_socketHandles w k = None \<and> wd_connectionHandles w k = None)"

text \<open>Before the pointers a call has dropped are released, and after.\<close>

definition host_pre :: "Host \<Rightarrow> bool" where
  "host_pre h \<longleftrightarrow> world_inv (ht_world h) \<and> handles_fresh (ht_world h) \<and> length (ht_imps h) = length (wd_sockets (ht_world h))
     \<and> length (ht_socketService h) = length (wd_sockets (ht_world h)) \<and> (\<forall>k. ht_fresh h \<le> k \<longrightarrow> ht_serviceHandles h k = None)
     \<and> (\<forall>v. service_pointed h v \<longrightarrow> v < length (ht_services h) \<and> started (ht_services h ! v))
     \<and> (\<forall>v < length (ht_services h). started (ht_services h ! v) \<or> destroyed (ht_services h ! v))
     \<and> (\<forall>s < length (ht_socketService h). ht_socketService h ! s < length (ht_services h))"

definition host_inv :: "Host \<Rightarrow> bool" where
  "host_inv h \<longleftrightarrow> host_pre h \<and> (\<forall>v < length (ht_services h). \<not> service_pointed h v \<longrightarrow> destroyed (ht_services h ! v))"

lemma release_inv:
  assumes "host_pre h"
  shows "\<exists>h'. release this h = Some h' \<and> host_inv h'"
proof -
  let ?e = "\<lambda>v. if service_pointed h v then Some ([], ht_services h ! v) else destroy_Service this (ht_services h ! v)"
  let ?h = "h\<lparr>ht_services := map (\<lambda>v. snd (the (?e v))) [0..<length (ht_services h)],
    ht_imps := map (\<lambda>s. if socket_live (ht_world h) s then ht_imps h ! s else the (destroy_Socket (Some (ht_imps h ! s)))) [0..<length (ht_imps h)]\<rparr>"
  have e: "?e v \<noteq> None \<and> (\<not> service_pointed h v \<longrightarrow> destroyed (snd (the (?e v))))" if v: "v < length (ht_services h)" for v
  proof -
    have "started (ht_services h ! v) \<or> destroyed (ht_services h ! v)" using assms v by (simp add: host_pre_def)
    then obtain ends sv' where "destroy_Service this (ht_services h ! v) = Some (ends, sv')" "destroyed sv'" by (rule destroy_defined)
    then show ?thesis by simp
  qed
  have "list_all (\<lambda>e. e \<noteq> None) (map ?e [0..<length (ht_services h)])"
    unfolding list_all_length
  proof (intro allI impI)
    fix v assume "v < length (map ?e [0..<length (ht_services h)])"
    then show "map ?e [0..<length (ht_services h)] ! v \<noteq> None" using e [of v] by (cases "service_pointed h v") simp_all
  qed
  then have "release this h = Some ?h" unfolding release_def Let_def by (simp only: if_True map_map comp_def)
  moreover have p: "service_pointed ?h v = service_pointed h v" for v by (simp add: service_pointed_def)
  then have "host_pre ?h" using assms e by (simp add: host_pre_def)
  with p e have "host_inv ?h" by (simp add: host_inv_def)
  ultimately show ?thesis by blast
qed

lemma release_some: "host_pre h \<Longrightarrow> release this h = Some h' \<Longrightarrow> host_inv h'"
  using release_inv [of h this] by auto

lemma destroy_close: "destroy_Service this sv = Some (ends, sv') \<Longrightarrow> sv_close sv' = sv_close sv"
  by (auto simp: destroy_Service_def split: option.splits prod.splits)

lemma release_fields:
  assumes "release this h = Some h'"
  shows "length (ht_services h') = length (ht_services h)" "ht_serviceHandles h' = ht_serviceHandles h" "ht_fresh h' = ht_fresh h"
    "ht_socketService h' = ht_socketService h" "v < length (ht_services h) \<Longrightarrow> sv_close (ht_services h' ! v) = sv_close (ht_services h ! v)"
proof -
  let ?e = "\<lambda>v. if service_pointed h v then Some ([], ht_services h ! v) else destroy_Service this (ht_services h ! v)"
  have all: "list_all (\<lambda>e. e \<noteq> None) (map ?e [0..<length (ht_services h)])"
  proof (rule ccontr)
    assume "\<not> ?thesis"
    then have "release this h = None" unfolding release_def Let_def by (simp only: if_False)
    with assms show False by simp
  qed
  have h': "h' = h\<lparr>ht_services := map (\<lambda>e. snd (the e)) (map ?e [0..<length (ht_services h)]),
      ht_imps := map (\<lambda>s. if socket_live (ht_world h) s then ht_imps h ! s else the (destroy_Socket (Some (ht_imps h ! s)))) [0..<length (ht_imps h)]\<rparr>"
    using assms all unfolding release_def Let_def by (simp only: if_True option.inject)
  show "length (ht_services h') = length (ht_services h)" "ht_serviceHandles h' = ht_serviceHandles h" "ht_fresh h' = ht_fresh h" "ht_socketService h' = ht_socketService h"
    unfolding h' by simp_all
  assume v: "v < length (ht_services h)"
  then have "?e v \<in> set (map ?e [0..<length (ht_services h)])" unfolding set_map set_upt by (intro imageI) simp
  with all have "?e v \<noteq> None" unfolding list_all_iff by blast
  then obtain ends sv where e: "?e v = Some (ends, sv)" by fastforce
  then have "sv_close sv = sv_close (ht_services h ! v)" using destroy_close by (cases "service_pointed h v") auto
  moreover have "ht_services h' ! v = snd (the (?e v))" unfolding h' using v by simp
  ultimately show "sv_close (ht_services h' ! v) = sv_close (ht_services h ! v)" unfolding e by simp
qed

lemma host_invD: "host_inv h \<Longrightarrow> host_pre h"
  by (simp add: host_inv_def)

text \<open>Nothing reaches a socket that nothing points to.\<close>

definition reaches_live :: "World \<Rightarrow> World \<Rightarrow> bool" where
  "reaches_live w w' \<longleftrightarrow> (\<forall>s. socket_live w' s \<longrightarrow> socket_live w s)"

inductive host_trans :: "compressor \<Rightarrow> decompressor \<Rightarrow> Host \<Rightarrow> Host \<Rightarrow> bool" for z u where
  host_service: "host_trans z u h (snd (mrudp_service_ex hardware_concurrency options h))"
| host_close_service: "mrudp_close_service this hv waitForFinish h = Some h' \<Longrightarrow> host_trans z u h h'"
| host_socket: "mrudp_socket_on answers hv address h = Some (hs, h') \<Longrightarrow> host_trans z u h h'"
| host_relocate: "mrudp_relocate_socket between answers hs address h = Some (e, h') \<Longrightarrow> host_trans z u h h'"
| host_close_native: "mrudp_close_socket_native hs h = Some (e, h') \<Longrightarrow> host_trans z u h h'"
| host_close_both: "mrudp_close_connection_socket_native z now this hc h = Some (e, h') \<Longrightarrow> host_trans z u h h'"
| host_runs: "api_trans z u (ht_world h) w \<Longrightarrow> length (wd_sockets w) = length (wd_sockets (ht_world h)) \<Longrightarrow> reaches_live (ht_world h) w \<Longrightarrow>
    release this (h\<lparr>ht_world := w\<rparr>) = Some h' \<Longrightarrow> host_trans z u h h'"

lemma pointed_imps: "service_pointed (update_imp s si h) = service_pointed h"
  by (simp add: fun_eq_iff service_pointed_def update_imp_def)

lemma update_imp_inv: "host_pre h \<Longrightarrow> host_pre (update_imp s si h)" "host_inv h \<Longrightarrow> host_inv (update_imp s si h)"
  by (simp_all add: host_inv_def host_pre_def pointed_imps) (simp_all add: update_imp_def)

lemma world_pre:
  assumes "host_pre h" and "world_inv w" and "handles_fresh w" and "length (wd_sockets w) = length (wd_sockets (ht_world h))" and "reaches_live (ht_world h) w"
  shows "host_pre (h\<lparr>ht_world := w\<rparr>)"
proof -
  have "service_pointed (h\<lparr>ht_world := w\<rparr>) v \<Longrightarrow> service_pointed h v" for v
    using assms(5) by (auto simp: service_pointed_def reaches_live_def)
  with assms(1-4) show ?thesis by (simp add: host_pre_def)
qed

lemma api_trans_fresh:
  assumes "api_trans z u w w'" and "handles_fresh w"
  shows "handles_fresh w'"
  using assms
  by cases (auto simp: handles_fresh_def mrudp_socket_def newHandle_socket_def newHandle_connection_def mrudp_listen_def with_socket_def mrudp_close_socket_def closeHandle_def
      deleteHandle_def mrudp_connect_ex_def mrudp_accept_ex_def mrudp_send_def with_connection_def mrudp_close_connection_def mrudp_connection_options_set_def
      update_socket_def update_connection_def Let_def split: option.splits Option.bind_splits prod.splits if_splits)

lemma live_update:
  assumes "socket_live w s" and "socket_live (update_socket s x w) s'"
  shows "socket_live w s'"
  using assms by (cases "s' = s") (auto simp: socket_live_def update_socket_def)

text \<open>A call on the handle of a connection reaches only its socket.\<close>

lemma close_connection_reaches:
  assumes "handles_fresh w" and "world_inv w" and "mrudp_close_connection z now hc w = Some (e, w')"
  shows "reaches_live w w'" "length (wd_sockets w') = length (wd_sockets w)" "wd_socketHandles w' = wd_socketHandles w"
proof -
  have "reaches_live w w' \<and> length (wd_sockets w') = length (wd_sockets w) \<and> wd_socketHandles w' = wd_socketHandles w"
  proof (cases "toNative (wd_connectionHandles w) hc")
    case None
    with assms(3) show ?thesis by (auto simp: mrudp_close_connection_def closeHandle_def toNative_def split: option.splits)
  next
    case (Some native)
    show ?thesis
    proof (cases native)
      case None
      with Some assms(3) have "w' = w" by (auto simp: mrudp_close_connection_def closeHandle_def toNative_def fun_upd_idem split: option.splits)
      then show ?thesis by (simp add: reaches_live_def)
    next
      case (Some c)
      note c = \<open>toNative (wd_connectionHandles w) hc = Some native\<close> [unfolded Some]
      then obtain k where k: "hc = Some k" "wd_connectionHandles w k = Some (Some c)" by (auto simp: toNative_def split: option.splits)
      have "k < wd_fresh w" using assms(1) k(2) by (metis handles_fresh_def not_le_imp_less option.distinct(1))
      then have live: "socket_live w (fst c)" using k(2) world_invD(3,4) [OF assms(2) c] by (cases c) (auto simp: socket_live_def)
      obtain x where w': "w' = (update_socket (fst c) x w)\<lparr>wd_connectionHandles := (wd_connectionHandles w)(k := None)\<rparr>"
        using assms(3) k by (auto simp: mrudp_close_connection_def closeHandle_def deleteHandle_def update_connection_def update_socket_def)
      have "socket_live w' s \<Longrightarrow> socket_live (update_socket (fst c) x w) s" for s
        unfolding w' by (auto simp: socket_live_def update_socket_def split: if_splits)
      then have "reaches_live w w'" using live_update [OF live] unfolding reaches_live_def by blast
      then show ?thesis by (simp add: w' update_socket_def)
    qed
  qed
  then show "reaches_live w w'" "length (wd_sockets w') = length (wd_sockets w)" "wd_socketHandles w' = wd_socketHandles w" by simp_all
qed

lemma close_both_inv:
  assumes "host_inv h" and "mrudp_close_connection_socket_native z now this hc h = Some (e, h')"
  shows "host_inv h'"
proof (cases "\<exists>s r. toNative (wd_connectionHandles (ht_world h)) hc = Some (Some (s, r))")
  case True
  then obtain s r where sr: "toNative (wd_connectionHandles (ht_world h)) hc = Some (Some (s, r))" by blast
  obtain e' w where c: "mrudp_close_connection z now hc (ht_world h) = Some (e', w)"
    and r: "release this (update_imp s (si_close (ht_imps h ! s)) (h\<lparr>ht_world := w\<rparr>)) = Some h'"
    using assms(2) sr by (auto simp: mrudp_close_connection_socket_native_def split: option.splits)
  have pre: "host_pre h" "world_inv (ht_world h)" "handles_fresh (ht_world h)" using host_invD [OF assms(1)] by (simp_all add: host_pre_def)
  have "host_pre (h\<lparr>ht_world := w\<rparr>)"
    using close_connection_reaches(1,2) [OF pre(3,2) c] mrudp_close_connection_inv [OF pre(2) c] api_trans_fresh [OF api_trans.api_close [OF c] pre(3)]
    by (intro world_pre [OF pre(1)]) simp_all
  then show ?thesis by (rule release_some [OF update_imp_inv(1) r])
next
  case False
  with assms show ?thesis by (auto simp: mrudp_close_connection_socket_native_def split: option.splits prod.splits)
qed

text \<open>A new cell, and one that is not there.\<close>

lemma ex_fresh: "(\<exists>k < Suc n. (m(n \<mapsto> x)) k = Some y) \<longleftrightarrow> x = y \<or> (\<exists>k < n. m k = Some y)"
  using less_irrefl by (fastforce simp: less_Suc_eq)

lemma ex_none: "m n = None \<Longrightarrow> (\<exists>k < Suc n. \<exists>r < N. m k = Some (y r)) \<longleftrightarrow> (\<exists>k < n. \<exists>r < N. m k = Some (y r))"
  by (auto simp: less_Suc_eq)

lemma service_ex_inv:
  assumes "host_inv h"
  shows "host_inv (snd (mrudp_service_ex hc options h))"
proof -
  let ?h = "snd (mrudp_service_ex hc options h)" and ?n = "length (ht_services h)"
  have pre: "host_pre h" by (rule host_invD [OF assms])
  have p: "service_pointed ?h v \<longleftrightarrow> v = ?n \<or> service_pointed h v" for v
    by (simp add: service_pointed_def mrudp_service_ex_def Let_def ex_fresh eq_commute [of _ v] del: fun_upd_apply)
  have "started (ht_services ?h ! ?n)" using new_Service_started by (simp add: mrudp_service_ex_def Let_def nth_append)
  moreover have "ht_services ?h ! v = ht_services h ! v" if "v < ?n" for v using that by (simp add: mrudp_service_ex_def Let_def nth_append)
  moreover have "length (ht_services ?h) = Suc ?n" "ht_world ?h = ht_world h" "ht_imps ?h = ht_imps h" "ht_socketService ?h = ht_socketService h"
    "\<forall>k. ht_fresh ?h \<le> k \<longrightarrow> ht_serviceHandles ?h k = None"
    using pre by (simp_all add: mrudp_service_ex_def Let_def host_pre_def)
  ultimately show ?thesis using assms pre unfolding host_inv_def host_pre_def p by (auto simp: less_Suc_eq)
qed

lemma close_service_inv:
  assumes "host_inv h" and "mrudp_close_service this hv waitForFinish h = Some h'"
  shows "host_inv h'"
proof (cases "\<exists>k v. hv = Some k \<and> ht_serviceHandles h k = Some (Some v)")
  case True
  then obtain k v where k: "hv = Some k" "ht_serviceHandles h k = Some (Some v)" by blast
  let ?sv = "if waitForFinish then (ht_services h)[v := (ht_services h ! v)\<lparr>sv_close := True\<rparr>] else ht_services h"
  let ?h = "h\<lparr>ht_services := ?sv, ht_serviceHandles := (ht_serviceHandles h)(k := None)\<rparr>"
  have r: "release this ?h = Some h'" using assms(2) k by (simp add: mrudp_close_service_def closeHandle_def deleteHandle_def)
  have pre: "host_pre h" by (rule host_invD [OF assms(1)])
  have "k < ht_fresh h" using pre k(2) by (metis host_pre_def not_le_imp_less option.distinct(1))
  then have "service_pointed h v" using k(2) by (auto simp: service_pointed_def)
  then have v: "v < length (ht_services h)" "started (ht_services h ! v)" using pre by (simp_all add: host_pre_def)
  have p: "service_pointed ?h u \<Longrightarrow> service_pointed h u" for u by (auto simp: service_pointed_def split: if_splits)
  have st: "started (?sv ! u) \<longleftrightarrow> started (ht_services h ! u)" "destroyed (?sv ! u) \<longleftrightarrow> destroyed (ht_services h ! u)" for u
    using v by (cases "u = v"; simp add: started_def destroyed_def; auto)+
  have "length ?sv = length (ht_services h)" by simp
  then have "host_pre ?h" using pre p st unfolding host_pre_def by simp
  then show ?thesis by (rule release_some [OF _ r])
next
  case False
  then have "h' = h" using assms(2) by (auto simp: mrudp_close_service_def closeHandle_def fun_upd_idem split: option.splits Option.bind_splits)
  with assms(1) show ?thesis by simp
qed

lemma socket_on_inv:
  assumes "host_inv h" and "mrudp_socket_on answers hv address h = Some (hs, h')"
  shows "host_inv h'"
proof -
  obtain v r si where v: "toNative (ht_serviceHandles h) hv = Some (Some v)"
    and h': "h' = h\<lparr>ht_world := snd (mrudp_socket (ht_world h)), ht_imps := ht_imps h @ [si_open si], ht_socketService := ht_socketService h @ [v]\<rparr>"
    using assms(2) by (auto simp: mrudp_socket_on_def destroy_Socket_def split: option.splits prod.splits acquired.splits)
  let ?w = "ht_world h" and ?n = "length (wd_sockets (ht_world h))"
  have pre: "host_pre h" by (rule host_invD [OF assms(1)])
  obtain k where k: "hv = Some k" "ht_serviceHandles h k = Some (Some v)" using v by (auto simp: toNative_def split: option.splits)
  have "k < ht_fresh h" using pre k(2) by (metis host_pre_def not_le_imp_less option.distinct(1))
  then have pv: "service_pointed h v" using k(2) by (auto simp: service_pointed_def)
  have inv: "world_inv ?w" "handles_fresh ?w" "length (ht_socketService h) = ?n" using pre by (simp_all add: host_pre_def)
  have live: "socket_live (snd (mrudp_socket ?w)) s \<longleftrightarrow> s = ?n \<or> socket_live ?w s" if "s \<le> ?n" for s
  proof (cases "s = ?n")
    case True
    then show ?thesis by (auto simp: socket_live_def mrudp_socket_def newHandle_socket_def)
  next
    case False
    then show ?thesis using that inv(2)
      by (simp add: socket_live_def mrudp_socket_def newHandle_socket_def nth_append ex_fresh ex_none handles_fresh_def del: fun_upd_apply)
  qed
  have p: "service_pointed h' u \<longleftrightarrow> service_pointed h u" for u
  proof
    assume "service_pointed h' u"
    then consider "\<exists>k < ht_fresh h. ht_serviceHandles h k = Some (Some u)"
      | s where "s < Suc ?n" "(ht_socketService h @ [v]) ! s = u" "socket_live (snd (mrudp_socket ?w)) s"
      using inv(3) by (auto simp: service_pointed_def h')
    then show "service_pointed h u"
    proof cases
      case 2
      show ?thesis
      proof (cases "s = ?n")
        case True
        then show ?thesis using 2(2) pv inv(3) by (simp add: nth_append)
      next
        case False
        then show ?thesis using 2 live [of s] inv(3) by (auto simp: service_pointed_def nth_append)
      qed
    qed (simp add: service_pointed_def)
  next
    assume "service_pointed h u"
    then show "service_pointed h' u" using live inv(3) by (fastforce simp: service_pointed_def h' nth_append)
  qed
  have "world_inv (snd (mrudp_socket ?w))" "handles_fresh (snd (mrudp_socket ?w))"
    using new_handle_inv(3) [OF inv(1)] api_trans_fresh [OF api_trans.api_socket inv(2)] by simp_all
  moreover have "length (wd_sockets (snd (mrudp_socket ?w))) = Suc ?n" by (simp add: mrudp_socket_def newHandle_socket_def)
  moreover have "v < length (ht_services h)" using pre pv by (simp add: host_pre_def)
  ultimately show ?thesis using assms(1) pre unfolding host_inv_def host_pre_def p by (auto simp: h' nth_append)
qed

interpretation host: invariant_system "host_trans z u" host_inv for z u
proof
  fix h h' assume inv: "host_inv h" and step: "host_trans z u h h'"
  from step show "host_inv h'"
  proof cases
    case (host_relocate between answers hs address e)
    then show ?thesis using inv update_imp_inv(2) [OF inv]
      by (auto simp: mrudp_relocate_socket_def split: option.splits prod.splits acquired.splits)
  next
    case (host_close_native hs e)
    then show ?thesis using inv update_imp_inv(2) [OF inv] by (auto simp: mrudp_close_socket_native_def with_imp_def split: option.splits)
  next
    case (host_runs w this)
    have pre: "host_pre h" "world_inv (ht_world h)" "handles_fresh (ht_world h)" using host_invD [OF inv] by (simp_all add: host_pre_def)
    have "world_inv w" using api.inv_run [OF r_into_rtranclp [of "api_trans z u", OF host_runs(1)] pre(2)] .
    then show ?thesis using world_pre [OF pre(1) _ api_trans_fresh [OF host_runs(1) pre(3)] host_runs(2,3)] release_some [OF _ host_runs(4)] by blast
  qed (use inv in \<open>auto intro: service_ex_inv close_service_inv socket_on_inv close_both_inv\<close>)
qed

lemma new_Host_inv: "host_inv new_Host"
  by (simp add: host_inv_def host_pre_def new_Host_def world_inv_def new_World_def handles_fresh_def service_pointed_def)



text \<open>
  C18: What becomes of an address the system refuses. Opening a socket throws, and the destructor of the unfinished socket uses an implementation that is not there. Relocating
  one throws and leaves it not running. And where, for overlapped sockets, a later step fails, the call reports success although the handle has no
  port.
\<close>

theorem address_refused:
  assumes "toNative (ht_serviceHandles h) hv = Some (Some v)" and "toNative (wd_socketHandles (ht_world h)) hs = Some (Some s)" and "s < length (ht_imps h)"
    and "aq_close refused" and "aq_open refused" and "\<not> aq_bind refused"
    and "io_overlapped_io (si_options (ht_imps h ! s)) = 1" and "aq_close late" and "aq_open late" and "aq_bind late" and "aq_local_endpoint late"
    and "aq_open_overlapped late" and "\<not> aq_set_option late"
  shows "mrudp_socket_on (refused # turns) hv address h = None
    \<and> (\<exists>h'. mrudp_relocate_socket between (refused # turns) hs address h = Some (None, h') \<and> \<not> si_running (ht_imps h' ! s))
    \<and> (\<exists>h'. mrudp_relocate_socket between (late # turns) hs address h = Some (Some MRUDP_OK, h') \<and> si_running (ht_imps h' ! s)
         \<and> mrudp_socket_addr hs h' = Some (MRUDP_OK, Some (toAddr (any_endpoint (aq_bound late)))))"
proof (intro conjI)
  show "mrudp_socket_on (refused # turns) hv address h = None"
    using assms(1,4-6) by (auto simp: mrudp_socket_on_def new_SocketImp_def destroy_Socket_def acquire_defs split: option.splits)
  have off: "\<not> si_running (si_close (ht_imps h ! s))" by (simp add: si_close_def)
  then show "\<exists>h'. mrudp_relocate_socket between (refused # turns) hs address h = Some (None, h') \<and> \<not> si_running (ht_imps h' ! s)"
    using assms(2-6) by (simp add: mrudp_relocate_socket_def si_relocate_def update_imp_def acquire_defs)
  have o: "si_options (si_close (ht_imps h ! s)) = si_options (ht_imps h ! s)" by (simp add: si_close_def)
  show "\<exists>h'. mrudp_relocate_socket between (late # turns) hs address h = Some (Some MRUDP_OK, h') \<and> si_running (ht_imps h' ! s)
         \<and> mrudp_socket_addr hs h' = Some (MRUDP_OK, Some (toAddr (any_endpoint (aq_bound late))))"
    using assms(2,3,7-13) o
    by (simp add: mrudp_relocate_socket_def si_relocate_def update_imp_def mrudp_socket_addr_def with_imp_def si_getLocalAddress_def si_open_def acquire_defs)
qed

definition overlapped_options :: OptionsImp where
  "overlapped_options = systemDefaultOptions\<lparr>io_overlapped_io := 1\<rparr>"

definition example_host :: Host where
  "example_host = snd (the (mrudp_socket_on [example_answers] (Some 0) (replicate 28 2) (snd (mrudp_service_ex 8 (Some overlapped_options) new_Host))))"

theorem address_refused_witness:
  "mrudp_socket_on [example_answers\<lparr>aq_bind := False\<rparr>] (Some 0) (replicate 28 2) example_host = None
   \<and> (\<exists>h'. mrudp_relocate_socket [] [example_answers\<lparr>aq_set_option := False\<rparr>] (Some 0) (replicate 28 2) example_host = Some (Some MRUDP_OK, h')
        \<and> mrudp_socket_addr (Some 0) h' = Some (MRUDP_OK, Some (toAddr (V4 [0, 0, 0, 0] 0))))"
proof -
  have "toNative (ht_serviceHandles example_host) (Some 0) = Some (Some 0) \<and> toNative (wd_socketHandles (ht_world example_host)) (Some 0) = Some (Some 0)
    \<and> length (ht_imps example_host) = 1 \<and> io_overlapped_io (si_options (ht_imps example_host ! 0)) = 1"
    by (simp add: example_host_def mrudp_service_ex_def mrudp_socket_on_def new_Host_def new_World_def toNative_def sv_open_def new_Service_def sp_start_def new_ServiceImp_def
        service_options_def merge_imp_def overlapped_options_def systemDefaultOptions_def new_SocketImp_def acquire_defs example_answers_def mrudp_socket_def newHandle_socket_def si_open_def)
  moreover have "aq_close example_answers" "aq_open example_answers" "aq_bind example_answers" "aq_local_endpoint example_answers" "aq_open_overlapped example_answers"
    "any_endpoint (aq_bound example_answers) = V4 [0, 0, 0, 0] 0" by (simp_all add: example_answers_def numeral_eq_Suc)
  ultimately show ?thesis
    using address_refused [of example_host "Some 0" 0 "Some 0" 0 "example_answers\<lparr>aq_bind := False\<rparr>" "example_answers\<lparr>aq_set_option := False\<rparr>" "[]" "replicate 28 2" "[]"]
    by (simp del: toAddr.simps) blast
qed

end
