(* ===== verification/Address_Text.thy ===== *)
theory Address_Text
  imports Asio
begin

text \<open>
  Addresses as text: \<^verbatim>\<open>mrudp_str_to_addr\<close> and \<^verbatim>\<open>mrudp_addr_to_str\<close> of \<^verbatim>\<open>mrudp.cpp\<close>. The conversions of the system, \<^verbatim>\<open>inet_pton\<close> and
  \<^verbatim>\<open>inet_ntop\<close>, are parameters; their first argument says whether the family is \<^verbatim>\<open>AF_INET6\<close>.
\<close>

section \<open>Numbers as text\<close>

fun dec_string :: "nat \<Rightarrow> string" where
  "dec_string n = (if n < 10 then [char_of (48 + n)] else dec_string (n div 10) @ [char_of (48 + n mod 10)])"

declare dec_string.simps [simp del]

definition digit_of :: "char \<Rightarrow> nat option" where
  "digit_of c = (let n = of_char c in if 48 \<le> n \<and> n \<le> 57 then Some (n - 48) else None)"

fun atoi_digits :: "int \<Rightarrow> string \<Rightarrow> int" where
  "atoi_digits acc [] = acc"
| "atoi_digits acc (c # cs) = (case digit_of c of None \<Rightarrow> acc | Some d \<Rightarrow> atoi_digits (10 * acc + int d) cs)"

definition is_space :: "char \<Rightarrow> bool" where
  "is_space c \<longleftrightarrow> (let n = of_char c :: nat in n = 32 \<or> (9 \<le> n \<and> n \<le> 13))"

text \<open>\<^verbatim>\<open>atoi\<close>: blanks, a sign, digits. A number outside \<^verbatim>\<open>int\<close> has no defined result and is \<open>None\<close>.\<close>

definition atoi :: "string \<Rightarrow> int option" where
  "atoi s =
     (let t = dropWhile is_space s;
          v = (case t of
                 [] \<Rightarrow> 0
               | c # cs \<Rightarrow> if c = CHR ''-'' then - atoi_digits 0 cs else if c = CHR ''+'' then atoi_digits 0 cs else atoi_digits 0 t)
      in if - (2 ^ 31) \<le> v \<and> v < 2 ^ 31 then Some v else None)"

section \<open>Addresses\<close>

text \<open>\<^verbatim>\<open>rfind(':')\<close> and the two \<^verbatim>\<open>substr\<close>: without a colon both parts are the whole text.\<close>

definition split_colon :: "string \<Rightarrow> string \<times> string" where
  "split_colon s =
     (let port = rev (takeWhile (\<lambda>c. c \<noteq> CHR '':'') (rev s))
      in (if CHR '':'' \<in> set s then take (length s - length port - 1) s else s, port))"

text \<open>Where the system does not understand the text, the bytes of the address stay zero.\<close>

definition mrudp_str_to_addr :: "(bool \<Rightarrow> string \<Rightarrow> bytes option) \<Rightarrow> string \<Rightarrow> (int \<times> Address) option" where
  "mrudp_str_to_addr pton str =
     (case split_colon str of (ip, port) \<Rightarrow>
        do { n \<leftarrow> atoi port;
             if CHR '':'' \<in> set ip \<or> CHR ''['' \<in> set ip
             then Some (MRUDP_OK, toAddr (V6 (case pton True ip of Some bs \<Rightarrow> bs | None \<Rightarrow> replicate 16 0) (of_int n)))
             else Some (MRUDP_OK, toAddr (V4 (case pton False ip of Some bs \<Rightarrow> bs | None \<Rightarrow> replicate 4 0) (of_int n))) })"

definition INET_ADDRSTRLEN :: nat where [simp]: "INET_ADDRSTRLEN = 16"

text \<open>
  \<^verbatim>\<open>inet_ntop\<close> with a buffer of \<open>INET_ADDRSTRLEN\<close> bytes: where the text does not fit, the buffer keeps what it had, which is
  not initialised, and the result is \<open>None\<close>.
\<close>

definition inet_ntop_16 :: "(bool \<Rightarrow> bytes \<Rightarrow> string) \<Rightarrow> bool \<Rightarrow> bytes \<Rightarrow> string option" where
  "inet_ntop_16 ntop v6 bs = (if length (ntop v6 bs) < INET_ADDRSTRLEN then Some (ntop v6 bs) else None)"

definition mrudp_addr_to_str :: "(bool \<Rightarrow> bytes \<Rightarrow> string) \<Rightarrow> Address \<Rightarrow> nat \<Rightarrow> (int \<times> string option) option" where
  "mrudp_addr_to_str ntop addr outSize =
     do { (str, port) \<leftarrow>
            (if dec_word (take 2 addr) = AF_INET
             then do { str \<leftarrow> inet_ntop_16 ntop False (take 4 (drop 4 addr)); Some (str, ntohs (take 2 (drop 2 addr))) }
             else if dec_word (take 2 addr) = AF_INET6
             then do { str \<leftarrow> inet_ntop_16 ntop True (take 16 (drop 8 addr)); Some (str, ntohs (take 2 (drop 2 addr))) }
             else None);
          let s = str @ '':'' @ dec_string (unat port);
          if length s \<ge> outSize then Some (MRUDP_ERROR_GENERAL_FAILURE, None) else Some (MRUDP_OK, Some s) }"

section \<open>Round trip\<close>

lemma char_digit: "n < 10 \<Longrightarrow> digit_of (char_of (48 + n)) = Some n"
  by (simp add: digit_of_def Let_def)

lemma atoi_digits_append:
  "list_all (\<lambda>c. digit_of c \<noteq> None) s \<Longrightarrow> atoi_digits acc (s @ t) = atoi_digits (atoi_digits acc s) t"
  by (induction s arbitrary: acc) (auto split: option.splits)

lemma dec_string_digits: "list_all (\<lambda>c. digit_of c \<noteq> None) (dec_string n)"
  by (induction n rule: dec_string.induct) (subst dec_string.simps, auto simp: char_digit)

lemma atoi_dec_string: "atoi_digits 0 (dec_string n) = int n"
proof (induction n rule: dec_string.induct)
  case (1 n)
  have "10 * int (n div 10) + int (n mod 10) = int n" using div_mult_mod_eq [of n 10] by linarith
  with 1 show ?case by (subst dec_string.simps) (simp add: char_digit atoi_digits_append [OF dec_string_digits])
qed

lemma dec_string_hd: "\<exists>c cs. dec_string n = c # cs \<and> digit_of c \<noteq> None"
  using dec_string_digits [of n] by (cases "dec_string n") (auto simp: dec_string.simps [of n] split: if_splits)

lemma digit_plain: "digit_of c \<noteq> None \<Longrightarrow> \<not> is_space c \<and> c \<noteq> CHR ''-'' \<and> c \<noteq> CHR ''+'' \<and> c \<noteq> CHR '':''"
  by (auto simp: digit_of_def is_space_def Let_def split: if_splits)

lemma atoi_port: "n < 2 ^ 31 \<Longrightarrow> atoi (dec_string n) = Some (int n)"
proof -
  assume n: "n < 2 ^ 31"
  obtain c cs where c: "dec_string n = c # cs" "digit_of c \<noteq> None" using dec_string_hd by blast
  note p = digit_plain [OF c(2)]
  have "atoi_digits 0 (c # cs) = int n" using atoi_dec_string [of n] c(1) by simp
  then show ?thesis unfolding atoi_def c(1) using p n by (simp add: Let_def)
qed

lemma split_colon_append:
  assumes "CHR '':'' \<notin> set port"
  shows "split_colon (ip @ '':'' @ port) = (ip, port)"
proof -
  have "takeWhile (\<lambda>c. c \<noteq> CHR '':'') (rev (ip @ '':'' @ port)) = rev port"
    using assms by (simp add: takeWhile_append)
  then show ?thesis by (simp add: split_colon_def)
qed

text \<open>What is asked of the system for one address: its text is read back, and only the text of an IPv6 address has a colon.\<close>

fun inet_ok :: "(bool \<Rightarrow> string \<Rightarrow> bytes option) \<Rightarrow> (bool \<Rightarrow> bytes \<Rightarrow> string) \<Rightarrow> udp_endpoint \<Rightarrow> bool" where
  "inet_ok pton ntop (V4 bs port) \<longleftrightarrow> pton False (ntop False bs) = Some bs \<and> length (ntop False bs) \<le> 15
     \<and> CHR '':'' \<notin> set (ntop False bs) \<and> CHR ''['' \<notin> set (ntop False bs)"
| "inet_ok pton ntop (V6 bs port) \<longleftrightarrow> pton True (ntop True bs) = Some bs \<and> CHR '':'' \<in> set (ntop True bs)"

lemma dec_string_colon: "CHR '':'' \<notin> set (dec_string n)"
  using dec_string_digits [of n] digit_plain unfolding list_all_iff by blast

lemma dec_string_length: "n < 10 ^ Suc k \<Longrightarrow> length (dec_string n) \<le> Suc k"
proof (induction k arbitrary: n)
  case (Suc k)
  show ?case
  proof (cases "n < 10")
    case False
    have "n div 10 < 10 ^ Suc k" using Suc.prems by (simp add: less_mult_imp_div_less)
    with Suc.IH [of "n div 10"] False show ?thesis by (subst dec_string.simps) simp
  qed (simp add: dec_string.simps)
qed (simp add: dec_string.simps)

lemma addr_to_str_shape:
  assumes "endpoint_ok e" and "mrudp_addr_to_str ntop (toAddr e) outSize = Some (MRUDP_OK, Some s)"
  shows "case e of V4 bs port \<Rightarrow> s = ntop False bs @ '':'' @ dec_string (unat port) | V6 bs port \<Rightarrow> s = ntop True bs @ '':'' @ dec_string (unat port)"
  using assms by (cases e) (auto simp: mrudp_addr_to_str_def inet_ntop_16_def split: if_splits)

text \<open>
  C35: The text \<^verbatim>\<open>mrudp_addr_to_str\<close> writes for an endpoint is read back by \<^verbatim>\<open>mrudp_str_to_addr\<close> as the same address, for IPv4 and IPv6. For IPv4
  it always succeeds with room for 22 bytes. For an IPv6 address whose text has 16 characters or more the result is not defined,
  because the buffer has the size for IPv4.
\<close>

theorem address_text_roundtrip:
  assumes "endpoint_ok e" and "inet_ok pton ntop e"
  shows "(mrudp_addr_to_str ntop (toAddr e) outSize = Some (MRUDP_OK, Some s) \<longrightarrow> mrudp_str_to_addr pton s = Some (MRUDP_OK, toAddr e))
    \<and> (\<forall>bs port. e = V4 bs port \<and> 22 \<le> outSize \<longrightarrow> (\<exists>s. mrudp_addr_to_str ntop (toAddr e) outSize = Some (MRUDP_OK, Some s)))
    \<and> (\<forall>bs port. e = V6 bs port \<and> 16 \<le> length (ntop True bs) \<longrightarrow> mrudp_addr_to_str ntop (toAddr e) outSize = None)"
proof (intro conjI allI impI)
  have port: "atoi (dec_string (unat p)) = Some (uint p)" for p :: u16
    using atoi_port [of "unat p"] unsigned_less [of p, where 'a = nat] by simp
  assume "mrudp_addr_to_str ntop (toAddr e) outSize = Some (MRUDP_OK, Some s)"
  from addr_to_str_shape [OF assms(1) this] assms(2) show "mrudp_str_to_addr pton s = Some (MRUDP_OK, toAddr e)"
    by (cases e) (simp_all add: mrudp_str_to_addr_def split_colon_append [OF dec_string_colon, simplified] port)
next
  fix bs port assume e: "e = V4 bs port \<and> 22 \<le> outSize"
  have "length (dec_string (unat port)) \<le> 5" using dec_string_length [of "unat port" 4] unsigned_less [of port, where 'a = nat] by simp
  with e assms show "\<exists>s. mrudp_addr_to_str ntop (toAddr e) outSize = Some (MRUDP_OK, Some s)"
    by (auto simp: mrudp_addr_to_str_def inet_ntop_16_def)
next
  fix bs port assume "e = V6 bs port \<and> 16 \<le> length (ntop True bs)"
  with assms show "mrudp_addr_to_str ntop (toAddr e) outSize = None" by (auto simp: mrudp_addr_to_str_def inet_ntop_16_def)
qed

theorem address_text_roundtrip_witness:
  "\<exists>s. mrudp_addr_to_str (\<lambda>_ _. ''127.0.0.1'') (toAddr (V4 [127, 0, 0, 1] 5000)) 22 = Some (MRUDP_OK, Some s)
     \<and> mrudp_str_to_addr (\<lambda>_ t. if t = ''127.0.0.1'' then Some [127, 0, 0, 1] else None) s = Some (MRUDP_OK, toAddr (V4 [127, 0, 0, 1] 5000))"
proof -
  have "endpoint_ok (V4 [127, 0, 0, 1] 5000)" "inet_ok (\<lambda>_ t. if t = ''127.0.0.1'' then Some [127, 0, 0, 1] else None) (\<lambda>_ _. ''127.0.0.1'') (V4 [127, 0, 0, 1] 5000)" by simp_all
  note * = address_text_roundtrip [OF this]
  have "\<exists>s. mrudp_addr_to_str (\<lambda>_ _. ''127.0.0.1'') (toAddr (V4 [127, 0, 0, 1] 5000)) 22 = Some (MRUDP_OK, Some s)"
    using * [THEN conjunct2, THEN conjunct1] by blast
  with * [THEN conjunct1] show ?thesis by blast
qed

end
