(* ===== verification/Client_Calls.thy ===== *)
theory Client_Calls
  imports Services Proxy Address_Text
begin

text \<open>
  The calls of \<^verbatim>\<open>mrudp/mrudp.cpp\<close> and \<^verbatim>\<open>mrudp/mrudp_proxy.cpp\<close> that are made of others: defaults, name resolution, and connecting through a proxy, which connects to the proxy and
  sends it the address to connect to. The overloads for function pointers wrap their callbacks and are not listed again.
\<close>

section \<open>Defaults\<close>

definition mrudp_default_options :: "int \<times> OptionsImp" where
  "mrudp_default_options = (MRUDP_OK, systemDefaultOptions)"

definition mrudp_accept :: "api_handle \<Rightarrow> nat \<Rightarrow> bool \<Rightarrow> bool \<Rightarrow> World \<Rightarrow> (int \<times> World) option" where
  "mrudp_accept connection userData receive close w = mrudp_accept_ex connection None userData receive close w"

definition mrudp_connect ::
  "Env \<Rightarrow> timepoint \<Rightarrow> LongConnectionID \<Rightarrow> api_handle \<Rightarrow> Address \<Rightarrow> nat \<Rightarrow> bool \<Rightarrow> bool \<Rightarrow> World \<Rightarrow> (api_handle \<times> World) option" where
  "mrudp_connect env now longID socket remoteAddress userData receive close w = mrudp_connect_ex env now longID socket remoteAddress None userData receive close w"

section \<open>Name resolution\<close>

text \<open>
  The resolver of the system is \<open>resolver\<close>: the endpoints for a host and a port, none where it fails. The result is what the call returns and, where it is made, the
  addresses the callback gets. A service that has been destroyed has no handle.
\<close>

definition resolve :: "(string \<Rightarrow> string \<Rightarrow> udp_endpoint list) \<Rightarrow> string \<Rightarrow> string \<Rightarrow> Address list" where
  "resolve resolver host port = map toAddr (resolver host port)"

definition mrudp_resolve :: "(string \<Rightarrow> string \<Rightarrow> udp_endpoint list) \<Rightarrow> api_handle \<Rightarrow> string \<Rightarrow> Host \<Rightarrow> (int \<times> Address list option) option" where
  "mrudp_resolve resolver service address h =
     (case toNative (ht_serviceHandles h) service of
        None \<Rightarrow> None
      | Some None \<Rightarrow> Some (MRUDP_ERROR_GENERAL_FAILURE, None)
      | Some (Some v) \<Rightarrow> (case split_colon address of (ip, port) \<Rightarrow> Some (MRUDP_OK, Some (resolve resolver ip port))))"

section \<open>Connecting through a proxy\<close>

definition mrudp_proxy_connect :: "compressor \<Rightarrow> timepoint \<Rightarrow> api_handle \<Rightarrow> Address \<Rightarrow> u64 \<Rightarrow> World \<Rightarrow> (int \<times> World) option" where
  "mrudp_proxy_connect z now connection remote magic w = mrudp_send z now connection (enc_word 8 magic @ write_addr remote) True w"

definition connect_ex_proxy ::
  "compressor \<Rightarrow> Env \<Rightarrow> timepoint \<Rightarrow> LongConnectionID \<Rightarrow> api_handle \<Rightarrow> Address \<Rightarrow> ConnectionOptions option \<Rightarrow> nat \<Rightarrow> bool \<Rightarrow> bool \<Rightarrow> Address \<Rightarrow> u64 \<Rightarrow> World
   \<Rightarrow> (api_handle \<times> World) option" where
  "connect_ex_proxy z env now longID socket remote options userData receive close proxy magic w =
     do { (connection, w1) \<leftarrow> mrudp_connect_ex env now longID socket proxy options userData receive close w;
          if connection = None then Some (None, w1)
          else do { (result, w2) \<leftarrow> mrudp_proxy_connect z now connection remote magic w1;
                    if result \<noteq> MRUDP_OK
                    then do { (_, w3) \<leftarrow> mrudp_close_connection z now connection w2; Some (None, w3) }
                    else Some (connection, w2) } }"

definition connect_proxy ::
  "compressor \<Rightarrow> Env \<Rightarrow> timepoint \<Rightarrow> LongConnectionID \<Rightarrow> api_handle \<Rightarrow> Address \<Rightarrow> nat \<Rightarrow> bool \<Rightarrow> bool \<Rightarrow> Address \<Rightarrow> u64 \<Rightarrow> World \<Rightarrow> (api_handle \<times> World) option" where
  "connect_proxy z env now longID socket remote userData receive close proxy magic w =
     connect_ex_proxy z env now longID socket remote None userData receive close proxy magic w"

definition connect_ex_proxy_resolve ::
  "(bool \<Rightarrow> string \<Rightarrow> bytes option) \<Rightarrow> compressor \<Rightarrow> Env \<Rightarrow> timepoint \<Rightarrow> LongConnectionID \<Rightarrow> api_handle \<Rightarrow> string \<Rightarrow> ConnectionOptions option \<Rightarrow> nat \<Rightarrow> bool \<Rightarrow> bool
   \<Rightarrow> Address \<Rightarrow> u64 \<Rightarrow> World \<Rightarrow> (api_handle \<times> World) option" where
  "connect_ex_proxy_resolve pton z env now longID socket remote options userData receive close proxy magic w =
     do { (_, address) \<leftarrow> mrudp_str_to_addr pton remote;
          connect_ex_proxy z env now longID socket address options userData receive close proxy magic w }"

definition connect_proxy_resolve ::
  "(bool \<Rightarrow> string \<Rightarrow> bytes option) \<Rightarrow> compressor \<Rightarrow> Env \<Rightarrow> timepoint \<Rightarrow> LongConnectionID \<Rightarrow> api_handle \<Rightarrow> string \<Rightarrow> nat \<Rightarrow> bool \<Rightarrow> bool
   \<Rightarrow> Address \<Rightarrow> u64 \<Rightarrow> World \<Rightarrow> (api_handle \<times> World) option" where
  "connect_proxy_resolve pton z env now longID socket remote userData receive close proxy magic w =
     do { (_, address) \<leftarrow> mrudp_str_to_addr pton remote;
          connect_proxy z env now longID socket address userData receive close proxy magic w }"

section \<open>Handles\<close>

text \<open>A new connection gets the next handle, or none and then nothing changes but the socket.\<close>

lemma connect_ex_handles:
  assumes "mrudp_connect_ex env now longID hs a options ud rh ch w = Some (hc, w1)"
  shows "hc = None \<and> wd_connectionHandles w1 = wd_connectionHandles w \<and> wd_fresh w1 = wd_fresh w
    \<or> (\<exists>c. hc = Some (wd_fresh w) \<and> wd_connectionHandles w1 = (wd_connectionHandles w)(wd_fresh w \<mapsto> Some c) \<and> wd_fresh w1 = Suc (wd_fresh w))"
  using assms
  by (auto simp: mrudp_connect_ex_def newHandle_connection_def update_socket_def Let_def simp del: split_paired_Ex split_paired_All
      split: option.splits Option.bind_splits; blast)

lemma send_handles: "mrudp_send z now hc buffer reliable w = Some (e, w1) \<Longrightarrow> wd_connectionHandles w1 = wd_connectionHandles w"
  by (auto simp: mrudp_send_def with_connection_def update_connection_def update_socket_def split: option.splits prod.splits)

lemma close_handles: "mrudp_close_connection z now (Some k) w = Some (e, w1) \<Longrightarrow> wd_connectionHandles w k = Some (Some c) \<Longrightarrow> wd_connectionHandles w1 = (wd_connectionHandles w)(k := None)"
  by (auto simp: mrudp_close_connection_def closeHandle_def deleteHandle_def Let_def)

lemma close_defined: "wd_connectionHandles w k = Some (Some c) \<Longrightarrow> mrudp_close_connection z now (Some k) w \<noteq> None"
  by (simp add: mrudp_close_connection_def closeHandle_def Let_def)



end
