(* ===== verification/Spec2Isabelle.thy ===== *)
theory Spec2Isabelle
  imports Scheduler Reliable_Stream Proxy_Tunnel Delivery Overlapped Client_Calls
begin

text \<open>
  A verification of MrUDP, a library for reliable and unreliable messages over UDP, with a proxy that tunnels connections.
  The theories follow the sources under \<^verbatim>\<open>src/mrudp\<close>; definitions keep the names of the functions they model, with a prefix where
  several classes have a member of the same name (\<^verbatim>\<open>sq_\<close> for \<^verbatim>\<open>SendQueue\<close>, \<^verbatim>\<open>rq_\<close> for \<^verbatim>\<open>ReceiveQueue\<close>, \<^verbatim>\<open>re_\<close> for \<^verbatim>\<open>Retrier\<close>, \<^verbatim>\<open>sk_\<close> for \<^verbatim>\<open>Socket\<close>,
  \<^verbatim>\<open>cb_\<close> for \<^verbatim>\<open>CircularBuffer\<close>, \<^verbatim>\<open>si_\<close> for \<^verbatim>\<open>SocketImp\<close>).

  \<^bold>\<open>The program.\<close> A program opens a socket and gets connections from it by \<^verbatim>\<open>mrudp_connect\<close> or by listening. A connection sends data
  through two send queues, a reliable and an unreliable one, which cut and coalesce data into frames and frames into
  packets. Reliable packets stay in the retrier until they are acked, within a window that follows the round-trip time. The
  receiver acks, orders the frames of reliable packets and hands the data to the user. A handshake of four packets
  exchanges identifiers and options, a challenge protects a change of the remote address, a probe notices a silent peer.
  Everything that happens later is a timeout of a scheduler. Under the socket, an implementation on boost::asio moves datagrams.

  \<^bold>\<open>The theories.\<close>
  \<^item> \<open>Mr_Prelude\<close>: bytes, little-endian words, ordered maps with their contract as the locale \<open>ordered_map\<close>, and the collections of
    rules the components share.
  \<^item> \<open>Packet\<close> (\<^verbatim>\<open>Packet.h\<close>, \<^verbatim>\<open>Packet.inl\<close>): headers and frames, a payload as a stack of bytes with its guards in \<^verbatim>\<open>size_t\<close>, and
    \<^verbatim>\<open>id_greater_than\<close>, which decides the order of counters across the wrap-around.
  \<^item> \<open>Mr_Types\<close> (\<^verbatim>\<open>Types.h\<close>, \<^verbatim>\<open>Types.cpp\<close>, \<^verbatim>\<open>mrudp.h\<close>, \<^verbatim>\<open>Statistics.cpp\<close>): options and their merge, errors, statistics, addresses.
  \<^item> \<open>Receive_Queue\<close> (\<^verbatim>\<open>receiver/ReceiveQueue.cpp\<close>, \<^verbatim>\<open>receiver/UnreliableReceiveQueue.cpp\<close>): ordering; whatever the order and repetition of arrivals,
    the delivered frames are the stream up to the first gap.
  \<^item> \<open>Send_Queue\<close> (\<^verbatim>\<open>sender/SendQueue.cpp\<close>): the four ways to coalesce, and the contract \<open>frame_queue\<close>: frames enter with consecutive identifiers
    and leave from the front.
  \<^item> \<open>Timing\<close> (\<^verbatim>\<open>sender/RTT.h\<close>, \<^verbatim>\<open>sender/WindowSize.h\<close>, parts of \<^verbatim>\<open>Retrier.cpp\<close> and \<^verbatim>\<open>Probe.cpp\<close>): floats as rationals with IEEE rounding, bounds of times and window.
  \<^item> \<open>Retrier\<close> (\<^verbatim>\<open>sender/Retrier.cpp\<close>), \<open>Scheduler\<close> (\<^verbatim>\<open>Scheduler.cpp\<close>), \<open>Decompress\<close> (the compressed blocks of \<^verbatim>\<open>receiver/Receiver.cpp\<close>).
  \<^item> \<open>Connection_State\<close>, \<open>Sender\<close>, \<open>Connection_Close\<close>, \<open>Connection_Receive\<close>: a connection with its sender, receiver, handshake, probe and network path
    (\<^verbatim>\<open>Connection.cpp\<close>, \<^verbatim>\<open>sender/Sender.cpp\<close>, \<^verbatim>\<open>receiver/Receiver.cpp\<close>, \<^verbatim>\<open>Handshake.cpp\<close>, \<^verbatim>\<open>Handshake_Options.cpp\<close>, \<^verbatim>\<open>NetworkPath.cpp\<close>, \<^verbatim>\<open>connection/Probe.cpp\<close>) as one record; each
    operation returns the record updated, with what it asks of the socket, the scheduler and the user in the trace \<open>c_out\<close>.
  \<^item> \<open>Connection_Inv\<close>: the invariant of a connection and one preservation lemma for each operation. \<open>Transition_Systems\<close>: the locales
    \<open>invariant_system\<close> and \<open>related_system\<close>, which carry an invariant or a relation over runs. \<open>Connection_Events\<close>: the events of a connection in any order, with what its
    user sees. \<open>Handshake_Path\<close>: the handshake refines a four-state automaton; the address changes only after a challenge. \<open>Sender_Behaviour\<close>: window, acks,
    the result of a send, failure and timeout.
  \<^item> \<open>Socket\<close> (\<^verbatim>\<open>Socket.cpp\<close>): the tables of a socket over a store of connections. \<open>Handshake_Agreement\<close>: two ends and a network that loses, repeats and
    delays.
  \<^item> \<open>Stream_Side\<close>, \<open>Stream_Receive\<close>, \<open>Reliable_Stream\<close>: a ledger of what an end has put into its stream, into which packet each frame went and what the
    other end has, kept by every operation; and from it that two whole connections deliver reliably both ways, and that an ack means delivery.
  \<^item> \<open>Api\<close> (\<^verbatim>\<open>mrudp.cpp\<close> and the handles of \<^verbatim>\<open>Connection.cpp\<close> and \<^verbatim>\<open>Socket.cpp\<close>): the C interface over handles; using a freed handle is \<open>None\<close>.
  \<^item> \<open>Containers\<close> (\<^verbatim>\<open>base/detail\<close>): copying, the sized vector and the circular buffer, which is a byte queue in the sense of the locale \<open>byte_queue\<close>.
  \<^item> \<open>Proxy\<close>, \<open>Proxy_Tunnel\<close> (\<^verbatim>\<open>Proxy.cpp\<close>, \<^verbatim>\<open>mrudp_proxy.cpp\<close>): the proxy and two of them back to back.
  \<^item> \<open>Crypto\<close> (\<^verbatim>\<open>Crypto.cpp\<close>, \<^verbatim>\<open>imp/CryptoOpenSSL.cpp\<close>): encryption of packets and the exchange of keys.
  \<^item> \<open>Asio\<close> (\<^verbatim>\<open>imp/Asio.cpp\<close>): addresses, datagrams, the send queue of a native socket, acquiring an address step by step, relocation, and the receive loop over the socket.
  \<^item> \<open>Services\<close> (\<^verbatim>\<open>Service.cpp\<close>, \<^verbatim>\<open>ServiceImp\<close> of \<^verbatim>\<open>imp/Asio.cpp\<close>): worker threads, what points to sockets and services and when they are destroyed, and the calls on the
    implementation of a socket. \<open>Client_Calls\<close> (\<^verbatim>\<open>mrudp.cpp\<close>, \<^verbatim>\<open>mrudp_proxy.cpp\<close>): calls made of others, name resolution, connecting through a proxy.
  \<^item> \<open>Overlapped\<close> (\<^verbatim>\<open>imp/Asio.cpp\<close>): the native sockets connections share, with their counts of pointers: one for each remote address.
  \<^item> \<open>Address_Text\<close> (\<^verbatim>\<open>mrudp.cpp\<close>): addresses as text, over \<^verbatim>\<open>inet_pton\<close> and \<^verbatim>\<open>inet_ntop\<close> of the system.
  \<^item> \<open>Delivery\<close>: the locale \<open>packet_channel\<close>, interpreted for plain and for encrypted datagrams, between a send queue and a receive queue; the
    theorems of this theory are its instances.

  \<^bold>\<open>How the code is modelled.\<close> A class is a record, an enumeration a datatype or a word, an integer a word where it may wrap. A handler is a function of the state; it is
  atomic, as the code holds its locks, and reads the clock once. Calls to the user, timers and packets are effects in a trace. The clock counts nanoseconds as an
  integer. \<^verbatim>\<open>std::map\<close> is an ordered association list. Errors are values; \<open>None\<close> is a loop that never ends or behaviour the language does not define, as
  each definition says. The configuration is the default one of \<^verbatim>\<open>Config.h\<close> on a little-endian Linux with assertions off: encryption is not compiled into the connection,
  so that \<open>Crypto\<close> stands beside it and meets it in \<open>Delivery\<close>.

  \<^bold>\<open>Parameters.\<close> zlib is \<open>z\<close> and \<open>u\<close>, with \<open>zlib_ok\<close>: what \<open>u\<close> returns for what \<open>z\<close> compressed is the original. OpenSSL is the record
  \<open>OpenSSL\<close>, with \<open>openssl_ok\<close>: decryption undoes encryption, with the lengths its documentation gives. Random draws, the answers of the user and
  the results of the system are arguments (\<open>Env\<close>, \<open>ProxyEnv\<close>, \<open>Drawn\<close>). Each hypothesis about them holds for an instance in a witness.

  \<^bold>\<open>Bounds and fuel.\<close> No function has fuel: loops are recursions with a termination proof, or \<open>partial_function\<close> where the code may loop forever, and then
  it is proved when they end (\<open>acquireShortConnectionID_total\<close>, \<open>hostile_datagrams\<close>, \<open>circular_buffer_refines_fifo\<close>). Theorems about ordering ask that an arriving frame is less than
  half the range of identifiers from the first missing one; a window of at most 400 packets keeps this.
  \<open>reliable_stream\<close> counts instead: fewer than \<open>2\<^sup>1\<^sup>5\<close> frames a side, and for an ack to mean delivery at most \<open>2\<^sup>1\<^sup>6\<close> packets sent, as packet identifiers are then used once;
  its connections coalesce in the modes that do not compress. Theorems about buffers ask for
  less than 2 GiB, where the code keeps an offset in an \<^verbatim>\<open>int\<close>.

  \<^bold>\<open>Not modelled.\<close> Locks, and what threads do inside a handler: interleaving is that of whole handlers. Pointers are modelled where the life of an object depends on them, in
  \<open>Overlapped\<close> and \<open>Services\<close>. The timer and the sockets of boost, the resolver: calls to the system, whose results are arguments. The drop and fault-injection helpers: the network of the model loses
  packets at will. Logging. \<^verbatim>\<open>imp/UVW.h\<close> has no definitions, \<^verbatim>\<open>_remove\<close> is not compiled, and the programs under \<^verbatim>\<open>examples\<close>, \<^verbatim>\<open>mrudp_proxy\<close>
  and \<^verbatim>\<open>tests\<close> only call the library.
\<close>

section \<open>From end to end\<close>

text \<open>
  C2: Data a sender enqueues, in any mode but the compressed one and with the packets taken from the queue at any time, arrives as it was. Whatever
  packets the network loses, repeats or reorders, as long as the receive window holds, what the receiver has delivered is the
  beginning of the enqueued data, in order and once; and when every packet has arrived at least once and the queue is empty, it is all of it.
\<close>

theorem end_to_end_delivery:
  assumes "list_all plain_op ops" and "sq_run z level new_SendQueue ops = (ps, q)"
    and "list_all (\<lambda>(j, i, n, way). j < length ps) net" and "window_ok [] (concat (map (numbers_of ps \<circ> fst) net))"
  shows "(\<exists>rest. enqueued ops = delivered (arrived plain_transmit ps net) @ rest)
    \<and> ({..<length ps} \<subseteq> fst ` set net \<and> sq_queue q = [] \<longrightarrow> delivered (arrived plain_transmit ps net) = enqueued ops)"
  by (rule udp.stream_delivered [OF assms(1,2) _ assms(4)]) (use assms(3) in simp)

text \<open>
  C3: The same over an encrypted session: every transmission of a packet is encrypted with the peer's session key and a fresh
  initialisation vector, goes through a datagram and is decrypted, and the delivered data is the enqueued data.
\<close>

theorem encrypted_delivery:
  assumes "list_all plain_op ops" and "sq_run z level new_SendQueue ops = (ps, q)"
    and "list_all (\<lambda>(j, i, n, way). j < length ps \<and> session_ok way) net" and "window_ok [] (concat (map (numbers_of ps \<circ> fst) net))"
  shows "(\<exists>rest. enqueued ops = delivered (arrived encrypted_transmit ps net) @ rest)
    \<and> ({..<length ps} \<subseteq> fst ` set net \<and> sq_queue q = [] \<longrightarrow> delivered (arrived encrypted_transmit ps net) = enqueued ops)"
  by (rule aes.stream_delivered [OF assms])

definition example_sent :: "Packet list" where
  "example_sent = fst (sq_run example_z 0 new_SendQueue example_ops)"

lemma example_run:
  "list_all plain_op example_ops" "enqueued example_ops = [1, 2, 3, 4]"
  "sq_run example_z 0 new_SendQueue example_ops = (example_sent, snd (sq_run example_z 0 new_SendQueue example_ops))"
  "sq_queue (snd (sq_run example_z 0 new_SendQueue example_ops)) = []"
  by (simp add: example_ops_def admissible_def, simp add: example_ops_def, simp add: example_sent_def, code_simp)

lemma example_frames: "map (\<lambda>p. length (frames_of p)) example_sent = [2, 1]"
  unfolding example_sent_def by code_simp

lemma example_numbers:
  "length example_sent = 2" "numbers_of example_sent 0 = [0, 1]" "numbers_of example_sent 1 = [2]" "window_ok [] [2, 0, 1, 2]"
proof -
  obtain p q where s: "example_sent = [p, q]" "length (frames_of p) = 2" "length (frames_of q) = 1"
    using example_frames by (auto simp: map_eq_Cons_conv)
  show "length example_sent = 2" "numbers_of example_sent 0 = [0, 1]" "numbers_of example_sent 1 = [2]"
    unfolding s(1) using s(2,3) by (simp_all add: numbers_of_def upt_rec)
  show "window_ok [] [2, 0, 1, 2]" by (simp add: mex_def in_window_def)
qed

theorem end_to_end_delivery_witness:
  "delivered (arrived plain_transmit example_sent [(1, 8, 5, ()), (0, 7, 5, ()), (1, 8, 5, ())]) = [1, 2, 3, 4]"
  using end_to_end_delivery [OF example_run(1,3), of "[(1, 8, 5, ()), (0, 7, 5, ()), (1, 8, 5, ())]"] example_numbers example_run(2,4)
  by (auto simp: numeral_2_eq_2 lessThan_Suc)

definition example_session :: session where
  "example_session = (example_ssl, (example_end 1)\<lparr>cc_remoteSessionKey := Some (replicate 32 2)\<rparr>, example_end 2, example_drawn)"

theorem encrypted_delivery_witness:
  "delivered (arrived encrypted_transmit example_sent [(1, 8, 5, example_session), (0, 7, 5, example_session), (1, 8, 5, example_session)]) = [1, 2, 3, 4]"
proof -
  have "session_ok example_session"
    using example_ssl_ok [of "{}"] example_crypto(2) by (simp add: example_session_def example_end_def new_ConnectionCrypto_def)
  then show ?thesis
    using encrypted_delivery [OF example_run(1,3), of "[(1, 8, 5, example_session), (0, 7, 5, example_session), (1, 8, 5, example_session)]"]
      example_numbers example_run(2,4)
    by (auto simp: numeral_2_eq_2 lessThan_Suc)
qed

end
